(* ===== verification/Prelude.thy ===== *)
theory Prelude
  imports Main "HOL-Library.Word"
begin

section \<open>Prelude: machine integers, ring slots and shared automation\<close>

text \<open>
  The vocabulary every component shares: the machine integer types, the power-of-two capacities
  that \<^verbatim>\<open>std::bit_ceil\<close> gives, the slot a 64-bit cursor addresses in a ring
  (\<^verbatim>\<open>cursor & Mask\<close>), and the list of items between two cursors. The lemmas
  about cursors hold across the wrap-around at \<open>2 ^ 64\<close>: a capacity that is a power of two
  divides \<open>2 ^ 64\<close>, so masking a wrapped cursor still walks the ring slot by slot.
\<close>

unbundle bit_operations_syntax

type_synonym u8 = "8 word"
type_synonym u16 = "16 word"
type_synonym u32 = "32 word"
type_synonym u64 = "64 word"

named_theorems cursor_simps \<open>distances between 64-bit cursors, read as naturals\<close>
named_theorems ring_simps \<open>cells of a ring after a write or a cursor move\<close>

subsection \<open>Powers of two\<close>

text \<open>\<^verbatim>\<open>std::bit_ceil\<close>: the least power of two that is not below the argument.\<close>

function bit_ceil_from :: "nat \<Rightarrow> nat \<Rightarrow> nat" where
  "bit_ceil_from p n = (if p = 0 \<or> n \<le> p then p else bit_ceil_from (2 * p) n)"
  by pat_completeness auto
termination
  by (relation "measure (\<lambda>(p, n). n - p)") auto

declare bit_ceil_from.simps [simp del]

definition bit_ceil :: "nat \<Rightarrow> nat" where
  "bit_ceil n = bit_ceil_from 1 n"

lemma bit_ceil_from_pow2: "\<exists>j. bit_ceil_from (2 ^ k) n = 2 ^ j \<and> n \<le> 2 ^ j \<and> k \<le> j \<and> (j = k \<or> 2 ^ j < 2 * n)"
proof (induction "2 ^ k :: nat" n arbitrary: k rule: bit_ceil_from.induct)
  case (1 n)
  show ?case
  proof (cases "n \<le> 2 ^ k")
    case True
    then show ?thesis by (intro exI [of _ k]) (simp add: bit_ceil_from.simps [of "2 ^ k"])
  next
    case False
    then obtain j where "bit_ceil_from (2 ^ Suc k) n = 2 ^ j" "n \<le> 2 ^ j" "Suc k \<le> j" "j = Suc k \<or> 2 ^ j < 2 * n"
      using "1"[of "Suc k"] by auto
    with False show ?thesis
      by (intro exI [of _ j]) (auto simp: bit_ceil_from.simps [of "2 ^ k"])
  qed
qed

lemma bit_ceil_pow2: "\<exists>j. bit_ceil n = 2 ^ j \<and> n \<le> 2 ^ j \<and> (j = 0 \<or> 2 ^ j < 2 * n)"
  using bit_ceil_from_pow2 [of 0 n] by (auto simp: bit_ceil_def)

definition pow2_cap :: "nat \<Rightarrow> bool" where
  "pow2_cap c \<longleftrightarrow> (\<exists>k<64. c = 2 ^ k)"

lemma pow2_cap_of: "k < 64 \<Longrightarrow> pow2_cap (2 ^ k)"
  by (auto simp: pow2_cap_def)

lemma unat_lt_u64: "unat (w :: u64) < 2 ^ 64"
  using unsigned_less [of w, where 'a = nat] by simp

lemma pow2_cap_pos [intro]: "pow2_cap c \<Longrightarrow> 0 < c"
  by (auto simp: pow2_cap_def)

lemma pow2_cap_less: "pow2_cap c \<Longrightarrow> c < 2 ^ 64"
  unfolding pow2_cap_def using power_strict_increasing [of _ 64 "2::nat"] by auto

lemma pow2_cap_dvd: "pow2_cap c \<Longrightarrow> c dvd 2 ^ 64"
  unfolding pow2_cap_def using le_imp_power_dvd [of _ 64 "2::nat"] by auto

lemma bit_ceil_cap: "n \<le> 2 ^ 63 \<Longrightarrow> pow2_cap (bit_ceil n)"
proof -
  assume n: "n \<le> 2 ^ 63"
  obtain j where j: "bit_ceil n = 2 ^ j" "j = 0 \<or> 2 ^ j < 2 * n"
    using bit_ceil_pow2 by blast
  have "j < 64"
  proof (cases "j = 0")
    case False
    with j(2) n have "(2::nat) ^ j < 2 ^ 64" by simp
    then show ?thesis using power_strict_increasing_iff [of "2::nat" j 64] by simp
  qed simp
  with j(1) show ?thesis by (auto simp: pow2_cap_def)
qed

lemma bit_ceil_ge: "n \<le> bit_ceil n"
  using bit_ceil_pow2 [of n] by auto

subsection \<open>Distances between cursors\<close>

lemma unat_inc [cursor_simps]: "unat (d::u64) < 2 ^ 64 - 1 \<Longrightarrow> unat (d + 1) = unat d + 1"
  by (simp add: unat_plus_if')

lemma unat_dec [cursor_simps]: "(d::u64) \<noteq> 0 \<Longrightarrow> unat (d - 1) = unat d - 1"
  by (simp add: unat_minus_one)

lemma unat_add_of_nat: "unat (d::u64) + n < 2 ^ 64 \<Longrightarrow> unat (d + of_nat n) = unat d + n"
  by (simp add: unat_word_ariths unat_of_nat take_bit_nat_def)

lemma unat_sub_of_nat: "n \<le> unat (d::u64) \<Longrightarrow> unat (d - of_nat n) = unat d - n"
proof -
  assume n: "n \<le> unat d"
  moreover have "unat d < 2 ^ 64" using unsigned_less [of d] by simp
  ultimately have "unat (of_nat n :: u64) = n" by (simp add: unat_of_nat take_bit_nat_def)
  with n show ?thesis by (simp add: unat_sub word_le_nat_alt)
qed

text \<open>The same for 32-bit sequence numbers.\<close>

lemma unat_lt_u32: "unat (w :: u32) < 2 ^ 32"
  using unsigned_less [of w, where 'a = nat] by simp

lemma unat_of_nat_u16: "n < 65536 \<Longrightarrow> unat (of_nat n :: u16) = n"
  by (simp add: unat_of_nat take_bit_nat_def)

lemma unat_of_nat_u32: "n < 2 ^ 32 \<Longrightarrow> unat (of_nat n :: u32) = n"
  by (simp add: unat_of_nat take_bit_nat_def)

lemma unat_add_of_nat32: "unat (d :: u32) + n < 2 ^ 32 \<Longrightarrow> unat (d + of_nat n) = unat d + n"
  by (simp add: unat_word_ariths unat_of_nat take_bit_nat_def)

lemma unat_sub_of_nat32: "n \<le> unat (d :: u32) \<Longrightarrow> unat (d - of_nat n) = unat d - n"
proof -
  assume n: "n \<le> unat d"
  then have "unat (of_nat n :: u32) = n" using unat_lt_u32 [of d] by (intro unat_of_nat_u32) linarith
  with n show ?thesis by (simp add: unat_sub word_le_nat_alt)
qed

lemma unat_zero_iff: "unat (a - b :: u64) = 0 \<longleftrightarrow> a = b"
  by (simp add: unat_eq_zero)

subsection \<open>Slots of a ring\<close>

text \<open>The slot a cursor addresses: \<^verbatim>\<open>cursor & Mask\<close> with \<^verbatim>\<open>Mask = Size - 1\<close>.\<close>

definition slot :: "nat \<Rightarrow> u64 \<Rightarrow> nat" where
  "slot cap w = unat (w AND (of_nat cap - 1))"

lemma slot_mod: "pow2_cap cap \<Longrightarrow> slot cap w = unat w mod cap"
proof -
  assume "pow2_cap cap"
  then obtain k where k: "k < 64" "cap = 2 ^ k" by (auto simp: pow2_cap_def)
  then have "(of_nat cap - 1 :: u64) = mask k" by (simp add: mask_eq_exp_minus_1)
  then have "w AND (of_nat cap - 1) = take_bit k w" by (simp add: take_bit_eq_mask)
  then show ?thesis using k
    by (simp add: slot_def unsigned_take_bit_eq take_bit_nat_def)
qed

lemma slot_less [intro]: "pow2_cap cap \<Longrightarrow> slot cap w < cap"
  by (simp add: slot_mod pow2_cap_pos)

lemma slot_add: "pow2_cap cap \<Longrightarrow> slot cap (w + of_nat i) = (unat w + i) mod cap"
proof -
  assume c: "pow2_cap cap"
  have "unat (w + of_nat i) = (unat w + i) mod 2 ^ 64"
    by (simp add: unat_word_ariths unat_of_nat take_bit_nat_def mod_simps)
  then show ?thesis using pow2_cap_dvd [OF c] by (simp add: slot_mod [OF c] mod_mod_cancel)
qed

lemma slot_inj: 
  assumes c: "pow2_cap cap" and i: "i < cap" and j: "j < cap"
    and eq: "slot cap (w + of_nat i) = slot cap (w + of_nat j)"
  shows "i = j"
proof -
  have e: "(unat w + i) mod cap = (unat w + j) mod cap" using eq by (simp add: slot_add [OF c])
  show ?thesis
  proof (cases "i \<le> j")
    case True
    with e have "cap dvd j - i" by (metis diff_add_inverse mod_eq_dvd_iff_nat nat_add_left_cancel_le add_diff_cancel_left)
    with True j show ?thesis by (meson dvd_imp_le le_antisym less_imp_diff_less not_less zero_less_diff not_le)
  next
    case False
    with e have "cap dvd i - j" by (metis add_diff_cancel_left mod_eq_dvd_iff_nat nat_add_left_cancel_le nat_le_linear)
    with False i show ?thesis by (meson dvd_imp_le le_antisym less_imp_diff_less not_less zero_less_diff not_le)
  qed
qed

subsection \<open>The items between two cursors\<close>

definition cells :: "'a list \<Rightarrow> u64 \<Rightarrow> nat \<Rightarrow> 'a list" where
  "cells buf w n = map (\<lambda>i. buf ! slot (length buf) (w + of_nat i)) [0..<n]"

lemma length_cells [simp]: "length (cells buf w n) = n"
  by (simp add: cells_def)

lemma cells_0 [simp]: "cells buf w 0 = []"
  by (simp add: cells_def)

lemma nth_cells [simp]: "i < n \<Longrightarrow> cells buf w n ! i = buf ! slot (length buf) (w + of_nat i)"
  by (simp add: cells_def)

lemma cells_append: "cells buf w (m + n) = cells buf w m @ cells buf (w + of_nat m) n"
  by (rule nth_equalityI) (auto simp: nth_append add.assoc simp flip: of_nat_add)

lemma cells_snoc: "cells buf w (n + 1) = cells buf w n @ [buf ! slot (length buf) (w + of_nat n)]"
  by (simp add: cells_def)

lemma cells_Cons: "0 < n \<Longrightarrow> cells buf w n = buf ! slot (length buf) w # cells buf (w + 1) (n - 1)"
  using cells_append [of buf w 1 "n - 1"] by (simp add: cells_def)

text \<open>A write at the cursor past the items leaves the items alone as long as the ring is not full.\<close>

lemma cells_write [ring_simps]:
  assumes "pow2_cap (length buf)" and "n \<le> i" and "i < length buf"
  shows "cells (buf[slot (length buf) (w + of_nat i) := x]) w n = cells buf w n"
proof (rule nth_equalityI)
  fix j assume "j < length (cells (buf[slot (length buf) (w + of_nat i) := x]) w n)"
  then have j: "j < n" by simp
  with assms have "slot (length buf) (w + of_nat j) \<noteq> slot (length buf) (w + of_nat i)"
    using slot_inj [OF assms(1), of j i w] by auto
  with j show "cells (buf[slot (length buf) (w + of_nat i) := x]) w n ! j = cells buf w n ! j"
    by (simp add: nth_list_update_neq)
qed simp

end
