(* ===== verification/Pool_Spec.thy ===== *)
theory Pool_Spec
  imports Prelude "HOL-Library.Multiset"
begin

section \<open>The contract of a slab pool\<close>

text \<open>
  A slab pool hands out the addresses of a fixed block of nodes and takes them back. The contract
  is on the list of free addresses: an allocation takes the first one or reports that there is
  none, a release puts one back. The client lemmas are about sessions of a client that only
  returns what it holds: no address is lost, duplicated or handed out twice, and a release never
  waits.
\<close>

datatype 'p pool_op = Make | MakeBatch nat | Release 'p | ReleaseBatch "'p list"

text \<open>How a session can go wrong: a release of an address that is not held, or one that never returns.\<close>

datatype pool_error = Not_Held | Would_Spin

fun pool_step :: "('s \<Rightarrow> 'p option \<times> 's) \<Rightarrow> (nat \<Rightarrow> 's \<Rightarrow> 'p list \<times> 's) \<Rightarrow> ('p \<Rightarrow> 's \<Rightarrow> 's option) \<Rightarrow>
    ('p list \<Rightarrow> 's \<Rightarrow> 's option) \<Rightarrow> 'p pool_op \<Rightarrow> 'p multiset \<times> 's \<Rightarrow> pool_error + 'p multiset \<times> 's" where
  "pool_step mk mkb rl rlb Make (held, s) =
     (case mk s of (None, s') \<Rightarrow> Inr (held, s') | (Some p, s') \<Rightarrow> Inr (held + {#p#}, s'))"
| "pool_step mk mkb rl rlb (MakeBatch n) (held, s) = (case mkb n s of (ps, s') \<Rightarrow> Inr (held + mset ps, s'))"
| "pool_step mk mkb rl rlb (Release p) (held, s) =
     (if p \<in># held then (case rl p s of None \<Rightarrow> Inl Would_Spin | Some s' \<Rightarrow> Inr (held - {#p#}, s')) else Inl Not_Held)"
| "pool_step mk mkb rl rlb (ReleaseBatch ps) (held, s) =
     (if mset ps \<subseteq># held then (case rlb ps s of None \<Rightarrow> Inl Would_Spin | Some s' \<Rightarrow> Inr (held - mset ps, s')) else Inl Not_Held)"

fun pool_session :: "('s \<Rightarrow> 'p option \<times> 's) \<Rightarrow> (nat \<Rightarrow> 's \<Rightarrow> 'p list \<times> 's) \<Rightarrow> ('p \<Rightarrow> 's \<Rightarrow> 's option) \<Rightarrow>
    ('p list \<Rightarrow> 's \<Rightarrow> 's option) \<Rightarrow> 'p pool_op list \<Rightarrow> 'p multiset \<times> 's \<Rightarrow> pool_error + 'p multiset \<times> 's" where
  "pool_session mk mkb rl rlb [] c = Inr c"
| "pool_session mk mkb rl rlb (op # ops) c =
     (case pool_step mk mkb rl rlb op c of Inl e \<Rightarrow> Inl e | Inr c' \<Rightarrow> pool_session mk mkb rl rlb ops c')"

definition pool_op_ok :: "'p pool_op \<Rightarrow> bool" where
  "pool_op_ok c \<longleftrightarrow> (case c of MakeBatch n \<Rightarrow> n < 2 ^ 64 | ReleaseBatch ps \<Rightarrow> length ps < 2 ^ 64 | _ \<Rightarrow> True)"

locale slab_pool =
  fixes inv :: "'s \<Rightarrow> bool"
    and valid :: "'p \<Rightarrow> bool"
    and free :: "'s \<Rightarrow> 'p list"
    and slots :: "'s \<Rightarrow> nat"
    and mk :: "'s \<Rightarrow> 'p option \<times> 's"
    and mkb :: "nat \<Rightarrow> 's \<Rightarrow> 'p list \<times> 's"
    and rl :: "'p \<Rightarrow> 's \<Rightarrow> 's option"
    and rlb :: "'p list \<Rightarrow> 's \<Rightarrow> 's option"
  assumes mk_none: "inv s \<Longrightarrow> free s = [] \<Longrightarrow> \<exists>s'. mk s = (None, s') \<and> inv s' \<and> free s' = [] \<and> slots s' = slots s"
    and mk_some: "inv s \<Longrightarrow> free s = p # ps \<Longrightarrow> \<exists>s'. mk s = (Some p, s') \<and> inv s' \<and> free s' = ps \<and> slots s' = slots s"
    and mkb_take: "inv s \<Longrightarrow> n < 2 ^ 64 \<Longrightarrow> \<exists>ps s'. mkb n s = (ps, s') \<and> inv s' \<and> free s = ps @ free s' \<and> length ps \<le> n
      \<and> (ps = [] \<longrightarrow> n = 0 \<or> free s = []) \<and> slots s' = slots s"
    and rl_put: "inv s \<Longrightarrow> valid p \<Longrightarrow> length (free s) < slots s \<Longrightarrow>
      \<exists>s'. rl p s = Some s' \<and> inv s' \<and> free s' = free s @ [p] \<and> slots s' = slots s"
    and rlb_put: "inv s \<Longrightarrow> list_all valid ps \<Longrightarrow> length (free s) + length ps \<le> slots s \<Longrightarrow> length ps < 2 ^ 64 \<Longrightarrow>
      \<exists>s'. rlb ps s = Some s' \<and> inv s' \<and> free s' = free s @ ps \<and> slots s' = slots s"
begin

text \<open>A call conserves the addresses; if they all fit the free list, it can only fail by a foreign release.\<close>

lemma call_conserves:
  assumes "inv s" "mset (free s) + held = nodes" "size nodes \<le> slots s" "pool_op_ok c" "\<And>p. p \<in># nodes \<Longrightarrow> valid p"
  shows "(\<exists>held' s'. pool_step mk mkb rl rlb c (held, s) = Inr (held', s') \<and> inv s' \<and> mset (free s') + held' = nodes \<and> slots s' = slots s)
    \<or> pool_step mk mkb rl rlb c (held, s) = Inl Not_Held"
proof (cases c)
  case Make
  show ?thesis
  proof (cases "free s")
    case Nil
    then obtain s' where "mk s = (None, s')" "inv s'" "free s' = []" "slots s' = slots s" using mk_none [OF assms(1)] by blast
    with Make Nil assms(2) show ?thesis by simp
  next
    case (Cons p ps)
    then obtain s' where "mk s = (Some p, s')" "inv s'" "free s' = ps" "slots s' = slots s" using mk_some [OF assms(1)] by blast
    with Make Cons assms(2) show ?thesis by simp
  qed
next
  case (MakeBatch n)
  then obtain ps s' where "mkb n s = (ps, s')" "inv s'" "free s = ps @ free s'" "slots s' = slots s"
    using mkb_take [OF assms(1), of n] assms(4) by (auto simp: pool_op_ok_def)
  moreover from this(3) have "mset (free s') + (held + mset ps) = nodes" using assms(2) by (simp add: ac_simps)
  ultimately show ?thesis using MakeBatch by simp
next
  case (Release p)
  show ?thesis
  proof (cases "p \<in># held")
    case True
    then have h: "held = add_mset p (held - {#p#})" by simp
    then have "size held = Suc (size (held - {#p#}))" by (metis size_add_mset)
    then have "size nodes = length (free s) + Suc (size (held - {#p#}))" using assms(2) by auto
    moreover have "valid p" using True assms(2,5) by auto
    ultimately obtain s' where "rl p s = Some s'" "inv s'" "free s' = free s @ [p]" "slots s' = slots s"
      using rl_put [OF assms(1), of p] assms(3) by auto
    moreover have "mset (free s) + {#p#} + (held - {#p#}) = nodes" unfolding union_assoc using assms(2) True by simp
    ultimately show ?thesis using Release True by auto
  qed (simp add: Release)
next
  case (ReleaseBatch ps)
  show ?thesis
  proof (cases "mset ps \<subseteq># held")
    case True
    then have h: "held = mset ps + (held - mset ps)" by simp
    then have "size held = length ps + size (held - mset ps)" by (metis size_mset size_union)
    then have "size nodes = length (free s) + length ps + size (held - mset ps)" using assms(2) by auto
    moreover have "list_all valid ps" using True assms(2,5) by (auto simp: list_all_iff dest: mset_subset_eqD)
    ultimately obtain s' where "rlb ps s = Some s'" "inv s'" "free s' = free s @ ps" "slots s' = slots s"
      using rlb_put [OF assms(1), of ps] assms(3,4) ReleaseBatch by (auto simp: pool_op_ok_def)
    moreover have "mset (free s) + mset ps + (held - mset ps) = nodes" unfolding union_assoc using assms(2) True by simp
    ultimately show ?thesis using ReleaseBatch True by auto
  qed (simp add: ReleaseBatch)
qed

lemma session_conserves:
  assumes "inv s" "mset (free s) + held = nodes" "size nodes \<le> slots s" "list_all pool_op_ok cs" "\<And>p. p \<in># nodes \<Longrightarrow> valid p"
  shows "(\<exists>held' s'. pool_session mk mkb rl rlb cs (held, s) = Inr (held', s') \<and> inv s' \<and> mset (free s') + held' = nodes)
    \<or> pool_session mk mkb rl rlb cs (held, s) = Inl Not_Held"
  using assms
proof (induction cs arbitrary: held s)
  case (Cons c cs)
  from call_conserves [of s held nodes c] Cons.prems
  consider (ok) held' s' where "pool_step mk mkb rl rlb c (held, s) = Inr (held', s')" "inv s'" "mset (free s') + held' = nodes" "slots s' = slots s"
    | (err) "pool_step mk mkb rl rlb c (held, s) = Inl Not_Held" by auto
  then show ?case
  proof cases
    case ok
    with Cons.IH [of s' held'] Cons.prems show ?thesis by simp
  qed simp
qed simp

end

end
