(* ===== verification/Conduit_Spec.thy ===== *)
theory Conduit_Spec
  imports Prelude
begin

section \<open>The contract of a conduit: a bounded first-in first-out queue\<close>

text \<open>
  A conduit is the wire between two pipeline stages. Whatever its memory layout, a client relies
  on one contract: \<^verbatim>\<open>try_push\<close> appends unless the conduit is full, \<^verbatim>\<open>try_pop\<close> removes
  the oldest item unless it is empty, \<^verbatim>\<open>push_batch\<close> takes the longest prefix that fits and
  \<^verbatim>\<open>pop_batch\<close> the longest prefix that is there. The abstract queue below is that contract on
  plain lists, the locale \<open>bounded_fifo\<close> states it as laws over a representation, and its
  client lemmas say that a whole session of calls is answered as the abstract queue answers it.
\<close>

datatype 'a call = TryPush 'a | TryPop | PushBatch "'a list" | PopBatch nat

datatype 'a reply = Pushed bool | Popped "'a option" | PushedN nat | PoppedN "'a list"

subsection \<open>The abstract queue\<close>

text \<open>
  Which reply the queue \<open>q\<close> allows to a call, and the queue afterwards. The single operations
  are deterministic. A batch may stop early, because a side works on a shadow of the other
  side's cursor, but it makes progress whenever the queue lets it.
\<close>

fun queue_allows :: "nat \<Rightarrow> 'a call \<Rightarrow> 'a reply \<Rightarrow> 'a list \<Rightarrow> 'a list \<Rightarrow> bool" where
  "queue_allows cap (TryPush x) (Pushed b) q q' \<longleftrightarrow>
     b = (length q < cap) \<and> q' = (if b then q @ [x] else q)"
| "queue_allows cap TryPop (Popped v) q q' \<longleftrightarrow>
     (case q of [] \<Rightarrow> v = None \<and> q' = [] | y # ys \<Rightarrow> v = Some y \<and> q' = ys)"
| "queue_allows cap (PushBatch xs) (PushedN n) q q' \<longleftrightarrow>
     n \<le> cap - length q \<and> n \<le> length xs \<and> (n = 0 \<longrightarrow> length q = cap \<or> xs = []) \<and> q' = q @ take n xs"
| "queue_allows cap (PopBatch m) (PoppedN ys) q q' \<longleftrightarrow>
     q = ys @ q' \<and> length ys \<le> m \<and> (ys = [] \<longrightarrow> m = 0 \<or> q = [])"
| "queue_allows cap _ _ q q' \<longleftrightarrow> False"

fun queue_trace :: "nat \<Rightarrow> 'a call list \<Rightarrow> 'a reply list \<Rightarrow> 'a list \<Rightarrow> 'a list \<Rightarrow> bool" where
  "queue_trace cap [] [] q q' \<longleftrightarrow> q' = q"
| "queue_trace cap (c # cs) (r # rs) q q' \<longleftrightarrow> (\<exists>q1. queue_allows cap c r q q1 \<and> queue_trace cap cs rs q1 q')"
| "queue_trace cap _ _ q q' \<longleftrightarrow> False"

text \<open>What a session accepted and what it delivered, read off its replies.\<close>

fun accepted :: "'a call list \<Rightarrow> 'a reply list \<Rightarrow> 'a list" where
  "accepted (TryPush x # cs) (Pushed True # rs) = x # accepted cs rs"
| "accepted (PushBatch xs # cs) (PushedN n # rs) = take n xs @ accepted cs rs"
| "accepted (c # cs) (r # rs) = accepted cs rs"
| "accepted _ _ = []"

fun delivered :: "'a reply list \<Rightarrow> 'a list" where
  "delivered [] = []"
| "delivered (Popped (Some x) # rs) = x # delivered rs"
| "delivered (PoppedN xs # rs) = xs @ delivered rs"
| "delivered (r # rs) = delivered rs"

text \<open>Every item accepted is delivered once and in order, or still waiting.\<close>

lemma queue_allows_fifo:
  "queue_allows cap c r q q1 \<Longrightarrow> q1 @ accepted cs rs = delivered rs @ q' \<Longrightarrow>
   q @ accepted (c # cs) (r # rs) = delivered (r # rs) @ q'"
  by (cases c; cases r) (auto split: list.splits if_splits option.splits)

lemma queue_trace_fifo:
  "queue_trace cap cs rs q q' \<Longrightarrow> q @ accepted cs rs = delivered rs @ q'"
proof (induction cap cs rs q q' rule: queue_trace.induct)
  case (2 cap c cs r rs q q')
  then obtain q1 where "queue_allows cap c r q q1" "queue_trace cap cs rs q1 q'" by auto
  with 2 show ?case by (intro queue_allows_fifo) auto
qed auto

lemma queue_allows_bound: "length q \<le> cap \<Longrightarrow> queue_allows cap c r q q' \<Longrightarrow> length q' \<le> cap"
  by (cases c; cases r) (auto split: if_splits list.splits)

lemma queue_trace_bound: "queue_trace cap cs rs q q' \<Longrightarrow> length q \<le> cap \<Longrightarrow> length q' \<le> cap"
  by (induction cap cs rs q q' rule: queue_trace.induct) (auto dest: queue_allows_bound)

subsection \<open>Calls on a representation\<close>

text \<open>A session on a representation, its four operations given: the client's view of a conduit.\<close>

fun conduit_call :: "('a \<Rightarrow> 's \<Rightarrow> bool \<times> 's) \<Rightarrow> ('s \<Rightarrow> 'a option \<times> 's) \<Rightarrow>
    ('a list \<Rightarrow> 's \<Rightarrow> nat \<times> 's) \<Rightarrow> (nat \<Rightarrow> 's \<Rightarrow> 'a list \<times> 's) \<Rightarrow>
    'a call \<Rightarrow> 's \<Rightarrow> 'a reply \<times> 's" where
  "conduit_call tpush tpop pushb popb (TryPush x) s = (let (b, s') = tpush x s in (Pushed b, s'))"
| "conduit_call tpush tpop pushb popb TryPop s = (let (v, s') = tpop s in (Popped v, s'))"
| "conduit_call tpush tpop pushb popb (PushBatch xs) s = (let (n, s') = pushb xs s in (PushedN n, s'))"
| "conduit_call tpush tpop pushb popb (PopBatch m) s = (let (ys, s') = popb m s in (PoppedN ys, s'))"

fun conduit_session :: "('a \<Rightarrow> 's \<Rightarrow> bool \<times> 's) \<Rightarrow> ('s \<Rightarrow> 'a option \<times> 's) \<Rightarrow>
    ('a list \<Rightarrow> 's \<Rightarrow> nat \<times> 's) \<Rightarrow> (nat \<Rightarrow> 's \<Rightarrow> 'a list \<times> 's) \<Rightarrow>
    'a call list \<Rightarrow> 's \<Rightarrow> 'a reply list \<times> 's" where
  "conduit_session tpush tpop pushb popb [] s = ([], s)"
| "conduit_session tpush tpop pushb popb (c # cs) s =
     (let (r, s1) = conduit_call tpush tpop pushb popb c s;
          (rs, s2) = conduit_session tpush tpop pushb popb cs s1 in (r # rs, s2))"

text \<open>A batch size is a \<^verbatim>\<open>size_t\<close>.\<close>

definition call_ok :: "'a call \<Rightarrow> bool" where
  "call_ok c \<longleftrightarrow> (case c of PushBatch xs \<Rightarrow> length xs < 2 ^ 64 | PopBatch m \<Rightarrow> m < 2 ^ 64 | _ \<Rightarrow> True)"

text \<open>
  A blocking \<^verbatim>\<open>push\<close> retries \<^verbatim>\<open>try_push\<close> until it succeeds. What the other side does between
  two attempts is the list of interferences; \<open>None\<close> is a push still spinning when they end.
\<close>

fun spin_push :: "('a \<Rightarrow> 's \<Rightarrow> bool \<times> 's) \<Rightarrow> ('s \<Rightarrow> 's) list \<Rightarrow> 'a \<Rightarrow> 's \<Rightarrow> 's option" where
  "spin_push tpush [] x s = (let (b, s') = tpush x s in if b then Some s' else None)"
| "spin_push tpush (f # fs) x s =
     (let (b, s') = tpush x s in if b then Some s' else spin_push tpush fs x (f s'))"

fun spin_pop :: "('s \<Rightarrow> 'a option \<times> 's) \<Rightarrow> ('s \<Rightarrow> 's) list \<Rightarrow> 's \<Rightarrow> ('a \<times> 's) option" where
  "spin_pop tpop [] s = (let (v, s') = tpop s in map_option (\<lambda>x. (x, s')) v)"
| "spin_pop tpop (f # fs) s =
     (let (v, s') = tpop s in case v of Some x \<Rightarrow> Some (x, s') | None \<Rightarrow> spin_pop tpop fs (f s'))"

subsection \<open>The contract as a locale\<close>

locale fifo_rep =
  fixes inv :: "'s \<Rightarrow> bool"
    and contents :: "'s \<Rightarrow> 'a list"
    and capacity :: "'s \<Rightarrow> nat"
    and tpush :: "'a \<Rightarrow> 's \<Rightarrow> bool \<times> 's"
    and tpop :: "'s \<Rightarrow> 'a option \<times> 's"
  assumes bounded: "inv s \<Longrightarrow> length (contents s) \<le> capacity s"
    and tpush_full: "inv s \<Longrightarrow> length (contents s) = capacity s \<Longrightarrow>
      \<exists>s'. tpush x s = (False, s') \<and> inv s' \<and> contents s' = contents s \<and> capacity s' = capacity s"
    and tpush_room: "inv s \<Longrightarrow> length (contents s) < capacity s \<Longrightarrow>
      \<exists>s'. tpush x s = (True, s') \<and> inv s' \<and> contents s' = contents s @ [x] \<and> capacity s' = capacity s"
    and tpop_empty: "inv s \<Longrightarrow> contents s = [] \<Longrightarrow>
      \<exists>s'. tpop s = (None, s') \<and> inv s' \<and> contents s' = [] \<and> capacity s' = capacity s"
    and tpop_item: "inv s \<Longrightarrow> contents s = y # ys \<Longrightarrow>
      \<exists>s'. tpop s = (Some y, s') \<and> inv s' \<and> contents s' = ys \<and> capacity s' = capacity s"
begin

lemma tpush_cases:
  assumes "inv s"
  obtains (full) s' where "length (contents s) = capacity s" "tpush x s = (False, s')" "inv s'"
      "contents s' = contents s" "capacity s' = capacity s"
  | (room) s' where "length (contents s) < capacity s" "tpush x s = (True, s')" "inv s'"
      "contents s' = contents s @ [x]" "capacity s' = capacity s"
proof (cases "length (contents s) = capacity s")
  case True
  then show ?thesis using tpush_full [OF assms, of x] full by blast
next
  case False
  then have "length (contents s) < capacity s" using bounded [OF assms] by simp
  then show ?thesis using tpush_room [OF assms, of x] room by blast
qed

lemma tpop_cases:
  assumes "inv s"
  obtains (empty) s' where "contents s = []" "tpop s = (None, s')" "inv s'" "contents s' = []"
      "capacity s' = capacity s"
  | (item) y ys s' where "contents s = y # ys" "tpop s = (Some y, s')" "inv s'" "contents s' = ys"
      "capacity s' = capacity s"
proof (cases "contents s")
  case Nil
  then show ?thesis using tpop_empty [OF assms] empty by blast
next
  case (Cons y ys)
  then show ?thesis using tpop_item [OF assms] item by blast
qed

text \<open>A blocking push into a conduit with room returns at the first attempt.\<close>

lemma spin_push_room:
  assumes "inv s" "length (contents s) < capacity s"
  shows "\<exists>s'. spin_push tpush fs x s = Some s' \<and> inv s' \<and> contents s' = contents s @ [x] \<and> capacity s' = capacity s"
  using tpush_room [OF assms, of x] by (cases fs) auto

text \<open>
  A blocking push into a full conduit returns as soon as the other side has popped: here after
  one interference that makes room and whatever else it interferes with later.
\<close>

lemma spin_push_after_pop:
  assumes s: "inv s" "contents s = y # ys" "length (contents s) = capacity s"
  shows "\<exists>s'. spin_push tpush ((\<lambda>t. snd (tpop t)) # fs) x s = Some s' \<and> inv s' \<and> contents s' = ys @ [x]"
proof -
  obtain s1 where s1: "tpush x s = (False, s1)" "inv s1" "contents s1 = y # ys" "capacity s1 = capacity s"
    using tpush_full [OF s(1,3), of x] s(2) by metis
  obtain s2 where s2: "tpop s1 = (Some y, s2)" "inv s2" "contents s2 = ys" "capacity s2 = capacity s"
    using tpop_item [OF s1(2,3)] s1(4) by metis
  have "length (contents s2) < capacity s2" using s s2 by simp
  with s1 s2 show ?thesis using spin_push_room [of s2 fs x] by auto
qed

lemma spin_pop_item:
  assumes "inv s" "contents s = y # ys"
  shows "\<exists>s'. spin_pop tpop fs s = Some (y, s') \<and> inv s' \<and> contents s' = ys"
  using tpop_item [OF assms] by (cases fs) auto

end

locale bounded_fifo = fifo_rep inv contents capacity tpush tpop
  for inv :: "'s \<Rightarrow> bool" and contents :: "'s \<Rightarrow> 'a list" and capacity :: "'s \<Rightarrow> nat"
    and tpush :: "'a \<Rightarrow> 's \<Rightarrow> bool \<times> 's" and tpop :: "'s \<Rightarrow> 'a option \<times> 's" +
  fixes pushb :: "'a list \<Rightarrow> 's \<Rightarrow> nat \<times> 's"
    and popb :: "nat \<Rightarrow> 's \<Rightarrow> 'a list \<times> 's"
  assumes pushb_spec: "inv s \<Longrightarrow> length xs < 2 ^ 64 \<Longrightarrow> \<exists>n s'. pushb xs s = (n, s') \<and>
      queue_allows (capacity s) (PushBatch xs) (PushedN n) (contents s) (contents s') \<and> inv s' \<and> capacity s' = capacity s"
    and popb_spec: "inv s \<Longrightarrow> m < 2 ^ 64 \<Longrightarrow> \<exists>ys s'. popb m s = (ys, s') \<and>
      queue_allows (capacity s) (PopBatch m) (PoppedN ys) (contents s) (contents s') \<and> inv s' \<and> capacity s' = capacity s"
begin

lemma call_refines:
  assumes "inv s" "call_ok c"
  shows "\<exists>r s'. conduit_call tpush tpop pushb popb c s = (r, s') \<and>
    queue_allows (capacity s) c r (contents s) (contents s') \<and> inv s' \<and> capacity s' = capacity s"
proof (cases c)
  case (TryPush x)
  then show ?thesis by (cases rule: tpush_cases [OF assms(1), of x]) auto
next
  case TryPop
  then show ?thesis by (cases rule: tpop_cases [OF assms(1)]) auto
next
  case (PushBatch xs)
  with assms(2) have "length xs < 2 ^ 64" by (simp add: call_ok_def)
  then obtain n s' where "pushb xs s = (n, s')" "queue_allows (capacity s) (PushBatch xs) (PushedN n) (contents s) (contents s')"
      "inv s'" "capacity s' = capacity s"
    using pushb_spec [OF assms(1)] by blast
  with PushBatch show ?thesis by (simp del: queue_allows.simps)
next
  case (PopBatch m)
  with assms(2) have "m < 2 ^ 64" by (simp add: call_ok_def)
  then obtain ys s' where "popb m s = (ys, s')" "queue_allows (capacity s) (PopBatch m) (PoppedN ys) (contents s) (contents s')"
      "inv s'" "capacity s' = capacity s"
    using popb_spec [OF assms(1)] by blast
  with PopBatch show ?thesis by (simp del: queue_allows.simps)
qed

text \<open>The simulation of a whole session: every reply is one the abstract queue allows.\<close>

lemma session_refines:
  assumes "inv s" "\<And>c. c \<in> set cs \<Longrightarrow> call_ok c"
  shows "\<exists>rs s'. conduit_session tpush tpop pushb popb cs s = (rs, s') \<and>
    queue_trace (capacity s) cs rs (contents s) (contents s') \<and> inv s' \<and> capacity s' = capacity s"
  using assms
proof (induction cs arbitrary: s)
  case Nil
  then show ?case by simp
next
  case (Cons c cs)
  obtain r s1 where s1: "conduit_call tpush tpop pushb popb c s = (r, s1)"
      "queue_allows (capacity s) c r (contents s) (contents s1)" "inv s1" "capacity s1 = capacity s"
    using call_refines [OF Cons.prems(1), of c] Cons.prems(2) by auto
  obtain rs s2 where "conduit_session tpush tpop pushb popb cs s1 = (rs, s2)"
      "queue_trace (capacity s) cs rs (contents s1) (contents s2)" "inv s2" "capacity s2 = capacity s"
    using Cons.IH [of s1] Cons.prems(2) s1 by auto
  with s1 show ?case by auto
qed

end

end
