(* ===== verification/Ring_State.thy ===== *)
theory Ring_State
  imports Conduit_Spec
begin

section \<open>The state of a single-producer single-consumer ring\<close>

text \<open>
  \<^verbatim>\<open>spsc_conduit\<close> and \<^verbatim>\<open>spsc_ring_conduit\<close> declare the same members: the buffer, the
  producer's cursor with its published copy and its shadow of the consumer, the consumer's cursor
  with its published copy and its shadow of the producer, and the fault reporter. This theory
  holds that record, the invariant that ties the six cursors together, what moving one of the
  two cursors does to the queue the ring represents, and the block copies both classes use.
\<close>

record 'a ring_state =
  ring_buf :: "'a list"
  local_ingress :: u64
  physical_ingress :: u64
  cached_egress :: u64
  local_egress :: u64
  physical_egress :: u64
  cached_ingress :: u64
  arbiter_ptr :: u64
  fault_fn :: u64

definition ring_new :: "nat \<Rightarrow> 'a \<Rightarrow> 'a ring_state" where
  "ring_new cap d = \<lparr>ring_buf = replicate cap d, local_ingress = 0, physical_ingress = 0, cached_egress = 0,
     local_egress = 0, physical_egress = 0, cached_ingress = 0, arbiter_ptr = 0, fault_fn = 0\<rparr>"

definition ring_cap :: "'a ring_state \<Rightarrow> nat" where
  "ring_cap s = length (ring_buf s)"

abbreviation ring_size :: "'a ring_state \<Rightarrow> u64" where
  "ring_size s \<equiv> of_nat (ring_cap s)"

definition ring_fill :: "'a ring_state \<Rightarrow> nat" where
  "ring_fill s = unat (local_ingress s - local_egress s)"

definition ring_contents :: "'a ring_state \<Rightarrow> 'a list" where
  "ring_contents s = cells (ring_buf s) (local_egress s) (ring_fill s)"

text \<open>
  The invariant: the published cursors are the local ones, no more items than slots, the
  producer's shadow of the consumer lags behind it by at most the free slots, and the consumer's
  shadow of the producer lies between the consumer and the producer.
\<close>

definition ring_wf :: "'a ring_state \<Rightarrow> bool" where
  "ring_wf s \<longleftrightarrow> pow2_cap (ring_cap s)
     \<and> physical_ingress s = local_ingress s \<and> physical_egress s = local_egress s
     \<and> ring_fill s \<le> unat (local_ingress s - cached_egress s)
     \<and> unat (local_ingress s - cached_egress s) \<le> ring_cap s
     \<and> unat (cached_ingress s - local_egress s) \<le> ring_fill s"

lemmas ring_defs = ring_wf_def ring_fill_def ring_contents_def ring_cap_def

lemma ring_wf_new: "pow2_cap cap \<Longrightarrow> ring_wf (ring_new cap d) \<and> ring_contents (ring_new cap d) = [] \<and> ring_cap (ring_new cap d) = cap"
  by (simp add: ring_new_def ring_defs)

lemma ring_wf_bounds:
  assumes "ring_wf s"
  shows "pow2_cap (ring_cap s)" "ring_fill s \<le> ring_cap s" "ring_cap s < 2 ^ 64" "0 < ring_cap s"
    "length (ring_contents s) = ring_fill s"
  using assms pow2_cap_less [of "ring_cap s"] pow2_cap_pos [of "ring_cap s"]
  by (simp_all add: ring_wf_def ring_contents_def)

lemma unat_ring_size: "ring_wf s \<Longrightarrow> unat (ring_size s) = ring_cap s"
  using ring_wf_bounds(3) [of s] by (simp add: unat_of_nat take_bit_nat_def)

lemma ring_size_le: "ring_wf s \<Longrightarrow> (ring_size s \<le> w) = (ring_cap s \<le> unat w)"
  by (simp add: word_le_nat_alt unat_ring_size)

text \<open>Refreshing a shadow cursor keeps the ring and makes the shadow exact.\<close>

lemma ring_refresh_egress:
  assumes "ring_wf s"
  shows "ring_wf (s\<lparr>cached_egress := physical_egress s\<rparr>)"
    "ring_contents (s\<lparr>cached_egress := physical_egress s\<rparr>) = ring_contents s"
    "ring_cap (s\<lparr>cached_egress := physical_egress s\<rparr>) = ring_cap s"
    "unat (local_ingress s - physical_egress s) = ring_fill s"
  using assms by (auto simp: ring_defs)

lemma ring_refresh_ingress:
  assumes "ring_wf s"
  shows "ring_wf (s\<lparr>cached_ingress := physical_ingress s\<rparr>)"
    "ring_contents (s\<lparr>cached_ingress := physical_ingress s\<rparr>) = ring_contents s"
    "ring_cap (s\<lparr>cached_ingress := physical_ingress s\<rparr>) = ring_cap s"
    "unat (physical_ingress s - local_egress s) = ring_fill s"
  using assms by (auto simp: ring_defs)

text \<open>Publishing \<open>n\<close> slots: the items in them join the queue.\<close>

lemma ring_publish:
  assumes wf: "ring_wf s" and n: "n \<le> ring_cap s - unat (local_ingress s - cached_egress s)"
    and len: "length buf = ring_cap s" and keep: "cells buf (local_egress s) (ring_fill s) = ring_contents s"
    and s': "s' = s\<lparr>ring_buf := buf, local_ingress := local_ingress s + of_nat n, physical_ingress := local_ingress s + of_nat n\<rparr>"
  shows "ring_wf s'" "ring_contents s' = ring_contents s @ cells buf (local_ingress s) n" "ring_cap s' = ring_cap s"
    "ring_fill s' = ring_fill s + n"
proof -
  note b = ring_wf_bounds [OF wf]
  have d: "unat (local_ingress s - cached_egress s + of_nat n) = unat (local_ingress s - cached_egress s) + n"
    using n b wf by (intro unat_add_of_nat) (auto simp: ring_wf_def)
  have e: "unat (local_ingress s - local_egress s + of_nat n) = ring_fill s + n"
    unfolding ring_fill_def using n b wf by (intro unat_add_of_nat) (auto simp: ring_wf_def ring_fill_def)
  have d': "unat (local_ingress s + of_nat n - cached_egress s) = unat (local_ingress s - cached_egress s) + n"
    using d by (simp add: algebra_simps)
  have e': "unat (local_ingress s + of_nat n - local_egress s) = ring_fill s + n"
    using e by (simp add: algebra_simps)
  show fill: "ring_fill s' = ring_fill s + n" using e' by (simp add: s' ring_fill_def)
  show cap: "ring_cap s' = ring_cap s" using len by (simp add: s' ring_cap_def)
  show "ring_wf s'"
    using wf d' e' n cap fill by (auto simp: ring_wf_def s')
  have "local_egress s + of_nat (ring_fill s) = local_ingress s" by (simp add: ring_fill_def)
  then show "ring_contents s' = ring_contents s @ cells buf (local_ingress s) n"
    using keep fill by (simp add: ring_contents_def s' cells_append)
qed

text \<open>Retiring \<open>n\<close> slots: the oldest items leave the queue.\<close>

lemma ring_retire:
  assumes wf: "ring_wf s" and n: "n \<le> unat (cached_ingress s - local_egress s)"
    and s': "s' = s\<lparr>local_egress := local_egress s + of_nat n, physical_egress := local_egress s + of_nat n\<rparr>"
  shows "ring_wf s'" "ring_contents s' = drop n (ring_contents s)" "ring_cap s' = ring_cap s"
proof -
  have nf: "n \<le> ring_fill s" using wf n by (simp add: ring_wf_def)
  have e: "unat (local_ingress s - local_egress s - of_nat n) = ring_fill s - n"
    unfolding ring_fill_def using nf by (intro unat_sub_of_nat) (simp add: ring_fill_def)
  have c: "unat (cached_ingress s - local_egress s - of_nat n) = unat (cached_ingress s - local_egress s) - n"
    using n by (intro unat_sub_of_nat)
  have e': "unat (local_ingress s - (local_egress s + of_nat n)) = ring_fill s - n"
    using e by (simp add: diff_diff_eq)
  have c': "unat (cached_ingress s - (local_egress s + of_nat n)) = unat (cached_ingress s - local_egress s) - n"
    using c by (simp add: diff_diff_eq)
  have fill: "ring_fill s' = ring_fill s - n" using e' by (simp add: s' ring_fill_def)
  show cap: "ring_cap s' = ring_cap s" by (simp add: s' ring_cap_def)
  show "ring_wf s'" using wf c' fill cap n by (auto simp: ring_wf_def s')
  have "cells (ring_buf s) (local_egress s) (ring_fill s) =
      cells (ring_buf s) (local_egress s) n @ cells (ring_buf s) (local_egress s + of_nat n) (ring_fill s - n)"
    using cells_append [of "ring_buf s" "local_egress s" n "ring_fill s - n"] nf by simp
  then show "ring_contents s' = drop n (ring_contents s)"
    using fill by (simp add: ring_contents_def s')
qed

text \<open>
  The guards of both classes: the producer reads the consumer's published cursor only when its
  shadow says the ring is full, the consumer the producer's only when its shadow says it is empty.
\<close>

definition refresh_egress :: "'a ring_state \<Rightarrow> 'a ring_state" where
  "refresh_egress s = (if local_ingress s - cached_egress s \<ge> ring_size s
     then s\<lparr>cached_egress := physical_egress s\<rparr> else s)"

definition refresh_ingress :: "'a ring_state \<Rightarrow> 'a ring_state" where
  "refresh_ingress s = (if local_egress s = cached_ingress s
     then s\<lparr>cached_ingress := physical_ingress s\<rparr> else s)"

lemma refresh_egress_keeps:
  assumes "ring_wf s"
  shows "ring_wf (refresh_egress s)" "ring_contents (refresh_egress s) = ring_contents s"
    "ring_cap (refresh_egress s) = ring_cap s" "local_ingress (refresh_egress s) = local_ingress s"
    "ring_fill (refresh_egress s) = ring_fill s"
  using assms ring_refresh_egress [OF assms] by (simp_all add: refresh_egress_def ring_fill_def)

lemma refresh_egress_room:
  assumes "ring_wf s"
  shows "unat (local_ingress s - cached_egress (refresh_egress s)) < ring_cap s \<longleftrightarrow> ring_fill s < ring_cap s"
proof (cases "ring_size s \<le> local_ingress s - cached_egress s")
  case True
  then show ?thesis using ring_refresh_egress(4) [OF assms] by (simp add: refresh_egress_def)
next
  case False
  then have "unat (local_ingress s - cached_egress s) < ring_cap s" by (simp add: ring_size_le [OF assms])
  then show ?thesis using False assms by (simp add: refresh_egress_def ring_wf_def)
qed

lemma refresh_egress_full:
  assumes "ring_wf s"
  shows "ring_size s \<le> local_ingress s - cached_egress (refresh_egress s) \<longleftrightarrow> ring_fill s = ring_cap s"
  unfolding ring_size_le [OF assms] using refresh_egress_room [OF assms] ring_wf_bounds(2) [OF assms] by linarith

lemmas refresh_egress = refresh_egress_keeps refresh_egress_full refresh_egress_room

lemma refresh_ingress_keeps:
  assumes "ring_wf s"
  shows "ring_wf (refresh_ingress s)" "ring_contents (refresh_ingress s) = ring_contents s"
    "ring_cap (refresh_ingress s) = ring_cap s" "local_egress (refresh_ingress s) = local_egress s"
    "ring_fill (refresh_ingress s) = ring_fill s"
  using assms ring_refresh_ingress [OF assms] by (simp_all add: refresh_ingress_def ring_fill_def)

lemma refresh_ingress_empty:
  assumes "ring_wf s"
  shows "local_egress s = cached_ingress (refresh_ingress s) \<longleftrightarrow> ring_fill s = 0"
proof (cases "local_egress s = cached_ingress s")
  case True
  then have "cached_ingress (refresh_ingress s) = local_ingress s"
    using assms by (simp add: refresh_ingress_def ring_wf_def)
  then show ?thesis by (auto simp: ring_fill_def unat_zero_iff)
next
  case False
  then have "unat (cached_ingress s - local_egress s) \<noteq> 0" by (metis unat_zero_iff)
  then have "ring_fill s \<noteq> 0" using assms by (simp add: ring_wf_def)
  with False show ?thesis by (simp add: refresh_ingress_def)
qed

lemmas refresh_ingress = refresh_ingress_keeps refresh_ingress_empty

text \<open>Writing one item at the ingress slot and publishing it; retiring one item.\<close>

definition ring_store :: "'a \<Rightarrow> 'a ring_state \<Rightarrow> 'a ring_state" where
  "ring_store x s = s\<lparr>ring_buf := (ring_buf s)[slot (ring_cap s) (local_ingress s) := x],
     local_ingress := local_ingress s + 1, physical_ingress := local_ingress s + 1\<rparr>"

lemma ring_keep_write:
  assumes "ring_wf s" "ring_fill s < ring_cap s"
  shows "cells ((ring_buf s)[slot (ring_cap s) (local_ingress s) := x]) (local_egress s) (ring_fill s) = ring_contents s"
proof -
  have "local_ingress s = local_egress s + of_nat (ring_fill s)" by (simp add: ring_fill_def)
  then show ?thesis
    using cells_write [of "ring_buf s" "ring_fill s" "ring_fill s" "local_egress s" x] assms ring_wf_bounds [OF assms(1)]
    by (simp add: ring_contents_def ring_cap_def)
qed

lemma ring_store:
  assumes "ring_wf s" "unat (local_ingress s - cached_egress s) < ring_cap s"
  shows "ring_wf (ring_store x s)" "ring_contents (ring_store x s) = ring_contents s @ [x]" "ring_cap (ring_store x s) = ring_cap s"
proof -
  let ?buf = "(ring_buf s)[slot (ring_cap s) (local_ingress s) := x]"
  have f: "ring_fill s < ring_cap s" using assms by (auto simp: ring_wf_def)
  have c: "cells ?buf (local_ingress s) 1 = [x]"
    using slot_less [OF ring_wf_bounds(1) [OF assms(1)], of "local_ingress s"] by (simp add: cells_def ring_cap_def)
  have n: "1 \<le> ring_cap s - unat (local_ingress s - cached_egress s)" using assms(2) by simp
  have l: "length ?buf = ring_cap s" by (simp add: ring_cap_def)
  have e: "ring_store x s = s\<lparr>ring_buf := ?buf, local_ingress := local_ingress s + of_nat 1, physical_ingress := local_ingress s + of_nat 1\<rparr>"
    by (simp add: ring_store_def)
  show "ring_wf (ring_store x s)" "ring_contents (ring_store x s) = ring_contents s @ [x]" "ring_cap (ring_store x s) = ring_cap s"
    using ring_publish [OF assms(1) n l ring_keep_write [OF assms(1) f] e] c by simp_all
qed

definition ring_take :: "'a ring_state \<Rightarrow> 'a ring_state" where
  "ring_take s = s\<lparr>local_egress := local_egress s + 1, physical_egress := local_egress s + 1\<rparr>"

lemma ring_take:
  assumes "ring_wf s" "local_egress s \<noteq> cached_ingress s"
  shows "ring_wf (ring_take s)" "ring_contents s = ring_buf s ! slot (ring_cap s) (local_egress s) # ring_contents (ring_take s)"
    "ring_cap (ring_take s) = ring_cap s"
proof -
  have n: "1 \<le> unat (cached_ingress s - local_egress s)"
    using assms(2) unat_zero_iff [of "cached_ingress s" "local_egress s"] by (metis less_one not_le)
  have e: "ring_take s = s\<lparr>local_egress := local_egress s + of_nat 1, physical_egress := local_egress s + of_nat 1\<rparr>"
    by (simp add: ring_take_def)
  note r = ring_retire [OF assms(1) n e]
  show "ring_wf (ring_take s)" "ring_cap (ring_take s) = ring_cap s" using r by simp_all
  have "0 < ring_fill s" using n assms(1) by (simp add: ring_wf_def)
  then have "ring_contents s = ring_buf s ! slot (ring_cap s) (local_egress s) # tl (ring_contents s)"
    by (simp add: ring_contents_def ring_cap_def cells_Cons)
  then show "ring_contents s = ring_buf s ! slot (ring_cap s) (local_egress s) # ring_contents (ring_take s)"
    using r(2) by (simp add: drop_Suc)
qed

subsection \<open>Block copies\<close>

text \<open>Copying \<open>n\<close> elements between two arrays: one vector load and store, or a \<^verbatim>\<open>memcpy\<close>.\<close>

definition blit :: "'a list \<Rightarrow> nat \<Rightarrow> 'a list \<Rightarrow> nat \<Rightarrow> nat \<Rightarrow> 'a list" where
  "blit dst di src si n = take di dst @ take n (drop si src) @ drop (di + n) dst"

lemma length_blit [simp]: "di + n \<le> length dst \<Longrightarrow> si + n \<le> length src \<Longrightarrow> length (blit dst di src si n) = length dst"
  by (simp add: blit_def)

lemma nth_blit:
  assumes "di + n \<le> length dst" "si + n \<le> length src" "j < length dst"
  shows "blit dst di src si n ! j = (if di \<le> j \<and> j < di + n then src ! (si + (j - di)) else dst ! j)"
proof -
  have n: "min (length src - si) n = n" using assms by simp
  consider "j < di" | "di \<le> j" "j < di + n" | "di + n \<le> j" by linarith
  then show ?thesis
  proof cases
    case 1
    with assms show ?thesis by (simp add: blit_def nth_append)
  next
    case 2
    then have "j - di < n" by simp
    with 2 assms n show ?thesis by (simp add: blit_def nth_append)
  next
    case 3
    then have "\<not> j - di < n" "\<not> j < di" by auto
    with 3 assms n show ?thesis by (simp add: blit_def nth_append)
  qed
qed

text \<open>The vector loop of width \<open>W\<close> (8 with AVX-512, 4 with AVX2, 0 without) and its scalar tail.\<close>

function scalar_copy :: "nat \<Rightarrow> nat \<Rightarrow> 'a list \<Rightarrow> nat \<Rightarrow> 'a list \<Rightarrow> nat \<Rightarrow> 'a list" where
  "scalar_copy n j dst di src si =
     (if j < n then scalar_copy n (j + 1) (dst[di + j := src ! (si + j)]) di src si else dst)"
  by pat_completeness auto
termination
  by (relation "measure (\<lambda>(n, j, _). n - j)") auto

function simd_copy :: "nat \<Rightarrow> nat \<Rightarrow> nat \<Rightarrow> 'a list \<Rightarrow> nat \<Rightarrow> 'a list \<Rightarrow> nat \<Rightarrow> 'a list" where
  "simd_copy W n j dst di src si =
     (if 0 < W \<and> j + W \<le> n then simd_copy W n (j + W) (blit dst (di + j) src (si + j) W) di src si
      else scalar_copy n j dst di src si)"
  by pat_completeness auto
termination
  by (relation "measure (\<lambda>(W, n, j, _). n - j)") auto

declare scalar_copy.simps [simp del] simd_copy.simps [simp del]

lemma blit_0 [simp]: "blit dst di src si 0 = dst"
  by (simp add: blit_def)

lemma blit_blit:
  assumes "di + k \<le> length dst" "si + k \<le> length src" "m \<le> k" "di' = di + m" "si' = si + m" "n = k - m"
  shows "blit (blit dst di src si m) di' src si' n = blit dst di src si k"
  using assms by (intro nth_equalityI) (auto simp: nth_blit)

lemma blit_1: "di < length dst \<Longrightarrow> si < length src \<Longrightarrow> dst[di := src ! si] = blit dst di src si 1"
  by (rule nth_equalityI) (auto simp: nth_blit nth_list_update)

lemma scalar_copy_blit:
  "j \<le> n \<Longrightarrow> di + n \<le> length dst \<Longrightarrow> si + n \<le> length src \<Longrightarrow>
   scalar_copy n j dst di src si = blit dst (di + j) src (si + j) (n - j)"
proof (induction n j dst di src si rule: scalar_copy.induct)
  case (1 n j dst di src si)
  show ?case
  proof (cases "j < n")
    case True
    with 1 have "scalar_copy n j dst di src si = blit (dst[di + j := src ! (si + j)]) (di + (j + 1)) src (si + (j + 1)) (n - (j + 1))"
      by (simp add: scalar_copy.simps [of n j])
    also have "dst[di + j := src ! (si + j)] = blit dst (di + j) src (si + j) 1"
      using True 1 by (intro blit_1) auto
    also have "blit \<dots> (di + (j + 1)) src (si + (j + 1)) (n - (j + 1)) = blit dst (di + j) src (si + j) (n - j)"
      using True 1 by (intro blit_blit) auto
    finally show ?thesis .
  next
    case False
    with 1 have "n = j" by simp
    then show ?thesis by (simp add: scalar_copy.simps [of j j])
  qed
qed

text \<open>The optimised copy is a plain copy, whatever the vector width.\<close>

lemma simd_copy_blit:
  "j \<le> n \<Longrightarrow> di + n \<le> length dst \<Longrightarrow> si + n \<le> length src \<Longrightarrow>
   simd_copy W n j dst di src si = blit dst (di + j) src (si + j) (n - j)"
proof (induction W n j dst di src si rule: simd_copy.induct)
  case (1 W n j dst di src si)
  show ?case
  proof (cases "0 < W \<and> j + W \<le> n")
    case True
    with 1 have "simd_copy W n j dst di src si = blit (blit dst (di + j) src (si + j) W) (di + (j + W)) src (si + (j + W)) (n - (j + W))"
      by (simp add: simd_copy.simps [of W n j])
    also have "\<dots> = blit dst (di + j) src (si + j) (n - j)"
      using True 1 by (intro blit_blit) auto
    finally show ?thesis .
  next
    case False
    then have "simd_copy W n j dst di src si = scalar_copy n j dst di src si"
      by (subst simd_copy.simps) auto
    with 1 show ?thesis by (simp add: scalar_copy_blit)
  qed
qed

subsection \<open>Block scans\<close>

text \<open>Applying a lane-wise operation to the elements of an index range.\<close>

definition map_range :: "('a \<Rightarrow> 'a) \<Rightarrow> nat \<Rightarrow> nat \<Rightarrow> 'a list \<Rightarrow> 'a list" where
  "map_range f lo hi buf = take lo buf @ map f (take (hi - lo) (drop lo buf)) @ drop (max lo hi) buf"

lemma length_map_range [simp]: "hi \<le> length buf \<Longrightarrow> length (map_range f lo hi buf) = length buf"
  by (auto simp: map_range_def max_def min_def)

lemma nth_map_range:
  assumes "hi \<le> length buf" "j < length buf"
  shows "map_range f lo hi buf ! j = (if lo \<le> j \<and> j < hi then f (buf ! j) else buf ! j)"
proof -
  consider "j < lo" | "lo \<le> j" "j < hi" | "lo \<le> j" "hi \<le> j" by linarith
  then show ?thesis
  proof cases
    case 1
    with assms show ?thesis by (simp add: map_range_def nth_append)
  next
    case 2
    then have "j - lo < hi - lo" "j - lo < length buf - lo" using assms by auto
    with 2 assms show ?thesis by (simp add: map_range_def nth_append)
  next
    case 3
    then have "\<not> j < lo" "\<not> j - lo < hi - lo" by auto
    with 3 assms show ?thesis by (auto simp: map_range_def nth_append min_def max_def)
  qed
qed

function scalar_scan :: "('a \<Rightarrow> 'a) \<Rightarrow> nat \<Rightarrow> nat \<Rightarrow> 'a list \<Rightarrow> 'a list" where
  "scalar_scan f i end_idx buf =
     (if i < end_idx then scalar_scan f (i + 1) end_idx (buf[i := f (buf ! i)]) else buf)"
  by pat_completeness auto
termination
  by (relation "measure (\<lambda>(f, i, e, _). e - i)") auto

function simd_scan :: "nat \<Rightarrow> ('a \<Rightarrow> 'a) \<Rightarrow> nat \<Rightarrow> nat \<Rightarrow> 'a list \<Rightarrow> 'a list" where
  "simd_scan W f i end_idx buf =
     (if 0 < W \<and> i + W \<le> end_idx then simd_scan W f (i + W) end_idx (map_range f i (i + W) buf)
      else scalar_scan f i end_idx buf)"
  by pat_completeness auto
termination
  by (relation "measure (\<lambda>(W, f, i, e, _). e - i)") auto

declare scalar_scan.simps [simp del] simd_scan.simps [simp del]

lemma map_range_map_range:
  assumes "lo \<le> mid" "mid \<le> hi" "hi \<le> length buf"
  shows "map_range f mid hi (map_range f lo mid buf) = map_range f lo hi buf"
  using assms by (intro nth_equalityI) (auto simp: nth_map_range)

lemma scalar_scan_map_range: "hi \<le> length buf \<Longrightarrow> scalar_scan f i hi buf = map_range f i hi buf"
proof (induction f i hi buf rule: scalar_scan.induct)
  case (1 f i hi buf)
  show ?case
  proof (cases "i < hi")
    case True
    with 1 have "scalar_scan f i hi buf = map_range f (i + 1) hi (buf[i := f (buf ! i)])"
      by (simp add: scalar_scan.simps [of f i])
    also have "buf[i := f (buf ! i)] = map_range f i (i + 1) buf"
      using True "1.prems" by (intro nth_equalityI) (auto simp: nth_map_range nth_list_update)
    also have "map_range f (i + 1) hi (map_range f i (i + 1) buf) = map_range f i hi buf"
      using True "1.prems" by (intro map_range_map_range) auto
    finally show ?thesis .
  next
    case False
    then have "scalar_scan f i hi buf = buf" by (subst scalar_scan.simps) simp
    with False show ?thesis by (simp add: map_range_def max_def)
  qed
qed

text \<open>The optimised scan touches exactly the range, lane by lane, whatever the vector width.\<close>

lemma simd_scan_map_range: "hi \<le> length buf \<Longrightarrow> simd_scan W f i hi buf = map_range f i hi buf"
proof (induction W f i hi buf rule: simd_scan.induct)
  case (1 W f i hi buf)
  show ?case
  proof (cases "0 < W \<and> i + W \<le> hi")
    case True
    with 1 have "simd_scan W f i hi buf = map_range f (i + W) hi (map_range f i (i + W) buf)"
      by (simp add: simd_scan.simps [of W f i])
    with True 1 show ?thesis by (simp add: map_range_map_range)
  next
    case False
    then have "simd_scan W f i hi buf = scalar_scan f i hi buf" by (subst simd_scan.simps) auto
    with 1 show ?thesis by (simp add: scalar_scan_map_range)
  qed
qed

subsection \<open>Where the live slots are\<close>

lemma slot_offset:
  assumes "pow2_cap cap" "i \<le> cap"
  shows "slot cap (w + of_nat i) = (if slot cap w + i < cap then slot cap w + i else slot cap w + i - cap)"
proof -
  have lt: "slot cap w < cap" using assms(1) by (rule slot_less)
  have "slot cap (w + of_nat i) = (slot cap w + i) mod cap"
    unfolding slot_add [OF assms(1)] slot_mod [OF assms(1), of w] by (simp add: mod_simps)
  moreover have "(slot cap w + i) mod cap = slot cap w + i - cap" if "\<not> slot cap w + i < cap"
    using that lt assms(2) by (simp add: mod_if)
  ultimately show ?thesis by simp
qed

text \<open>
  The items of a ring sit in the slots from the egress slot upwards, or wrap around: then they
  are in the slots from the egress slot to the end and from 0 to below the ingress slot.
\<close>

lemma live_slot:
  assumes "pow2_cap cap" "n \<le> cap" "i < n"
  shows "if slot cap w < slot cap (w + of_nat n)
     then slot cap w \<le> slot cap (w + of_nat i) \<and> slot cap (w + of_nat i) < slot cap (w + of_nat n)
     else slot cap w \<le> slot cap (w + of_nat i) \<or> slot cap (w + of_nat i) < slot cap (w + of_nat n)"
  using assms slot_less [OF assms(1), of w] by (auto simp: slot_offset)

lemma ring_contents_map:
  assumes "ring_wf s" "length buf = ring_cap s"
    and "\<And>i. i < ring_fill s \<Longrightarrow> buf ! slot (ring_cap s) (local_egress s + of_nat i) =
      g (ring_buf s ! slot (ring_cap s) (local_egress s + of_nat i))"
  shows "ring_contents (s\<lparr>ring_buf := buf\<rparr>) = map g (ring_contents s)"
  using assms by (intro nth_equalityI) (auto simp: ring_contents_def ring_fill_def ring_cap_def)

lemma ring_wf_buf: "ring_wf s \<Longrightarrow> length buf = ring_cap s \<Longrightarrow> ring_wf (s\<lparr>ring_buf := buf\<rparr>)"
  by (simp add: ring_wf_def ring_fill_def ring_cap_def)

subsection \<open>Copies that wrap around the end of the ring\<close>

text \<open>A batch is written in one piece, or in two where it reaches the end of the buffer.\<close>

definition wrap_write :: "'a list \<Rightarrow> nat \<Rightarrow> nat \<Rightarrow> 'a list \<Rightarrow> 'a list" where
  "wrap_write buf t n xs = (if t + n \<le> length buf then blit buf t xs 0 n
     else blit (blit buf t xs 0 (length buf - t)) 0 xs (length buf - t) (n - (length buf - t)))"

definition wrap_read :: "'a list \<Rightarrow> nat \<Rightarrow> nat \<Rightarrow> 'a list \<Rightarrow> 'a list" where
  "wrap_read buf t n out = (if t + n \<le> length buf then blit out 0 buf t n
     else blit (blit out 0 buf t (length buf - t)) (length buf - t) buf 0 (n - (length buf - t)))"

lemma length_wrap_write [simp]:
  "t < length buf \<Longrightarrow> n \<le> length buf \<Longrightarrow> n \<le> length xs \<Longrightarrow> length (wrap_write buf t n xs) = length buf"
  by (auto simp: wrap_write_def)

lemma wrap_write_nth:
  assumes c: "pow2_cap (length buf)" and n: "n \<le> length buf" "n \<le> length xs" and i: "i < length buf"
  shows "wrap_write buf (slot (length buf) w) n xs ! slot (length buf) (w + of_nat i) =
    (if i < n then xs ! i else buf ! slot (length buf) (w + of_nat i))"
proof -
  let ?c = "length buf" and ?t = "slot (length buf) w"
  have t: "?t < ?c" using c by (rule slot_less)
  have si: "slot ?c (w + of_nat i) = (if ?t + i < ?c then ?t + i else ?t + i - ?c)"
    using slot_offset [OF c, of i w] i by simp
  have lt: "slot ?c (w + of_nat i) < ?c" using c by (rule slot_less)
  show ?thesis
  proof (cases "?t + n \<le> ?c")
    case True
    then show ?thesis using n i t lt by (auto simp: wrap_write_def nth_blit si)
  next
    case False
    then show ?thesis using n i t lt by (auto simp: wrap_write_def nth_blit si)
  qed
qed

lemma wrap_write_cells:
  assumes "pow2_cap (length buf)" "n \<le> length buf" "n \<le> length xs"
  shows "cells (wrap_write buf (slot (length buf) w) n xs) w n = take n xs"
proof (rule nth_equalityI)
  have t: "slot (length buf) w < length buf" using assms(1) by (rule slot_less)
  fix i assume "i < length (cells (wrap_write buf (slot (length buf) w) n xs) w n)"
  then have "i < n" by simp
  then show "cells (wrap_write buf (slot (length buf) w) n xs) w n ! i = take n xs ! i"
    using assms t by (simp add: wrap_write_nth)
qed (use assms in simp)

lemma slot_plus_cap: "pow2_cap cap \<Longrightarrow> slot cap (w + of_nat i + of_nat cap) = slot cap (w + of_nat i)"
proof -
  assume c: "pow2_cap cap"
  have "slot cap (w + of_nat i + of_nat cap) = (unat w + (i + cap)) mod cap"
    using slot_add [OF c, of w "i + cap"] by (simp add: add.assoc)
  also have "\<dots> = (unat w + i) mod cap" by (simp flip: add.assoc)
  finally show ?thesis by (simp add: slot_add [OF c])
qed

text \<open>The items before the batch keep their slots, as long as the batch fits beside them.\<close>

lemma wrap_write_keeps:
  assumes c: "pow2_cap (length buf)" and n: "n \<le> length buf - m" "n \<le> length xs" and m: "m \<le> length buf"
  shows "cells (wrap_write buf (slot (length buf) (w + of_nat m)) n xs) w m = cells buf w m"
proof (rule nth_equalityI)
  let ?c = "length buf"
  have t: "slot ?c (w + of_nat m) < ?c" using c by (rule slot_less)
  fix j assume "j < length (cells (wrap_write buf (slot ?c (w + of_nat m)) n xs) w m)"
  then have j: "j < m" by simp
  define i where "i = ?c - m + j"
  have i: "i < ?c" "\<not> i < n" using j m n by (auto simp: i_def)
  have "(of_nat m + of_nat i :: u64) = of_nat (m + i)" by simp
  also have "m + i = j + ?c" using m by (simp add: i_def)
  finally have "w + of_nat m + of_nat i = w + of_nat j + of_nat ?c" by (simp add: add.assoc)
  then have "slot ?c (w + of_nat m + of_nat i) = slot ?c (w + of_nat j)"
    by (simp only: slot_plus_cap [OF c])
  then have "wrap_write buf (slot ?c (w + of_nat m)) n xs ! slot ?c (w + of_nat j) = buf ! slot ?c (w + of_nat j)"
    using wrap_write_nth [OF c, of n xs i "w + of_nat m"] i n by simp
  with j n t show "cells (wrap_write buf (slot ?c (w + of_nat m)) n xs) w m ! j = cells buf w m ! j" by simp
qed simp

lemma wrap_read_cells:
  assumes c: "pow2_cap (length buf)" and n: "n \<le> length buf" "n \<le> length out"
  shows "wrap_read buf (slot (length buf) w) n out = cells buf w n @ drop n out"
proof (rule nth_equalityI)
  let ?c = "length buf" and ?t = "slot (length buf) w"
  have t: "?t < ?c" using c by (rule slot_less)
  have len: "length (wrap_read buf ?t n out) = length out"
    using n t by (auto simp: wrap_read_def)
  then show "length (wrap_read buf ?t n out) = length (cells buf w n @ drop n out)" using n by simp
  fix i assume "i < length (wrap_read buf ?t n out)"
  then have i: "i < length out" using len by simp
  show "wrap_read buf ?t n out ! i = (cells buf w n @ drop n out) ! i"
  proof (cases "i < n")
    case True
    then have si: "slot ?c (w + of_nat i) = (if ?t + i < ?c then ?t + i else ?t + i - ?c)"
      using slot_offset [OF c, of i w] n by simp
    have "wrap_read buf ?t n out ! i = buf ! slot ?c (w + of_nat i)"
      using True n i t by (auto simp: wrap_read_def nth_blit si add.commute)
    with True show ?thesis by (simp add: nth_append)
  next
    case False
    with n i t show ?thesis by (auto simp: wrap_read_def nth_blit nth_append)
  qed
qed

end
