(* ===== verification/Spsc_Conduit.thy ===== *)
theory Spsc_Conduit
  imports Ring_State
begin

section \<open>\<^verbatim>\<open>core/spsc_conduit.hpp\<close>: the POD single-producer single-consumer conduit\<close>

text \<open>
  One definition per member function of \<^verbatim>\<open>spsc_conduit<T, RequestedSize>\<close>, on the record
  \<open>ring_state\<close>. Cursors are 64-bit words that wrap, a slot is \<^verbatim>\<open>cursor & Mask\<close>; the
  prefetches have no effect on the state. The lemmas show that every operation keeps
  \<open>ring_wf\<close> and acts on \<open>ring_contents\<close> as the contract of \<open>Conduit_Spec\<close> says.
\<close>

subsection \<open>Construction\<close>

text \<open>\<^verbatim>\<open>Size = std::bit_ceil(std::max(RequestedSize, 2))\<close>.\<close>

definition sc_size :: "nat \<Rightarrow> nat" where
  "sc_size requested = bit_ceil (max requested 2)"

definition sc_new :: "nat \<Rightarrow> 'a \<Rightarrow> 'a ring_state" where
  "sc_new requested d = ring_new (sc_size requested) d"

definition sc_attach_fault_reporter :: "u64 \<Rightarrow> u64 \<Rightarrow> 'a ring_state \<Rightarrow> 'a ring_state" where
  "sc_attach_fault_reporter arbiter fn s = s\<lparr>arbiter_ptr := arbiter, fault_fn := fn\<rparr>"

text \<open>The call \<^verbatim>\<open>fault_fn_(arbiter_ptr_, 0xE62E55)\<close>, if a reporter is attached.\<close>

definition sc_on_conduit_full_drop :: "'a ring_state \<Rightarrow> (u64 \<times> u64 \<times> u32) option" where
  "sc_on_conduit_full_drop s =
     (if fault_fn s \<noteq> 0 then Some (fault_fn s, arbiter_ptr s, 0xE62E55) else None)"

subsection \<open>Producer side\<close>

definition sc_try_push :: "'a \<Rightarrow> 'a ring_state \<Rightarrow> bool \<times> 'a ring_state" where
  "sc_try_push item s =
     (let s1 = refresh_egress s
      in if local_ingress s1 - cached_egress s1 \<ge> ring_size s1 then (False, s1)
         else let s2 = s1\<lparr>ring_buf := (ring_buf s1)[slot (ring_cap s1) (local_ingress s1) := item]\<rparr>;
                  s3 = s2\<lparr>local_ingress := local_ingress s2 + 1\<rparr>
              in (True, s3\<lparr>physical_ingress := local_ingress s3\<rparr>))"

definition sc_on_raw_frame :: "'a \<Rightarrow> int \<Rightarrow> 'a ring_state \<Rightarrow> bool \<times> 'a ring_state" where
  "sc_on_raw_frame item res s = sc_try_push item s"

text \<open>\<^verbatim>\<open>try_push(T* item)\<close>: \<open>None\<close> is the null pointer.\<close>

definition sc_try_push_ptr :: "'a option \<Rightarrow> 'a ring_state \<Rightarrow> bool \<times> 'a ring_state" where
  "sc_try_push_ptr item s = (case item of None \<Rightarrow> (False, s) | Some x \<Rightarrow> sc_try_push x s)"

text \<open>
  \<^verbatim>\<open>try_push(managed_data&)\<close> on a conduit of pointers: on success the handle gives its
  pointer up. The handle is the pointer it owns, \<open>0\<close> when empty; \<^verbatim>\<open>release\<close> asserts that
  it is not empty, and \<open>None\<close> is that assertion failing.
\<close>

definition handle_release :: "u64 \<Rightarrow> (u64 \<times> u64) option" where
  "handle_release h = (if h = 0 then None else Some (h, 0))"

definition sc_try_push_managed :: "u64 \<Rightarrow> u64 ring_state \<Rightarrow> (bool \<times> u64 \<times> u64 ring_state) option" where
  "sc_try_push_managed item s =
     (let (ok, s') = sc_try_push item s
      in if ok then map_option (\<lambda>(_, h). (True, h, s')) (handle_release item)
         else Some (False, item, s'))"

definition sc_push :: "('a ring_state \<Rightarrow> 'a ring_state) list \<Rightarrow> 'a \<Rightarrow> 'a ring_state \<Rightarrow> 'a ring_state option" where
  "sc_push others item s = spin_push sc_try_push others item s"

text \<open>\<^verbatim>\<open>push(T* item)\<close>: the null pointer is refused, not waited for.\<close>

definition sc_push_ptr :: "('a ring_state \<Rightarrow> 'a ring_state) list \<Rightarrow> 'a option \<Rightarrow> 'a ring_state \<Rightarrow> (bool \<times> 'a ring_state) option" where
  "sc_push_ptr others item s =
     (if item = None then Some (False, s)
      else map_option (\<lambda>s'. (True, s')) (spin_push sc_try_push_ptr others item s))"

text \<open>
  \<^verbatim>\<open>push_batch\<close>: \<open>W\<close> is the vector width of the copy. Indices and counts are at most the
  capacity, so that their sums do not wrap and are written on naturals.
\<close>

definition sc_fill_range :: "nat \<Rightarrow> 'a list \<Rightarrow> 'a list \<Rightarrow> nat \<Rightarrow> nat \<Rightarrow> nat \<Rightarrow> 'a list" where
  "sc_fill_range W in_batch buf start n in_off = simd_copy W n 0 buf start in_batch in_off"

definition sc_fill_batch :: "nat \<Rightarrow> 'a list \<Rightarrow> 'a list \<Rightarrow> nat \<Rightarrow> nat \<Rightarrow> 'a list" where
  "sc_fill_batch W in_batch buf t_idx count =
     (if t_idx + count \<le> length buf then sc_fill_range W in_batch buf t_idx count 0
      else let first_part = length buf - t_idx
           in sc_fill_range W in_batch (sc_fill_range W in_batch buf t_idx first_part 0)
                0 (count - first_part) first_part)"

definition sc_push_batch :: "nat \<Rightarrow> 'a list \<Rightarrow> u64 \<Rightarrow> 'a ring_state \<Rightarrow> u64 \<times> 'a ring_state" where
  "sc_push_batch W in_batch max_count s =
     (let s1 = refresh_egress s
      in if local_ingress s1 - cached_egress s1 \<ge> ring_size s1 then (0, s1)
         else let available = ring_size s1 - (local_ingress s1 - cached_egress s1);
                  count = (if available < max_count then available else max_count);
                  t_idx = slot (ring_cap s1) (local_ingress s1);
                  buf = sc_fill_batch W in_batch (ring_buf s1) t_idx (unat count);
                  s2 = s1\<lparr>ring_buf := buf, local_ingress := local_ingress s1 + count\<rparr>
              in (count, s2\<lparr>physical_ingress := local_ingress s2\<rparr>))"

subsection \<open>Consumer side\<close>

definition sc_try_pop :: "'a ring_state \<Rightarrow> 'a option \<times> 'a ring_state" where
  "sc_try_pop s =
     (let s1 = refresh_ingress s
      in if local_egress s1 = cached_ingress s1 then (None, s1)
         else let out_item = ring_buf s1 ! slot (ring_cap s1) (local_egress s1);
                  s2 = s1\<lparr>local_egress := local_egress s1 + 1\<rparr>
              in (Some out_item, s2\<lparr>physical_egress := local_egress s2\<rparr>))"

text \<open>\<^verbatim>\<open>try_pop(Pool&)\<close>: an empty handle when the conduit is empty.\<close>

definition sc_try_pop_managed :: "u64 ring_state \<Rightarrow> u64 \<times> u64 ring_state" where
  "sc_try_pop_managed s = (let (v, s') = sc_try_pop s in (case v of Some raw \<Rightarrow> raw | None \<Rightarrow> 0, s'))"

text \<open>\<^verbatim>\<open>peek\<close> gives the address of the slot: here its index.\<close>

definition sc_peek :: "'a ring_state \<Rightarrow> nat option \<times> 'a ring_state" where
  "sc_peek s =
     (let s1 = refresh_ingress s
      in if local_egress s1 = cached_ingress s1 then (None, s1)
         else (Some (slot (ring_cap s1) (local_egress s1)), s1))"

definition sc_consume :: "'a ring_state \<Rightarrow> 'a ring_state" where
  "sc_consume s = (let s1 = s\<lparr>local_egress := local_egress s + 1\<rparr> in s1\<lparr>physical_egress := local_egress s1\<rparr>)"

definition sc_pop :: "('a ring_state \<Rightarrow> 'a ring_state) list \<Rightarrow> 'a ring_state \<Rightarrow> ('a \<times> 'a ring_state) option" where
  "sc_pop others s = spin_pop sc_try_pop others s"

definition sc_pop_managed :: "(u64 ring_state \<Rightarrow> u64 ring_state) list \<Rightarrow> u64 ring_state \<Rightarrow> (u64 \<times> u64 ring_state) option" where
  "sc_pop_managed others s = sc_pop others s"

definition sc_move_range :: "nat \<Rightarrow> 'a list \<Rightarrow> 'a list \<Rightarrow> nat \<Rightarrow> nat \<Rightarrow> nat \<Rightarrow> 'a list" where
  "sc_move_range W buf out_batch start_idx n out_offset = simd_copy W n 0 out_batch out_offset buf start_idx"

definition sc_move_batch :: "nat \<Rightarrow> 'a list \<Rightarrow> 'a list \<Rightarrow> nat \<Rightarrow> nat \<Rightarrow> 'a list" where
  "sc_move_batch W buf out_batch t_idx count =
     (if t_idx + count \<le> length buf then sc_move_range W buf out_batch t_idx count 0
      else let first_part = length buf - t_idx
           in sc_move_range W buf (sc_move_range W buf out_batch t_idx first_part 0)
                0 (count - first_part) first_part)"

definition sc_pop_batch :: "nat \<Rightarrow> 'a list \<Rightarrow> u64 \<Rightarrow> 'a ring_state \<Rightarrow> u64 \<times> 'a list \<times> 'a ring_state" where
  "sc_pop_batch W out_batch max_count s =
     (let s1 = refresh_ingress s
      in if local_egress s1 = cached_ingress s1 then (0, out_batch, s1)
         else let available = cached_ingress s1 - local_egress s1;
                  count = (if available < max_count then available else max_count);
                  t_idx = slot (ring_cap s1) (local_egress s1);
                  out = sc_move_batch W (ring_buf s1) out_batch t_idx (unat count);
                  s2 = s1\<lparr>local_egress := local_egress s1 + count\<rparr>
              in (count, out, s2\<lparr>physical_egress := local_egress s2\<rparr>))"

subsection \<open>Recovery and monitoring\<close>

text \<open>\<^verbatim>\<open>revert_batch\<close>: the loop steps the head back and writes the batch from its end.\<close>

fun sc_revert_loop :: "'a list \<Rightarrow> nat \<Rightarrow> 'a ring_state \<Rightarrow> 'a ring_state" where
  "sc_revert_loop batch 0 s = s"
| "sc_revert_loop batch (Suc k) s =
     (let s1 = s\<lparr>local_egress := local_egress s - 1\<rparr>
      in sc_revert_loop batch k
           (s1\<lparr>ring_buf := (ring_buf s1)[slot (ring_cap s1) (local_egress s1) := batch ! k]\<rparr>))"

definition sc_revert_batch :: "'a list \<Rightarrow> 'a ring_state \<Rightarrow> 'a ring_state" where
  "sc_revert_batch batch s =
     (if batch = [] then s
      else let s1 = sc_revert_loop batch (length batch) s in s1\<lparr>physical_egress := local_egress s1\<rparr>)"

text \<open>\<^verbatim>\<open>invalidate_by_ptr\<close>: \<open>d\<close> is the value \<^verbatim>\<open>T{}\<close>, \<open>W\<close> the vector width (0 for the scalar scan).\<close>

definition sc_invalidate_by_ptr :: "nat \<Rightarrow> 'a \<Rightarrow> 'a \<Rightarrow> 'a ring_state \<Rightarrow> 'a ring_state" where
  "sc_invalidate_by_ptr W d target s =
     (let h = physical_ingress s; t = physical_egress s
      in if h = t then s
         else let h_idx = slot (ring_cap s) h; t_idx = slot (ring_cap s) t;
                  f = (\<lambda>x. if x = target then d else x)
              in if h_idx < t_idx then s\<lparr>ring_buf := simd_scan W f h_idx t_idx (ring_buf s)\<rparr>
                 else s\<lparr>ring_buf := simd_scan W f 0 t_idx (simd_scan W f t_idx (ring_cap s) (ring_buf s))\<rparr>)"

definition sc_occupancy :: "'a ring_state \<Rightarrow> u64" where
  "sc_occupancy s = physical_ingress s - physical_egress s"

definition sc_approx_size :: "'a ring_state \<Rightarrow> u64" where
  "sc_approx_size s = sc_occupancy s"

subsection \<open>Every operation keeps the ring well formed and acts on the queue\<close>

lemma sc_size_cap: "requested \<le> 2 ^ 63 \<Longrightarrow> pow2_cap (sc_size requested) \<and> requested \<le> sc_size requested"
  using bit_ceil_cap [of "max requested 2"] bit_ceil_ge [of "max requested 2"] by (auto simp: sc_size_def)

lemma sc_new_wf: "requested \<le> 2 ^ 63 \<Longrightarrow> ring_wf (sc_new requested d) \<and> ring_contents (sc_new requested d) = []
    \<and> ring_cap (sc_new requested d) = sc_size requested"
  using sc_size_cap [of requested] ring_wf_new [of "sc_size requested" d] by (auto simp: sc_new_def)

lemma sc_try_push_full:
  assumes "ring_wf s" "length (ring_contents s) = ring_cap s"
  shows "\<exists>s'. sc_try_push x s = (False, s') \<and> ring_wf s' \<and> ring_contents s' = ring_contents s \<and> ring_cap s' = ring_cap s"
  using refresh_egress [OF assms(1)] assms by (auto simp: sc_try_push_def ring_wf_bounds(5))

lemma sc_try_push_room:
  assumes "ring_wf s" "length (ring_contents s) < ring_cap s"
  shows "\<exists>s'. sc_try_push x s = (True, s') \<and> ring_wf s' \<and> ring_contents s' = ring_contents s @ [x] \<and> ring_cap s' = ring_cap s"
proof -
  note r = refresh_egress [OF assms(1)]
  let ?s1 = "refresh_egress s"
  have room: "unat (local_ingress ?s1 - cached_egress ?s1) < ring_cap ?s1"
    using r assms by (simp add: ring_wf_bounds(5))
  have "\<not> ring_size ?s1 \<le> local_ingress ?s1 - cached_egress ?s1"
    using room by (simp add: ring_size_le [OF r(1)])
  then have "sc_try_push x s = (True, ring_store x ?s1)"
    by (simp add: sc_try_push_def ring_store_def Let_def)
  with ring_store [OF r(1) room, of x] r show ?thesis by simp
qed

lemma sc_try_pop_empty:
  assumes "ring_wf s" "ring_contents s = []"
  shows "\<exists>s'. sc_try_pop s = (None, s') \<and> ring_wf s' \<and> ring_contents s' = [] \<and> ring_cap s' = ring_cap s"
proof -
  have "ring_fill s = 0" using assms ring_wf_bounds(5) [OF assms(1)] by simp
  with refresh_ingress [OF assms(1)] assms show ?thesis by (simp add: sc_try_pop_def Let_def)
qed

lemma sc_try_pop_item:
  assumes "ring_wf s" "ring_contents s = y # ys"
  shows "\<exists>s'. sc_try_pop s = (Some y, s') \<and> ring_wf s' \<and> ring_contents s' = ys \<and> ring_cap s' = ring_cap s"
proof -
  note r = refresh_ingress [OF assms(1)]
  let ?s1 = "refresh_ingress s"
  have "ring_fill s \<noteq> 0" using assms ring_wf_bounds(5) [OF assms(1)] by auto
  then have ne: "local_egress ?s1 \<noteq> cached_ingress ?s1" using r by simp
  note t = ring_take [OF r(1) ne]
  have "sc_try_pop s = (Some (ring_buf ?s1 ! slot (ring_cap ?s1) (local_egress ?s1)), ring_take ?s1)"
    using ne by (simp add: sc_try_pop_def ring_take_def Let_def)
  with t r assms show ?thesis by simp
qed

interpretation sc: fifo_rep ring_wf ring_contents ring_cap sc_try_push sc_try_pop
proof unfold_locales
  fix s :: "'a ring_state" assume "ring_wf s"
  then show "length (ring_contents s) \<le> ring_cap s" using ring_wf_bounds [of s] by simp
qed (fact sc_try_push_full sc_try_push_room sc_try_pop_empty sc_try_pop_item)+

subsection \<open>Batches\<close>

lemma sc_fill_batch_wrap:
  "t < length buf \<Longrightarrow> n \<le> length buf \<Longrightarrow> n \<le> length xs \<Longrightarrow> sc_fill_batch W xs buf t n = wrap_write buf t n xs"
  by (simp add: sc_fill_batch_def sc_fill_range_def wrap_write_def simd_copy_blit Let_def)

lemma sc_move_batch_wrap:
  "t < length buf \<Longrightarrow> n \<le> length buf \<Longrightarrow> n \<le> length out \<Longrightarrow> sc_move_batch W buf out t n = wrap_read buf t n out"
  by (simp add: sc_move_batch_def sc_move_range_def wrap_read_def simd_copy_blit Let_def)

lemma unat_min_count: "unat (if a < b then a else b :: u64) = min (unat a) (unat b)"
  by (simp add: word_less_nat_alt)

lemma sc_push_batch_spec:
  assumes wf: "ring_wf s" and xs: "unat max_count \<le> length xs"
  shows "\<exists>n s'. sc_push_batch W xs max_count s = (of_nat n, s') \<and> n \<le> ring_cap s - length (ring_contents s) \<and> n \<le> unat max_count
    \<and> (n = 0 \<longrightarrow> length (ring_contents s) = ring_cap s \<or> max_count = 0)
    \<and> ring_contents s' = ring_contents s @ take n xs \<and> ring_wf s' \<and> ring_cap s' = ring_cap s"
proof (cases "ring_fill s = ring_cap s")
  case True
  with refresh_egress [OF wf] show ?thesis
    by (intro exI [of _ 0] exI [of _ "refresh_egress s"]) (simp add: sc_push_batch_def ring_wf_bounds(5) [OF wf])
next
  case False
  note r = refresh_egress [OF wf] and b = ring_wf_bounds [OF wf]
  let ?s1 = "refresh_egress s"
  let ?avail = "ring_size ?s1 - (local_ingress ?s1 - cached_egress ?s1)"
  let ?count = "if ?avail < max_count then ?avail else max_count"
  define n where "n = unat ?count"
  let ?t = "slot (length (ring_buf ?s1)) (local_egress ?s1 + of_nat (ring_fill ?s1))"
  let ?buf = "wrap_write (ring_buf ?s1) ?t n xs"
  have dist: "unat (local_ingress ?s1 - cached_egress ?s1) < ring_cap s" using False r b by simp
  have avail: "unat ?avail = ring_cap s - unat (local_ingress ?s1 - cached_egress ?s1)"
    using dist r unat_ring_size [OF r(1)] by (subst unat_sub) (simp_all add: word_le_nat_alt)
  have n: "n = min (unat ?avail) (unat max_count)" by (simp only: n_def unat_min_count)
  have room: "n \<le> ring_cap ?s1 - unat (local_ingress ?s1 - cached_egress ?s1)" using n avail r by simp
  have lag: "ring_fill s \<le> unat (local_ingress ?s1 - cached_egress ?s1)" using r(1) r(5) by (simp add: ring_wf_def)
  have nb: "n \<le> length (ring_buf ?s1) - ring_fill ?s1" "n \<le> length xs" "ring_fill ?s1 \<le> length (ring_buf ?s1)" "n \<le> length (ring_buf ?s1)"
    using room lag n xs r b by (auto simp: ring_cap_def)
  have c: "pow2_cap (length (ring_buf ?s1))" using r(3) b(1) by (simp add: ring_cap_def)
  have li: "local_egress ?s1 + of_nat (ring_fill ?s1) = local_ingress ?s1" by (simp add: ring_fill_def)
  have keep: "cells ?buf (local_egress ?s1) (ring_fill ?s1) = ring_contents ?s1"
    using wrap_write_keeps [OF c nb(1,2,3)] by (simp add: ring_contents_def)
  have new: "cells ?buf (local_ingress ?s1) n = take n xs"
    using wrap_write_cells [OF c nb(4,2)] li by simp
  have len: "length ?buf = ring_cap ?s1" using nb slot_less [OF c] by (simp add: ring_cap_def)
  let ?s' = "?s1\<lparr>ring_buf := ?buf, local_ingress := local_ingress ?s1 + of_nat n, physical_ingress := local_ingress ?s1 + of_nat n\<rparr>"
  note p = ring_publish [OF r(1) room len keep refl]
  have nf: "\<not> ring_size ?s1 \<le> local_ingress ?s1 - cached_egress ?s1" using False r by simp
  have cw: "?count = of_nat n" and un: "unat (of_nat n :: u64) = n" by (simp_all add: n_def)
  have fr: "sc_fill_batch W xs (ring_buf ?s1) (slot (ring_cap ?s1) (local_ingress ?s1)) n = ?buf"
    using sc_fill_batch_wrap [of ?t "ring_buf ?s1" n xs W] slot_less [OF c] nb by (simp only: li ring_cap_def)
  have "sc_push_batch W xs max_count s = (of_nat n, ?s')"
    using nf by (simp add: sc_push_batch_def Let_def cw un fr del: unat_of_nat)
  moreover have "n = 0 \<Longrightarrow> max_count = 0" using n avail dist by (simp add: unat_eq_zero min_def split: if_splits)
  moreover have "n \<le> ring_cap s - length (ring_contents s)" using room lag r(3) b(5) by simp
  moreover have "n \<le> unat max_count" using n by simp
  moreover have "ring_contents ?s' = ring_contents s @ take n xs" using p(2) new r(2) by simp
  moreover have "ring_cap ?s' = ring_cap s" using p(3) r(3) by simp
  ultimately show ?thesis using p(1) by blast
qed

lemma sc_pop_batch_spec:
  assumes wf: "ring_wf s" and out: "unat max_count \<le> length out"
  shows "\<exists>n s'. sc_pop_batch W out max_count s = (of_nat n, take n (ring_contents s) @ drop n out, s') \<and> n \<le> length (ring_contents s)
    \<and> n \<le> unat max_count \<and> (n = 0 \<longrightarrow> ring_contents s = [] \<or> max_count = 0)
    \<and> ring_contents s' = drop n (ring_contents s) \<and> ring_wf s' \<and> ring_cap s' = ring_cap s"
proof (cases "ring_fill s = 0")
  case True
  with refresh_ingress [OF wf] show ?thesis
    by (intro exI [of _ 0] exI [of _ "refresh_ingress s"]) (simp add: sc_pop_batch_def ring_contents_def)
next
  case False
  note r = refresh_ingress [OF wf] and b = ring_wf_bounds [OF wf]
  let ?s1 = "refresh_ingress s"
  let ?avail = "cached_ingress ?s1 - local_egress ?s1"
  let ?count = "if ?avail < max_count then ?avail else max_count"
  define n where "n = unat ?count"
  let ?t = "slot (length (ring_buf ?s1)) (local_egress ?s1)"
  have ne: "local_egress ?s1 \<noteq> cached_ingress ?s1" using False r by simp
  have n: "n = min (unat ?avail) (unat max_count)" by (simp only: n_def unat_min_count)
  have avail: "unat ?avail \<le> ring_fill s" using r(1) r(5) by (simp add: ring_wf_def)
  have pos: "unat ?avail \<noteq> 0" using ne by (metis unat_zero_iff)
  have nb: "n \<le> length (ring_buf ?s1)" "n \<le> length out" "n \<le> ring_fill s"
    using n avail b r(3) out by (auto simp: ring_cap_def)
  have c: "pow2_cap (length (ring_buf ?s1))" using r(3) b(1) by (simp add: ring_cap_def)
  have cw: "?count = of_nat n" and un: "unat (of_nat n :: u64) = n" by (simp_all add: n_def)
  have "ring_contents ?s1 = cells (ring_buf ?s1) (local_egress ?s1) (n + (ring_fill s - n))"
    using nb r(5) by (simp add: ring_contents_def)
  then have "take n (ring_contents s) = cells (ring_buf ?s1) (local_egress ?s1) n"
    using r(2) by (simp only: cells_append) simp
  then have "sc_move_batch W (ring_buf ?s1) out ?t n = take n (ring_contents s) @ drop n out"
    using sc_move_batch_wrap [of ?t "ring_buf ?s1" n out W] wrap_read_cells [OF c nb(1,2)] slot_less [OF c] nb by simp
  then have mv: "sc_move_batch W (ring_buf ?s1) out (slot (ring_cap ?s1) (local_egress ?s1)) n = take n (ring_contents s) @ drop n out"
    by (simp only: ring_cap_def)
  let ?s' = "?s1\<lparr>local_egress := local_egress ?s1 + of_nat n, physical_egress := local_egress ?s1 + of_nat n\<rparr>"
  have "n \<le> unat ?avail" using n by simp
  note p = ring_retire [OF r(1) this refl]
  have "sc_pop_batch W out max_count s = (of_nat n, take n (ring_contents s) @ drop n out, ?s')"
    using ne by (simp add: sc_pop_batch_def Let_def cw un mv del: unat_of_nat)
  moreover have "n = 0 \<Longrightarrow> max_count = 0" using n pos by (simp add: unat_eq_zero min_def split: if_splits)
  moreover have "n \<le> unat max_count" "n \<le> length (ring_contents s)" using n nb b by simp_all
  moreover have "ring_contents ?s' = drop n (ring_contents s)" "ring_cap ?s' = ring_cap s" using p r by simp_all
  ultimately show ?thesis using p(1) by blast
qed

text \<open>The two batch calls with the caller's arrays: the pushed list, and the prefix of the output array that was filled.\<close>

definition sc_pushb :: "nat \<Rightarrow> 'a list \<Rightarrow> 'a ring_state \<Rightarrow> nat \<times> 'a ring_state" where
  "sc_pushb W xs s = (let (n, s') = sc_push_batch W xs (of_nat (length xs)) s in (unat n, s'))"

definition sc_popb :: "nat \<Rightarrow> 'a \<Rightarrow> nat \<Rightarrow> 'a ring_state \<Rightarrow> 'a list \<times> 'a ring_state" where
  "sc_popb W d m s = (let (n, out, s') = sc_pop_batch W (replicate m d) (of_nat m) s in (take (unat n) out, s'))"

lemma unat_of_nat_u64: "n < 2 ^ 64 \<Longrightarrow> unat (of_nat n :: u64) = n"
  by (simp add: unat_of_nat take_bit_nat_def)

interpretation scb: bounded_fifo ring_wf ring_contents ring_cap sc_try_push sc_try_pop "sc_pushb W" "sc_popb W d"
proof unfold_locales
  fix s :: "'a ring_state" and xs :: "'a list"
  assume wf: "ring_wf s" and len: "length xs < 2 ^ 64"
  then have ux: "unat (of_nat (length xs) :: u64) = length xs" by (simp add: unat_of_nat_u64)
  obtain n s' where p: "sc_push_batch W xs (of_nat (length xs)) s = (of_nat n, s')" "n \<le> ring_cap s - length (ring_contents s)"
      "n \<le> length xs" "n = 0 \<longrightarrow> length (ring_contents s) = ring_cap s \<or> of_nat (length xs) = (0 :: u64)"
      "ring_contents s' = ring_contents s @ take n xs" "ring_wf s'" "ring_cap s' = ring_cap s"
    using sc_push_batch_spec [OF wf, of "of_nat (length xs)" xs W] ux by auto
  moreover have "unat (of_nat n :: u64) = n" using p(3) len by (simp add: unat_of_nat_u64)
  moreover have "of_nat (length xs) = (0 :: u64) \<longleftrightarrow> xs = []" using ux by (metis length_0_conv unat_eq_zero)
  ultimately show "\<exists>n s'. sc_pushb W xs s = (n, s') \<and>
      queue_allows (ring_cap s) (PushBatch xs) (PushedN n) (ring_contents s) (ring_contents s') \<and> ring_wf s' \<and> ring_cap s' = ring_cap s"
    by (auto simp: sc_pushb_def)
next
  fix s :: "'a ring_state" and m :: nat
  assume wf: "ring_wf s" and m: "m < 2 ^ 64"
  then have um: "unat (of_nat m :: u64) = m" by (simp add: unat_of_nat_u64)
  obtain n s' where p: "sc_pop_batch W (replicate m d) (of_nat m) s = (of_nat n, take n (ring_contents s) @ drop n (replicate m d), s')"
      "n \<le> length (ring_contents s)" "n \<le> m" "n = 0 \<longrightarrow> ring_contents s = [] \<or> of_nat m = (0 :: u64)"
      "ring_contents s' = drop n (ring_contents s)" "ring_wf s'" "ring_cap s' = ring_cap s"
    using sc_pop_batch_spec [OF wf, of "of_nat m" "replicate m d" W] um by auto
  have un: "unat (of_nat n :: u64) = n" using p(3) m by (simp add: unat_of_nat_u64)
  have m0: "of_nat m = (0 :: u64) \<longleftrightarrow> m = 0" using um by (metis unat_eq_zero)
  have e: "sc_popb W d m s = (take n (ring_contents s), s')"
    using p(1,2) un by (simp add: sc_popb_def del: unat_of_nat)
  have "queue_allows (ring_cap s) (PopBatch m) (PoppedN (take n (ring_contents s))) (ring_contents s) (ring_contents s')"
    using p m0 by auto
  with e p show "\<exists>ys s'. sc_popb W d m s = (ys, s') \<and>
      queue_allows (ring_cap s) (PopBatch m) (PoppedN ys) (ring_contents s) (ring_contents s') \<and> ring_wf s' \<and> ring_cap s' = ring_cap s"
    by blast
qed

subsection \<open>Un-consuming a batch\<close>

text \<open>Stepping the head back by one and writing an item there puts it in front of the queue.\<close>

definition ring_unread :: "'a \<Rightarrow> 'a ring_state \<Rightarrow> 'a ring_state" where
  "ring_unread x s = s\<lparr>ring_buf := (ring_buf s)[slot (ring_cap s) (local_egress s - 1) := x],
     local_egress := local_egress s - 1, physical_egress := local_egress s - 1\<rparr>"

lemma ring_unread_frame [simp]:
  "local_ingress (ring_unread x s) = local_ingress s" "cached_egress (ring_unread x s) = cached_egress s"
  by (simp_all add: ring_unread_def)

lemma ring_unread:
  assumes wf: "ring_wf s" and room: "ring_fill s < unat (local_ingress s - cached_egress s)"
  shows "ring_wf (ring_unread x s)" "ring_contents (ring_unread x s) = x # ring_contents s"
    "ring_fill (ring_unread x s) = ring_fill s + 1" "ring_cap (ring_unread x s) = ring_cap s"
proof -
  note b = ring_wf_bounds [OF wf]
  let ?e = "local_egress s - 1" and ?c = "length (ring_buf s)"
  let ?buf = "(ring_buf s)[slot ?c ?e := x]"
  have f: "ring_fill s < ring_cap s" using wf room by (simp add: ring_wf_def)
  have "unat (local_ingress s - local_egress s + 1) = ring_fill s + 1"
    unfolding ring_fill_def using f b by (intro unat_inc) (simp add: ring_fill_def)
  then have e: "unat (local_ingress s - ?e) = ring_fill s + 1" by (simp add: algebra_simps)
  have "unat (cached_ingress s - local_egress s) < 2 ^ 64 - 1" using wf f b by (simp add: ring_wf_def)
  then have "unat (cached_ingress s - local_egress s + 1) = unat (cached_ingress s - local_egress s) + 1" by (rule unat_inc)
  then have i: "unat (cached_ingress s - ?e) = unat (cached_ingress s - local_egress s) + 1" by (simp add: algebra_simps)
  show fill: "ring_fill (ring_unread x s) = ring_fill s + 1" using e by (simp add: ring_fill_def ring_unread_def)
  show cap: "ring_cap (ring_unread x s) = ring_cap s" by (simp add: ring_unread_def ring_cap_def)
  show "ring_wf (ring_unread x s)" using wf room i fill cap by (simp add: ring_wf_def ring_unread_def)
  have c: "pow2_cap ?c" using b(1) by (simp add: ring_cap_def)
  have first: "?buf ! slot ?c ?e = x" using slot_less [OF c] by simp
  have rest: "cells ?buf (local_egress s) (ring_fill s) = ring_contents s"
  proof (rule nth_equalityI)
    fix j assume "j < length (cells ?buf (local_egress s) (ring_fill s))"
    then have j: "j < ring_fill s" by simp
    have "slot ?c (?e + of_nat (Suc j)) \<noteq> slot ?c (?e + of_nat 0)"
      using slot_inj [OF c, of "Suc j" 0 ?e] j f b by (auto simp: ring_cap_def)
    then have "slot ?c (local_egress s + of_nat j) \<noteq> slot ?c ?e" by (simp add: algebra_simps)
    with j show "cells ?buf (local_egress s) (ring_fill s) ! j = ring_contents s ! j"
      by (simp add: ring_contents_def)
  qed (simp add: ring_contents_def)
  have "cells ?buf ?e (ring_fill s + 1) = x # cells ?buf (local_egress s) (ring_fill s)"
    using cells_Cons [of "ring_fill s + 1" ?buf ?e] first by simp
  with rest fill show "ring_contents (ring_unread x s) = x # ring_contents s"
    by (simp add: ring_contents_def) (simp add: ring_unread_def ring_cap_def)
qed

text \<open>The loop of \<^verbatim>\<open>revert_batch\<close> is repeated un-reading, once the head is published.\<close>

lemma sc_revert_loop_unread:
  "(sc_revert_loop batch k s)\<lparr>physical_egress := local_egress (sc_revert_loop batch k s)\<rparr> =
   foldr ring_unread (take k batch) (s\<lparr>physical_egress := local_egress s\<rparr>)" if "k \<le> length batch"
  using that
proof (induction k arbitrary: s)
  case (Suc k)
  let ?t = "s\<lparr>local_egress := local_egress s - 1, ring_buf := (ring_buf s)[slot (ring_cap s) (local_egress s - 1) := batch ! k]\<rparr>"
  have "ring_cap (s\<lparr>local_egress := local_egress s - 1\<rparr>) = ring_cap s" by (simp add: ring_cap_def)
  then have "sc_revert_loop batch (Suc k) s = sc_revert_loop batch k ?t" by (simp add: Let_def)
  moreover have "?t\<lparr>physical_egress := local_egress ?t\<rparr> = ring_unread (batch ! k) (s\<lparr>physical_egress := local_egress s\<rparr>)"
    by (simp add: ring_unread_def ring_cap_def)
  ultimately show ?case using Suc.IH [of ?t] Suc.prems by (simp add: take_Suc_conv_app_nth)
qed simp

lemma foldr_ring_unread:
  "ring_wf s \<Longrightarrow> ring_fill s + length xs \<le> unat (local_ingress s - cached_egress s) \<Longrightarrow>
   ring_wf (foldr ring_unread xs s) \<and> ring_contents (foldr ring_unread xs s) = xs @ ring_contents s \<and>
   ring_fill (foldr ring_unread xs s) = ring_fill s + length xs \<and> ring_cap (foldr ring_unread xs s) = ring_cap s \<and>
   local_ingress (foldr ring_unread xs s) = local_ingress s \<and> cached_egress (foldr ring_unread xs s) = cached_egress s"
proof (induction xs)
  case (Cons x xs)
  let ?t = "foldr ring_unread xs s"
  have t: "ring_wf ?t" "ring_contents ?t = xs @ ring_contents s" "ring_fill ?t = ring_fill s + length xs" "ring_cap ?t = ring_cap s"
      "local_ingress ?t = local_ingress s" "cached_egress ?t = cached_egress s" using Cons by auto
  then have "ring_fill ?t < unat (local_ingress ?t - cached_egress ?t)" using Cons.prems by simp
  with ring_unread [OF t(1) this, of x] t show ?case by simp
qed simp

lemma sc_revert_batch_spec:
  assumes "ring_wf s" "ring_fill s + length batch \<le> unat (local_ingress s - cached_egress s)"
  shows "ring_wf (sc_revert_batch batch s)" "ring_contents (sc_revert_batch batch s) = batch @ ring_contents s"
    "ring_cap (sc_revert_batch batch s) = ring_cap s"
proof -
  have "s\<lparr>physical_egress := local_egress s\<rparr> = s" using assms(1) by (simp add: ring_wf_def)
  then have "sc_revert_batch batch s = foldr ring_unread batch s"
    using sc_revert_loop_unread [of "length batch" batch s] by (simp add: sc_revert_batch_def Let_def)
  with foldr_ring_unread [OF assms] show "ring_wf (sc_revert_batch batch s)"
    "ring_contents (sc_revert_batch batch s) = batch @ ring_contents s" "ring_cap (sc_revert_batch batch s) = ring_cap s" by simp_all
qed

subsection \<open>Invalidation\<close>

definition nullify :: "'a \<Rightarrow> 'a \<Rightarrow> 'a \<Rightarrow> 'a" where
  "nullify d target x = (if x = target then d else x)"

text \<open>
  The scan covers the whole ring unless the published tail slot is below the head slot. In that
  case, the live items wrap around the end of the buffer, and the scanned range is exactly the
  part of the buffer that holds no item.
\<close>

lemma sc_invalidate_contents:
  assumes wf: "ring_wf s"
  shows "ring_wf (sc_invalidate_by_ptr W d target s)"
    "ring_contents (sc_invalidate_by_ptr W d target s) =
      (if slot (ring_cap s) (local_ingress s) < slot (ring_cap s) (local_egress s) then ring_contents s
       else map (nullify d target) (ring_contents s))"
proof -
  let ?h = "slot (ring_cap s) (local_ingress s)" and ?t = "slot (ring_cap s) (local_egress s)"
  let ?f = "\<lambda>x. if x = target then d else x"
  note b = ring_wf_bounds [OF wf]
  have fn: "?f = nullify d target" by (simp add: nullify_def fun_eq_iff)
  have hi: "?h < ring_cap s" "?t < ring_cap s" using slot_less [OF b(1)] by auto
  have li: "local_ingress s = local_egress s + of_nat (ring_fill s)" by (simp add: ring_fill_def)
  have pub: "physical_ingress s = local_ingress s" "physical_egress s = local_egress s" using wf by (simp_all add: ring_wf_def)
  consider (empty) "local_ingress s = local_egress s" | (wrap) "local_ingress s \<noteq> local_egress s" "?h < ?t"
    | (all) "local_ingress s \<noteq> local_egress s" "\<not> ?h < ?t" by blast
  then have "ring_wf (sc_invalidate_by_ptr W d target s) \<and> ring_contents (sc_invalidate_by_ptr W d target s) =
      (if ?h < ?t then ring_contents s else map (nullify d target) (ring_contents s))"
  proof cases
    case empty
    then have "sc_invalidate_by_ptr W d target s = s" using pub by (simp add: sc_invalidate_by_ptr_def)
    moreover have "ring_contents s = []" using empty by (simp add: ring_contents_def ring_fill_def)
    ultimately show ?thesis using wf by simp
  next
    case wrap
    let ?buf = "map_range (nullify d target) ?h ?t (ring_buf s)"
    have len: "length ?buf = ring_cap s" using hi by (simp add: ring_cap_def)
    have e: "sc_invalidate_by_ptr W d target s = s\<lparr>ring_buf := ?buf\<rparr>"
      using wrap hi pub by (simp add: sc_invalidate_by_ptr_def Let_def fn simd_scan_map_range ring_cap_def)
    have "?buf ! slot (ring_cap s) (local_egress s + of_nat i) = id (ring_buf s ! slot (ring_cap s) (local_egress s + of_nat i))"
      if "i < ring_fill s" for i
      using live_slot [OF b(1,2) that, of "local_egress s"] wrap(2) li hi
        slot_less [OF b(1), of "local_egress s + of_nat i"]
      by (auto simp: nth_map_range ring_cap_def)
    from ring_contents_map [OF wf len this] have "ring_contents (s\<lparr>ring_buf := ?buf\<rparr>) = ring_contents s" by simp
    with e wrap ring_wf_buf [OF wf len] show ?thesis by simp
  next
    case all
    let ?buf = "map_range (nullify d target) 0 ?t (map_range (nullify d target) ?t (ring_cap s) (ring_buf s))"
    have len: "length ?buf = ring_cap s" using hi by (simp add: ring_cap_def)
    have e: "sc_invalidate_by_ptr W d target s = s\<lparr>ring_buf := ?buf\<rparr>"
      using all hi pub by (simp add: sc_invalidate_by_ptr_def Let_def fn simd_scan_map_range ring_cap_def)
    have "?buf ! slot (ring_cap s) (local_egress s + of_nat i) = nullify d target (ring_buf s ! slot (ring_cap s) (local_egress s + of_nat i))" for i
      using slot_less [OF b(1), of "local_egress s + of_nat i"] hi by (auto simp: nth_map_range ring_cap_def)
    from ring_contents_map [OF wf len this] all e ring_wf_buf [OF wf len] show ?thesis by simp
  qed
  then show "ring_wf (sc_invalidate_by_ptr W d target s)"
    "ring_contents (sc_invalidate_by_ptr W d target s) =
      (if ?h < ?t then ring_contents s else map (nullify d target) (ring_contents s))" by blast+
qed

subsection \<open>Properties\<close>

text \<open>
  (C1) A session of calls on the conduit, from any well-formed state and wherever the 64-bit
  cursors stand, is answered as the bounded queue allows, and the items accepted come out once
  each, in order, or are still in the ring, which never holds more than its capacity.
\<close>

theorem sc_session_fifo:
  assumes "ring_wf s" and "list_all call_ok cs"
    and "conduit_session sc_try_push sc_try_pop (sc_pushb W) (sc_popb W d) cs s = (rs, s')"
  shows "queue_trace (ring_cap s) cs rs (ring_contents s) (ring_contents s')
    \<and> ring_contents s @ accepted cs rs = delivered rs @ ring_contents s'
    \<and> length (ring_contents s') \<le> ring_cap s \<and> ring_wf s'"
proof -
  have tr: "queue_trace (ring_cap s) cs rs (ring_contents s) (ring_contents s')" "ring_wf s'" "ring_cap s' = ring_cap s"
    using scb.session_refines [OF assms(1), of cs W d] assms(2,3) by (auto simp: list_all_iff)
  then show ?thesis using queue_trace_fifo [OF tr(1)] sc.bounded [of s'] by simp
qed

lemma sc_wrap_example_wf:
  "ring_wf ((sc_new 2 0 :: nat ring_state)\<lparr>local_ingress := - 1, physical_ingress := - 1, cached_egress := - 1,
     local_egress := - 1, physical_egress := - 1, cached_ingress := - 1\<rparr>)"
  using sc_new_wf [of 2 "0::nat"] sc_size_cap [of 2] by (simp add: ring_wf_def ring_fill_def ring_cap_def)

theorem sc_session_fifo_witness:
  "\<exists>rs s'. conduit_session sc_try_push sc_try_pop (sc_pushb 8) (sc_popb 8 0) [TryPush 1, PushBatch [2, 3], TryPop]
      ((sc_new 2 0 :: nat ring_state)\<lparr>local_ingress := - 1, physical_ingress := - 1, cached_egress := - 1,
         local_egress := - 1, physical_egress := - 1, cached_ingress := - 1\<rparr>) = (rs, s')
    \<and> accepted [TryPush 1, PushBatch [2, 3], TryPop] rs = delivered rs @ ring_contents s'"
proof -
  let ?s = "(sc_new 2 0 :: nat ring_state)\<lparr>local_ingress := - 1, physical_ingress := - 1, cached_egress := - 1,
     local_egress := - 1, physical_egress := - 1, cached_ingress := - 1\<rparr>"
  obtain rs s' where r: "conduit_session sc_try_push sc_try_pop (sc_pushb 8) (sc_popb 8 0) [TryPush 1, PushBatch [2, 3], TryPop] ?s = (rs, s')"
    by fastforce
  have "ring_contents ?s = []" by (simp add: ring_contents_def ring_fill_def)
  then have "accepted [TryPush 1, PushBatch [2, 3], TryPop] rs = delivered rs @ ring_contents s'"
    using sc_session_fifo [OF sc_wrap_example_wf _ r] by (simp add: call_ok_def del: accepted.simps)
  with r show ?thesis by blast
qed

text \<open>
  Un-consuming what was just popped restores the queue: the items a batch pop delivered,
  handed back to \<^verbatim>\<open>revert_batch\<close> before the producer has moved, are in front of the queue again.
\<close>

theorem sc_revert_restores:
  assumes "ring_wf s" and "unat max_count \<le> length out" and "sc_pop_batch W out max_count s = (n, out', s')"
  shows "ring_wf (sc_revert_batch (take (unat n) out') s')
    \<and> ring_contents (sc_revert_batch (take (unat n) out') s') = ring_contents s"
proof -
  obtain k where k: "n = of_nat k" "out' = take k (ring_contents s) @ drop k out" "k \<le> length (ring_contents s)" "k \<le> unat max_count"
      "ring_contents s' = drop k (ring_contents s)" "ring_wf s'"
    using sc_pop_batch_spec [OF assms(1,2), of W] assms(3) by auto
  have "k < 2 ^ 64" using k(4) unat_lt_u64 [of max_count] by linarith
  then have un: "unat n = k" using k(1) by (simp add: unat_of_nat take_bit_nat_def)
  have b: "take (unat n) out' = take k (ring_contents s)" using k un by simp
  have frame: "local_ingress s' = local_ingress s" "cached_egress s' = cached_egress s"
    using assms(3) by (auto simp: sc_pop_batch_def refresh_ingress_def Let_def split: if_splits)
  have "ring_fill s' + length (take k (ring_contents s)) \<le> unat (local_ingress s' - cached_egress s')"
    using k(3,5) frame assms(1) ring_wf_bounds(5) [OF assms(1)] ring_wf_bounds(5) [OF k(6)] by (auto simp: ring_wf_def)
  from sc_revert_batch_spec [OF k(6) this] b k show ?thesis by simp
qed

theorem sc_revert_restores_witness:
  "\<exists>n out' s'. sc_pop_batch 4 [0, 0] 2 (snd (sc_try_push (7::nat) (sc_new 4 0))) = (n, out', s')
     \<and> ring_contents (sc_revert_batch (take (unat n) out') s') = [7]"
proof -
  obtain s where s: "sc_try_push (7::nat) (sc_new 4 0) = (True, s)" "ring_wf s" "ring_contents s = [7]"
    using sc.tpush_room [of "sc_new 4 0" "7::nat"] sc_new_wf [of 4 "0::nat"] sc_size_cap [of 4] by auto
  obtain n out' s' where p: "sc_pop_batch 4 [0, 0] 2 s = (n, out', s')" by (cases "sc_pop_batch 4 [0, 0] 2 s") auto
  have "unat (2 :: u64) \<le> length [0 :: nat, 0]" by simp
  from sc_revert_restores [OF s(2) this p] p s show ?thesis by auto
qed

text \<open>
  What \<^verbatim>\<open>invalidate_by_ptr\<close> does to the queue. While the published tail slot is not below
  the head slot, every occurrence of the target is nulled. As soon as the items wrap around the
  end of the buffer, the scan covers the free slots only, and the target stays in the queue.
\<close>

theorem sc_invalidate_by_ptr_effect:
  assumes "ring_wf s"
  shows "ring_contents (sc_invalidate_by_ptr W d target s) =
    (if slot (ring_cap s) (physical_ingress s) < slot (ring_cap s) (physical_egress s) then ring_contents s
     else map (nullify d target) (ring_contents s))"
  using sc_invalidate_contents(2) [OF assms] assms by (simp add: ring_wf_def)

theorem sc_invalidate_by_ptr_effect_witness:
  "ring_contents (sc_invalidate_by_ptr 8 0 7
     ((sc_new 4 (0::nat))\<lparr>ring_buf := [8, 0, 0, 7], local_ingress := 5, physical_ingress := 5, cached_egress := 1,
        local_egress := 3, physical_egress := 3, cached_ingress := 5\<rparr>)) = [7, 8]"
proof -
  let ?s = "(sc_new 4 (0::nat))\<lparr>ring_buf := [8, 0, 0, 7], local_ingress := 5, physical_ingress := 5, cached_egress := 1,
        local_egress := 3, physical_egress := 3, cached_ingress := 5\<rparr>"
  have "ring_cap ?s = 2 ^ 2" by (simp add: ring_cap_def)
  moreover from this have "pow2_cap (ring_cap ?s)" using pow2_cap_of [of 2] by simp
  ultimately have wf: "ring_wf ?s" by (simp add: ring_wf_def ring_fill_def)
  have "ring_contents ?s = [7, 8]" by (simp add: ring_contents_def ring_fill_def cells_def slot_def upt_rec)
  then show ?thesis using sc_invalidate_by_ptr_effect [OF wf, of 8 0 7] by (simp add: ring_cap_def slot_def)
qed

end
