(* ===== verification/Spsc_Ring_Conduit.thy ===== *)
theory Spsc_Ring_Conduit
  imports Spsc_Conduit
begin

section \<open>\<^verbatim>\<open>core/spsc_ring_conduit.hpp\<close>: the ring conduit with in-place reservation\<close>

text \<open>
  \<^verbatim>\<open>spsc_ring_conduit<T, RequestedCapacity>\<close> has the members of \<^verbatim>\<open>spsc_conduit\<close>, and besides
  pushes and pops an interface on the slots themselves: the producer reserves, fills and commits,
  the consumer peeks and consumes. A slot address is its index; \<open>ring_poke\<close> is a write through
  it. The lemmas show that the pushes and pops are those of \<^verbatim>\<open>spsc_conduit\<close>, and that the slot
  interface, used in its order, is a push or a pop of the same queue.
\<close>

definition rc_capacity :: "nat \<Rightarrow> nat" where
  "rc_capacity requested = bit_ceil requested"

definition rc_new :: "nat \<Rightarrow> 'a \<Rightarrow> 'a ring_state" where
  "rc_new requested d = ring_new (rc_capacity requested) d"

definition rc_attach_fault_reporter :: "u64 \<Rightarrow> u64 \<Rightarrow> 'a ring_state \<Rightarrow> 'a ring_state" where
  "rc_attach_fault_reporter arbiter fn s = s\<lparr>arbiter_ptr := arbiter, fault_fn := fn\<rparr>"

definition rc_on_conduit_full_drop :: "'a ring_state \<Rightarrow> (u64 \<times> u64 \<times> u32) option" where
  "rc_on_conduit_full_drop s =
     (if fault_fn s \<noteq> 0 then Some (fault_fn s, arbiter_ptr s, 0xE62E55) else None)"

subsection \<open>Pushing\<close>

definition rc_try_push :: "'a \<Rightarrow> 'a ring_state \<Rightarrow> bool \<times> 'a ring_state" where
  "rc_try_push item s =
     (let s1 = refresh_egress s
      in if local_ingress s1 - cached_egress s1 \<ge> ring_size s1 then (False, s1)
         else let s2 = s1\<lparr>ring_buf := (ring_buf s1)[slot (ring_cap s1) (local_ingress s1) := item]\<rparr>;
                  s3 = s2\<lparr>local_ingress := local_ingress s2 + 1\<rparr>
              in (True, s3\<lparr>physical_ingress := local_ingress s3\<rparr>))"

definition rc_on_raw_frame :: "'a \<Rightarrow> int \<Rightarrow> 'a ring_state \<Rightarrow> bool \<times> 'a ring_state" where
  "rc_on_raw_frame item res s = rc_try_push item s"

definition rc_try_push_ptr :: "'a option \<Rightarrow> 'a ring_state \<Rightarrow> bool \<times> 'a ring_state" where
  "rc_try_push_ptr item s = (case item of Some x \<Rightarrow> rc_try_push x s | None \<Rightarrow> (False, s))"

text \<open>\<^verbatim>\<open>try_push(managed_data&)\<close> refuses an empty handle; it returns the handle as it leaves it.\<close>

definition rc_try_push_managed :: "u64 \<Rightarrow> u64 ring_state \<Rightarrow> (bool \<times> u64 \<times> u64 ring_state) option" where
  "rc_try_push_managed item s =
     (if item = 0 then Some (False, item, s)
      else let (ok, s') = rc_try_push item s
           in if ok then map_option (\<lambda>(_, h). (True, h, s')) (handle_release item)
              else Some (False, item, s'))"

definition rc_push :: "('a ring_state \<Rightarrow> 'a ring_state) list \<Rightarrow> 'a \<Rightarrow> 'a ring_state \<Rightarrow> 'a ring_state option" where
  "rc_push others item s = spin_push rc_try_push others item s"

definition rc_push_ptr :: "('a ring_state \<Rightarrow> 'a ring_state) list \<Rightarrow> 'a option \<Rightarrow> 'a ring_state \<Rightarrow> (bool \<times> 'a ring_state) option" where
  "rc_push_ptr others item s = (case item of Some x \<Rightarrow> map_option (\<lambda>s'. (True, s')) (rc_push others x s) | None \<Rightarrow> Some (False, s))"

text \<open>\<^verbatim>\<open>push(managed_data&)\<close>: \<open>None\<close> is a push still spinning when the interferences end.\<close>

fun rc_push_managed :: "(u64 ring_state \<Rightarrow> u64 ring_state) list \<Rightarrow> u64 \<Rightarrow> u64 ring_state \<Rightarrow> (u64 \<times> u64 ring_state) option" where
  "rc_push_managed [] item s =
     (case rc_try_push_managed item s of Some (True, h, s') \<Rightarrow> Some (h, s') | _ \<Rightarrow> None)"
| "rc_push_managed (f # fs) item s =
     (case rc_try_push_managed item s of
        Some (True, h, s') \<Rightarrow> Some (h, s')
      | Some (False, h, s') \<Rightarrow> rc_push_managed fs h (f s')
      | None \<Rightarrow> None)"

subsection \<open>Popping and peeking\<close>

definition rc_try_pop :: "'a ring_state \<Rightarrow> 'a option \<times> 'a ring_state" where
  "rc_try_pop s =
     (let s1 = refresh_ingress s
      in if cached_ingress s1 = local_egress s1 then (None, s1)
         else let out_item = ring_buf s1 ! slot (ring_cap s1) (local_egress s1);
                  s2 = s1\<lparr>local_egress := local_egress s1 + 1\<rparr>
              in (Some out_item, s2\<lparr>physical_egress := local_egress s2\<rparr>))"

definition rc_try_pop_managed :: "u64 ring_state \<Rightarrow> u64 \<times> u64 ring_state" where
  "rc_try_pop_managed s = (let (v, s') = rc_try_pop s in (case v of Some raw \<Rightarrow> raw | None \<Rightarrow> 0, s'))"

definition rc_pop :: "('a ring_state \<Rightarrow> 'a ring_state) list \<Rightarrow> 'a ring_state \<Rightarrow> ('a \<times> 'a ring_state) option" where
  "rc_pop others s = spin_pop rc_try_pop others s"

text \<open>\<^verbatim>\<open>pop(Pool&)\<close>: the handle over the popped pointer.\<close>

definition rc_pop_managed :: "(u64 ring_state \<Rightarrow> u64 ring_state) list \<Rightarrow> u64 ring_state \<Rightarrow> (u64 \<times> u64 ring_state) option" where
  "rc_pop_managed others s = spin_pop rc_try_pop others s"

definition rc_is_data_available :: "'a ring_state \<Rightarrow> bool \<times> 'a ring_state" where
  "rc_is_data_available s =
     (let s1 = refresh_ingress s in (cached_ingress s1 \<noteq> local_egress s1, s1))"

definition rc_available_to_peek :: "'a ring_state \<Rightarrow> u64 \<times> 'a ring_state" where
  "rc_available_to_peek s =
     (let s1 = refresh_ingress s in (cached_ingress s1 - local_egress s1, s1))"

definition rc_get_peek_slot :: "u64 \<Rightarrow> 'a ring_state \<Rightarrow> nat" where
  "rc_get_peek_slot offset s = slot (ring_cap s) (local_egress s + offset)"

definition rc_peek_at :: "u64 \<Rightarrow> 'a ring_state \<Rightarrow> nat option \<times> 'a ring_state" where
  "rc_peek_at offset s =
     (let s1 = (if local_egress s + offset \<ge> cached_ingress s
                then s\<lparr>cached_ingress := physical_ingress s\<rparr> else s)
      in if local_egress s1 + offset \<ge> cached_ingress s1 then (None, s1)
         else (Some (slot (ring_cap s1) (local_egress s1 + offset)), s1))"

definition rc_peek :: "'a ring_state \<Rightarrow> nat option \<times> 'a ring_state" where
  "rc_peek s =
     (let s1 = refresh_ingress s
      in if cached_ingress s1 = local_egress s1 then (None, s1)
         else (Some (slot (ring_cap s1) (local_egress s1)), s1))"

subsection \<open>Reserving and committing\<close>

definition rc_reserve :: "'a ring_state \<Rightarrow> nat option \<times> 'a ring_state" where
  "rc_reserve s =
     (let s1 = refresh_egress s
      in if local_ingress s1 - cached_egress s1 \<ge> ring_size s1 then (None, s1)
         else (Some (slot (ring_cap s1) (local_ingress s1)), s1))"

definition rc_get_ingress_cursor :: "'a ring_state \<Rightarrow> u64" where
  "rc_get_ingress_cursor s = local_ingress s"

definition rc_get_egress_cursor :: "'a ring_state \<Rightarrow> u64" where
  "rc_get_egress_cursor s = local_egress s"

definition rc_reserve_batch_space :: "u64 \<Rightarrow> 'a ring_state \<Rightarrow> u64 \<times> 'a ring_state" where
  "rc_reserve_batch_space max_count s =
     (if local_ingress s + max_count - cached_egress s \<ge> ring_size s
      then let s1 = s\<lparr>cached_egress := physical_egress s\<rparr>;
               avail = ring_size s1 - (local_ingress s1 - cached_egress s1)
           in (if avail < max_count then avail else max_count, s1)
      else (max_count, s))"

definition rc_get_reserved_slot :: "u64 \<Rightarrow> 'a ring_state \<Rightarrow> nat" where
  "rc_get_reserved_slot offset s = slot (ring_cap s) (local_ingress s + offset)"

definition rc_reserve_at :: "u64 \<Rightarrow> 'a ring_state \<Rightarrow> nat option \<times> 'a ring_state" where
  "rc_reserve_at offset s =
     (let s1 = (if local_ingress s + offset - cached_egress s \<ge> ring_size s
                then s\<lparr>cached_egress := physical_egress s\<rparr> else s)
      in if local_ingress s1 + offset - cached_egress s1 \<ge> ring_size s1 then (None, s1)
         else (Some (slot (ring_cap s1) (local_ingress s1 + offset)), s1))"

text \<open>A write through the address of slot \<open>i\<close>, and a burst of them at the offsets \<open>k\<close>, \<open>k + 1\<close> and so on.\<close>

definition ring_poke :: "nat \<Rightarrow> 'a \<Rightarrow> 'a ring_state \<Rightarrow> 'a ring_state" where
  "ring_poke i x s = s\<lparr>ring_buf := (ring_buf s)[i := x]\<rparr>"

fun rc_fill_reserved :: "nat \<Rightarrow> 'a list \<Rightarrow> 'a ring_state \<Rightarrow> 'a ring_state" where
  "rc_fill_reserved k [] s = s"
| "rc_fill_reserved k (x # xs) s =
     rc_fill_reserved (Suc k) xs (ring_poke (rc_get_reserved_slot (of_nat k) s) x s)"

definition rc_commit_push :: "'a ring_state \<Rightarrow> 'a ring_state" where
  "rc_commit_push s = (let s1 = s\<lparr>local_ingress := local_ingress s + 1\<rparr> in s1\<lparr>physical_ingress := local_ingress s1\<rparr>)"

definition rc_commit_n :: "u64 \<Rightarrow> 'a ring_state \<Rightarrow> 'a ring_state" where
  "rc_commit_n n s = (let s1 = s\<lparr>local_ingress := local_ingress s + n\<rparr> in s1\<lparr>physical_ingress := local_ingress s1\<rparr>)"

definition rc_consume :: "'a ring_state \<Rightarrow> 'a ring_state" where
  "rc_consume s = (let s1 = s\<lparr>local_egress := local_egress s + 1\<rparr> in s1\<lparr>physical_egress := local_egress s1\<rparr>)"

definition rc_consume_n :: "u64 \<Rightarrow> 'a ring_state \<Rightarrow> 'a ring_state" where
  "rc_consume_n n s = (let s1 = s\<lparr>local_egress := local_egress s + n\<rparr> in s1\<lparr>physical_egress := local_egress s1\<rparr>)"

definition rc_commit_pop :: "'a ring_state \<Rightarrow> 'a ring_state" where
  "rc_commit_pop s = rc_consume s"

definition rc_commit :: "'a ring_state \<Rightarrow> 'a ring_state" where
  "rc_commit s = rc_commit_push s"

subsection \<open>Batches, recovery and monitoring\<close>

text \<open>A batch that wraps is drained by two scalar loops, and filled by two vector loops.\<close>

definition rc_drain :: "nat \<Rightarrow> 'a list \<Rightarrow> 'a list \<Rightarrow> nat \<Rightarrow> nat \<Rightarrow> 'a list" where
  "rc_drain W buf out_batch t_idx count =
     (if t_idx + count \<le> length buf then simd_copy W count 0 out_batch 0 buf t_idx
      else let p1 = length buf - t_idx; p2 = count - p1
           in scalar_copy p2 0 (scalar_copy p1 0 out_batch 0 buf t_idx) p1 buf 0)"

definition rc_pop_batch :: "nat \<Rightarrow> 'a list \<Rightarrow> u64 \<Rightarrow> 'a ring_state \<Rightarrow> u64 \<times> 'a list \<times> 'a ring_state" where
  "rc_pop_batch W out_batch max_count s =
     (let s1 = refresh_ingress s
      in if cached_ingress s1 = local_egress s1 then (0, out_batch, s1)
         else let available = cached_ingress s1 - local_egress s1;
                  count = (if available < max_count then available else max_count);
                  t_idx = slot (ring_cap s1) (local_egress s1);
                  out = rc_drain W (ring_buf s1) out_batch t_idx (unat count);
                  s2 = s1\<lparr>local_egress := local_egress s1 + count\<rparr>
              in (count, out, s2\<lparr>physical_egress := local_egress s2\<rparr>))"

definition rc_store_batch :: "nat \<Rightarrow> 'a list \<Rightarrow> 'a list \<Rightarrow> nat \<Rightarrow> nat \<Rightarrow> 'a list" where
  "rc_store_batch W in_batch buf t_idx count =
     (if t_idx + count \<le> length buf then simd_copy W count 0 buf t_idx in_batch 0
      else let p1 = length buf - t_idx; p2 = count - p1
           in simd_copy W p2 0 (simd_copy W p1 0 buf t_idx in_batch 0) 0 in_batch p1)"

definition rc_push_batch :: "nat \<Rightarrow> 'a list \<Rightarrow> u64 \<Rightarrow> 'a ring_state \<Rightarrow> u64 \<times> 'a ring_state" where
  "rc_push_batch W in_batch max_count s =
     (let s1 = refresh_egress s
      in if local_ingress s1 - cached_egress s1 \<ge> ring_size s1 then (0, s1)
         else let available = ring_size s1 - (local_ingress s1 - cached_egress s1);
                  count = (if available < max_count then available else max_count);
                  t_idx = slot (ring_cap s1) (local_ingress s1);
                  buf = rc_store_batch W in_batch (ring_buf s1) t_idx (unat count);
                  s2 = s1\<lparr>ring_buf := buf, local_ingress := local_ingress s1 + count\<rparr>
              in (count, s2\<lparr>physical_ingress := local_ingress s2\<rparr>))"

definition rc_occupancy :: "'a ring_state \<Rightarrow> u64" where
  "rc_occupancy s = physical_ingress s - physical_egress s"

definition rc_approx_size :: "'a ring_state \<Rightarrow> u64" where
  "rc_approx_size s = rc_occupancy s"

definition rc_invalidate_by_ptr :: "nat \<Rightarrow> 'a \<Rightarrow> 'a \<Rightarrow> 'a ring_state \<Rightarrow> 'a ring_state" where
  "rc_invalidate_by_ptr W d target s =
     (let head = physical_ingress s; tail = physical_egress s
      in if head = tail then s
         else let t_idx = slot (ring_cap s) tail; h_idx = slot (ring_cap s) head;
                  f = (\<lambda>x. if x = target then d else x)
              in if t_idx < h_idx then s\<lparr>ring_buf := simd_scan W f t_idx h_idx (ring_buf s)\<rparr>
                 else s\<lparr>ring_buf := simd_scan W f 0 h_idx (simd_scan W f h_idx (ring_cap s) (ring_buf s))\<rparr>)"

definition rc_pushb :: "nat \<Rightarrow> 'a list \<Rightarrow> 'a ring_state \<Rightarrow> nat \<times> 'a ring_state" where
  "rc_pushb W xs s = (let (n, s') = rc_push_batch W xs (of_nat (length xs)) s in (unat n, s'))"

definition rc_popb :: "nat \<Rightarrow> 'a \<Rightarrow> nat \<Rightarrow> 'a ring_state \<Rightarrow> 'a list \<times> 'a ring_state" where
  "rc_popb W d m s = (let (n, out, s') = rc_pop_batch W (replicate m d) (of_nat m) s in (take (unat n) out, s'))"

subsection \<open>Pushes and pops are those of \<^verbatim>\<open>spsc_conduit\<close>\<close>

lemma rc_new_wf: "requested \<le> 2 ^ 63 \<Longrightarrow> ring_wf (rc_new requested d) \<and> ring_contents (rc_new requested d) = []
    \<and> ring_cap (rc_new requested d) = rc_capacity requested"
  using bit_ceil_cap [of requested] ring_wf_new [of "bit_ceil requested" d] by (auto simp: rc_new_def rc_capacity_def)

lemma rc_try_push_eq: "rc_try_push = sc_try_push"
  by (simp add: fun_eq_iff rc_try_push_def sc_try_push_def)

lemma rc_try_pop_eq: "rc_try_pop = sc_try_pop"
  by (simp add: fun_eq_iff rc_try_pop_def sc_try_pop_def eq_commute [of "cached_ingress _"])

lemma rc_push_batch_eq: "rc_push_batch = sc_push_batch"
  by (simp add: fun_eq_iff rc_push_batch_def sc_push_batch_def rc_store_batch_def sc_fill_batch_def sc_fill_range_def Let_def)

lemma rc_drain_move:
  "t < length buf \<Longrightarrow> n \<le> length buf \<Longrightarrow> n \<le> length out \<Longrightarrow> rc_drain W buf out t n = sc_move_batch W buf out t n"
  by (simp add: rc_drain_def sc_move_batch_def sc_move_range_def simd_copy_blit scalar_copy_blit Let_def)

lemma rc_pop_batch_eq:
  assumes wf: "ring_wf s" and out: "unat max_count \<le> length out"
  shows "rc_pop_batch W out max_count s = sc_pop_batch W out max_count s"
proof -
  note r = refresh_ingress_keeps [OF wf] and b = ring_wf_bounds [OF wf]
  let ?s1 = "refresh_ingress s"
  let ?avail = "cached_ingress ?s1 - local_egress ?s1"
  let ?count = "if ?avail < max_count then ?avail else max_count"
  have u: "unat ?count = min (unat ?avail) (unat max_count)" by (simp only: unat_min_count)
  have "unat ?avail \<le> ring_cap ?s1" using r(1) ring_wf_bounds(2) [OF r(1)] by (simp add: ring_wf_def)
  then have n: "unat ?count \<le> length (ring_buf ?s1)" "unat ?count \<le> length out" using u out by (auto simp: ring_cap_def)
  have "slot (ring_cap ?s1) (local_egress ?s1) < length (ring_buf ?s1)"
    using slot_less [OF ring_wf_bounds(1) [OF r(1)]] by (simp add: ring_cap_def)
  from rc_drain_move [OF this n] show ?thesis
    by (simp add: rc_pop_batch_def sc_pop_batch_def Let_def eq_commute [of "cached_ingress _"] del: unat_of_nat)
qed

lemma rc_popb_eq: "ring_wf s \<Longrightarrow> m < 2 ^ 64 \<Longrightarrow> rc_popb W d m s = sc_popb W d m s"
  using rc_pop_batch_eq [of s "of_nat m" "replicate m d" W] by (simp add: rc_popb_def sc_popb_def unat_of_nat take_bit_nat_def)

lemma rc_pushb_eq: "rc_pushb = sc_pushb"
  by (simp add: fun_eq_iff rc_pushb_def sc_pushb_def rc_push_batch_eq)

interpretation rc: fifo_rep ring_wf ring_contents ring_cap rc_try_push rc_try_pop
  unfolding rc_try_push_eq rc_try_pop_eq by (rule sc.fifo_rep_axioms)

interpretation rcb: bounded_fifo ring_wf ring_contents ring_cap rc_try_push rc_try_pop "rc_pushb W" "rc_popb W d"
proof unfold_locales
qed (use scb.pushb_spec scb.popb_spec in \<open>simp_all add: rc_pushb_eq rc_popb_eq del: queue_allows.simps\<close>)

subsection \<open>The slot interface\<close>

lemma rc_reserve_commit:
  "rc_try_push x s = (case rc_reserve s of (None, s1) \<Rightarrow> (False, s1)
     | (Some i, s1) \<Rightarrow> (True, rc_commit_push (ring_poke i x s1)))"
  by (simp add: rc_try_push_def rc_reserve_def rc_commit_push_def ring_poke_def Let_def)

lemma rc_peek_consume:
  "rc_try_pop s = (case rc_peek s of (None, s1) \<Rightarrow> (None, s1)
     | (Some i, s1) \<Rightarrow> (Some (ring_buf s1 ! i), rc_consume s1))"
  by (simp add: rc_try_pop_def rc_peek_def rc_consume_def Let_def)

text \<open>The room a batch reservation grants is there, and the ring is as it was.\<close>

lemma rc_reserve_batch_space_spec:
  assumes wf: "ring_wf s" and m: "ring_cap s + unat max_count < 2 ^ 64"
  shows "\<exists>n s1. rc_reserve_batch_space max_count s = (of_nat n, s1) \<and> ring_wf s1 \<and> ring_contents s1 = ring_contents s
    \<and> ring_cap s1 = ring_cap s \<and> n \<le> unat max_count \<and> n \<le> ring_cap s1 - unat (local_ingress s1 - cached_egress s1)
    \<and> (n = 0 \<longrightarrow> max_count = 0 \<or> length (ring_contents s) = ring_cap s)"
proof (cases "local_ingress s + max_count - cached_egress s \<ge> ring_size s")
  case True
  note r = ring_refresh_egress [OF wf] and b = ring_wf_bounds [OF wf]
  let ?s1 = "s\<lparr>cached_egress := physical_egress s\<rparr>"
  let ?avail = "ring_size ?s1 - (local_ingress ?s1 - cached_egress ?s1)"
  have a: "unat ?avail = ring_cap s - ring_fill s"
    using r b unat_ring_size [OF wf] by (subst unat_sub) (simp_all add: word_le_nat_alt)
  define n where "n = unat (if ?avail < max_count then ?avail else max_count)"
  have n: "n = min (ring_cap s - ring_fill s) (unat max_count)" unfolding n_def unat_min_count a ..
  have "rc_reserve_batch_space max_count s = (of_nat n, ?s1)" using True by (simp add: rc_reserve_batch_space_def Let_def n_def)
  moreover have "n = 0 \<longrightarrow> max_count = 0 \<or> length (ring_contents s) = ring_cap s"
    unfolding n using b by (auto simp: unat_eq_zero min_def split: if_splits)
  moreover have "n \<le> ring_cap ?s1 - unat (local_ingress ?s1 - cached_egress ?s1)" "n \<le> unat max_count"
    unfolding n using r(3,4) by auto
  ultimately show ?thesis using r by blast
next
  case False
  have "unat (local_ingress s - cached_egress s) \<le> ring_cap s" using wf by (simp add: ring_wf_def)
  then have "unat (local_ingress s - cached_egress s + max_count) = unat (local_ingress s - cached_egress s) + unat max_count"
    using m by (simp add: unat_word_ariths)
  then have "unat (local_ingress s - cached_egress s) + unat max_count < ring_cap s"
    using False by (simp add: ring_size_le [OF wf] algebra_simps)
  with False wf show ?thesis
    by (intro exI [of _ "unat max_count"] exI [of _ s]) (simp add: rc_reserve_batch_space_def unat_eq_zero)
qed

lemma rc_fill_reserved_length: "length (ring_buf (rc_fill_reserved k xs s)) = length (ring_buf s)"
  by (induction xs arbitrary: k s) (simp_all add: ring_poke_def)

lemma rc_fill_reserved_frame: "rc_fill_reserved k xs s = s\<lparr>ring_buf := ring_buf (rc_fill_reserved k xs s)\<rparr>"
proof (induction xs arbitrary: k s)
  case (Cons x xs)
  let ?t = "ring_poke (rc_get_reserved_slot (of_nat k) s) x s"
  have "rc_fill_reserved k (x # xs) s = rc_fill_reserved (Suc k) xs ?t" by simp
  also have "\<dots> = ?t\<lparr>ring_buf := ring_buf (rc_fill_reserved (Suc k) xs ?t)\<rparr>" by (rule Cons.IH)
  also have "\<dots> = s\<lparr>ring_buf := ring_buf (rc_fill_reserved k (x # xs) s)\<rparr>" by (simp add: ring_poke_def)
  finally show ?case .
qed simp

text \<open>A burst at the offsets \<open>k\<close> and up writes those slots and no other of the ring.\<close>

lemma rc_fill_reserved_nth:
  assumes "pow2_cap (length (ring_buf s))" "k + length xs \<le> length (ring_buf s)" "i < length (ring_buf s)"
  shows "ring_buf (rc_fill_reserved k xs s) ! slot (length (ring_buf s)) (local_ingress s + of_nat i) =
    (if k \<le> i \<and> i < k + length xs then xs ! (i - k) else ring_buf s ! slot (length (ring_buf s)) (local_ingress s + of_nat i))"
  using assms
proof (induction xs arbitrary: k s)
  case (Cons x xs)
  let ?c = "length (ring_buf s)"
  let ?s = "ring_poke (rc_get_reserved_slot (of_nat k) s) x s"
  have f: "length (ring_buf ?s) = ?c" "local_ingress ?s = local_ingress s" by (simp_all add: ring_poke_def)
  have IH: "ring_buf (rc_fill_reserved (Suc k) xs ?s) ! slot ?c (local_ingress s + of_nat i) =
    (if Suc k \<le> i \<and> i < Suc k + length xs then xs ! (i - Suc k) else ring_buf ?s ! slot ?c (local_ingress s + of_nat i))"
    using Cons.IH [of ?s "Suc k"] Cons.prems f by simp
  have eq: "slot ?c (local_ingress s + of_nat i) = slot ?c (local_ingress s + of_nat k) \<longleftrightarrow> i = k"
    using slot_inj [OF Cons.prems(1), of i k "local_ingress s"] Cons.prems by auto
  have "ring_buf ?s ! slot ?c (local_ingress s + of_nat i) =
    (if i = k then x else ring_buf s ! slot ?c (local_ingress s + of_nat i))"
    using eq slot_less [OF Cons.prems(1), of "local_ingress s + of_nat k"]
    by (auto simp: ring_poke_def rc_get_reserved_slot_def ring_cap_def nth_list_update)
  with IH show ?case by (auto simp: nth_Cons')
qed auto

lemma ring_fill_li: "local_egress s + of_nat (ring_fill s) = local_ingress s"
  by (simp add: ring_fill_def)

lemma rc_fill_commit:
  assumes wf: "ring_wf s" and n: "length xs \<le> ring_cap s - unat (local_ingress s - cached_egress s)"
  shows "ring_wf (rc_commit_n (of_nat (length xs)) (rc_fill_reserved 0 xs s))"
    "ring_contents (rc_commit_n (of_nat (length xs)) (rc_fill_reserved 0 xs s)) = ring_contents s @ xs"
    "ring_cap (rc_commit_n (of_nat (length xs)) (rc_fill_reserved 0 xs s)) = ring_cap s"
proof -
  let ?buf = "ring_buf (rc_fill_reserved 0 xs s)" and ?c = "length (ring_buf s)"
  note b = ring_wf_bounds [OF wf]
  have c: "pow2_cap ?c" using b(1) by (simp add: ring_cap_def)
  have lag: "ring_fill s \<le> unat (local_ingress s - cached_egress s)" using wf by (simp add: ring_wf_def)
  have nth: "?buf ! slot ?c (local_ingress s + of_nat i) =
      (if i < length xs then xs ! i else ring_buf s ! slot ?c (local_ingress s + of_nat i))" if "i < ?c" for i
    using rc_fill_reserved_nth [of s 0 xs i] that c n by (simp add: ring_cap_def)
  have len: "length ?buf = ?c" by (rule rc_fill_reserved_length)
  have keep: "cells ?buf (local_egress s) (ring_fill s) = ring_contents s"
  proof (rule nth_equalityI)
    fix j assume "j < length (cells ?buf (local_egress s) (ring_fill s))"
    then have j: "j < ring_fill s" by simp
    define i where "i = ?c - ring_fill s + j"
    have i: "i < ?c" "\<not> i < length xs" using j lag n b(2) by (auto simp: i_def ring_cap_def)
    have "ring_fill s + i = j + ?c" using b(2) by (simp add: i_def ring_cap_def)
    then have "local_ingress s + of_nat i = local_egress s + of_nat j + of_nat ?c"
      by (metis (no_types) ring_fill_li add.assoc of_nat_add)
    then have "slot ?c (local_ingress s + of_nat i) = slot ?c (local_egress s + of_nat j)"
      by (simp only: slot_plus_cap [OF c])
    then show "cells ?buf (local_egress s) (ring_fill s) ! j = ring_contents s ! j"
      using nth [OF i(1)] i(2) j len by (simp add: ring_contents_def)
  qed (simp add: ring_contents_def)
  have new: "cells ?buf (local_ingress s) (length xs) = xs"
    using nth n len by (intro nth_equalityI) (auto simp: ring_cap_def)
  have e: "rc_commit_n (of_nat (length xs)) (rc_fill_reserved 0 xs s) = s\<lparr>ring_buf := ?buf,
      local_ingress := local_ingress s + of_nat (length xs), physical_ingress := local_ingress s + of_nat (length xs)\<rparr>"
    by (subst rc_fill_reserved_frame) (simp add: rc_commit_n_def)
  show "ring_wf (rc_commit_n (of_nat (length xs)) (rc_fill_reserved 0 xs s))"
    "ring_contents (rc_commit_n (of_nat (length xs)) (rc_fill_reserved 0 xs s)) = ring_contents s @ xs"
    "ring_cap (rc_commit_n (of_nat (length xs)) (rc_fill_reserved 0 xs s)) = ring_cap s"
    using ring_publish [OF wf n _ keep e] len new by (simp_all add: ring_cap_def)
qed

text \<open>What the consumer sees through the slots up to its horizon, and what retiring them does.\<close>

lemma rc_horizon:
  assumes wf: "ring_wf s"
  shows "\<exists>n s1. rc_available_to_peek s = (of_nat n, s1) \<and> ring_wf s1 \<and> ring_contents s1 = ring_contents s \<and> ring_cap s1 = ring_cap s
    \<and> n \<le> length (ring_contents s) \<and> (n = 0 \<longrightarrow> ring_contents s = [])
    \<and> (\<forall>i. i < n \<longrightarrow> ring_buf s1 ! rc_get_peek_slot (of_nat i) s1 = ring_contents s ! i)
    \<and> (\<forall>k. k \<le> n \<longrightarrow> ring_wf (rc_consume_n (of_nat k) s1) \<and> ring_contents (rc_consume_n (of_nat k) s1) = drop k (ring_contents s))"
proof -
  note r = refresh_ingress [OF wf] and b = ring_wf_bounds [OF wf]
  let ?s1 = "refresh_ingress s"
  let ?n = "unat (cached_ingress ?s1 - local_egress ?s1)"
  have n: "?n \<le> ring_fill ?s1" using r(1) by (simp add: ring_wf_def)
  have z: "?n = 0 \<longrightarrow> ring_contents s = []"
    using r(4,6) b(5) unat_zero_iff [of "cached_ingress ?s1" "local_egress ?s1"] by (metis length_0_conv)
  have p: "ring_buf ?s1 ! rc_get_peek_slot (of_nat i) ?s1 = ring_contents s ! i" if "i < ?n" for i
  proof -
    have "i < ring_fill ?s1" using that n by simp
    then have "ring_contents ?s1 ! i = ring_buf ?s1 ! slot (ring_cap ?s1) (local_egress ?s1 + of_nat i)"
      by (simp add: ring_contents_def ring_cap_def)
    then show ?thesis using r(2) by (simp add: rc_get_peek_slot_def)
  qed
  have c: "ring_wf (rc_consume_n (of_nat k) ?s1) \<and> ring_contents (rc_consume_n (of_nat k) ?s1) = drop k (ring_contents s)" if "k \<le> ?n" for k
    using ring_retire [OF r(1) that refl] r(2) by (simp add: rc_consume_n_def)
  have "rc_available_to_peek s = (of_nat ?n, ?s1)" by (simp add: rc_available_to_peek_def Let_def)
  moreover have "?n \<le> length (ring_contents s)" using n b(5) r(5) by simp
  ultimately show ?thesis
    by (intro exI [of _ ?n] exI [of _ ?s1] conjI allI impI) (use r(1,2,3) z p c in auto)
qed

subsection \<open>Invalidation and look-ahead\<close>

text \<open>The scan covers every slot that holds an item, whether the items wrap or not.\<close>

lemma rc_invalidate_contents:
  assumes wf: "ring_wf s"
  shows "ring_wf (rc_invalidate_by_ptr W d target s)"
    "ring_contents (rc_invalidate_by_ptr W d target s) = map (nullify d target) (ring_contents s)"
proof -
  let ?h = "slot (ring_cap s) (local_ingress s)" and ?t = "slot (ring_cap s) (local_egress s)"
  let ?f = "\<lambda>x. if x = target then d else x"
  note b = ring_wf_bounds [OF wf]
  have fn: "?f = nullify d target" by (simp add: nullify_def fun_eq_iff)
  have hi: "?h < ring_cap s" "?t < ring_cap s" using slot_less [OF b(1)] by auto
  have li: "local_ingress s = local_egress s + of_nat (ring_fill s)" by (simp add: ring_fill_def)
  have pub: "physical_ingress s = local_ingress s" "physical_egress s = local_egress s" using wf by (simp_all add: ring_wf_def)
  consider (empty) "local_ingress s = local_egress s" | (run) "local_ingress s \<noteq> local_egress s" "?t < ?h"
    | (wrap) "local_ingress s \<noteq> local_egress s" "\<not> ?t < ?h" by blast
  then have "ring_wf (rc_invalidate_by_ptr W d target s) \<and>
      ring_contents (rc_invalidate_by_ptr W d target s) = map (nullify d target) (ring_contents s)"
  proof cases
    case empty
    then have "rc_invalidate_by_ptr W d target s = s" using pub by (simp add: rc_invalidate_by_ptr_def)
    moreover have "ring_contents s = []" using empty by (simp add: ring_contents_def ring_fill_def)
    ultimately show ?thesis using wf by simp
  next
    case run
    let ?buf = "map_range (nullify d target) ?t ?h (ring_buf s)"
    have len: "length ?buf = ring_cap s" using hi by (simp add: ring_cap_def)
    have e: "rc_invalidate_by_ptr W d target s = s\<lparr>ring_buf := ?buf\<rparr>"
      using run hi pub by (simp add: rc_invalidate_by_ptr_def Let_def fn simd_scan_map_range ring_cap_def)
    have "?buf ! slot (ring_cap s) (local_egress s + of_nat i) = nullify d target (ring_buf s ! slot (ring_cap s) (local_egress s + of_nat i))"
      if "i < ring_fill s" for i
      using live_slot [OF b(1,2) that, of "local_egress s"] run(2) li hi
        slot_less [OF b(1), of "local_egress s + of_nat i"]
      by (auto simp: nth_map_range ring_cap_def)
    from ring_contents_map [OF wf len this] e ring_wf_buf [OF wf len] show ?thesis by simp
  next
    case wrap
    let ?buf = "map_range (nullify d target) 0 ?h (map_range (nullify d target) ?h (ring_cap s) (ring_buf s))"
    have len: "length ?buf = ring_cap s" using hi by (simp add: ring_cap_def)
    have e: "rc_invalidate_by_ptr W d target s = s\<lparr>ring_buf := ?buf\<rparr>"
      using wrap hi pub by (simp add: rc_invalidate_by_ptr_def Let_def fn simd_scan_map_range ring_cap_def)
    have "?buf ! slot (ring_cap s) (local_egress s + of_nat i) = nullify d target (ring_buf s ! slot (ring_cap s) (local_egress s + of_nat i))" for i
      using slot_less [OF b(1), of "local_egress s + of_nat i"] hi by (auto simp: nth_map_range ring_cap_def)
    from ring_contents_map [OF wf len this] e ring_wf_buf [OF wf len] show ?thesis by simp
  qed
  then show "ring_wf (rc_invalidate_by_ptr W d target s)"
    "ring_contents (rc_invalidate_by_ptr W d target s) = map (nullify d target) (ring_contents s)" by blast+
qed

lemma word_order_window:
  fixes e i x :: u64
  assumes "unat e + unat (i - e) < 2 ^ 64" "unat e + unat x < 2 ^ 64"
  shows "i \<le> e + x \<longleftrightarrow> unat (i - e) \<le> unat x"
proof -
  have "unat (e + (i - e)) = unat e + unat (i - e)" "unat (e + x) = unat e + unat x"
    using assms by (simp_all only: unat_word_ariths) simp_all
  then show ?thesis by (simp add: word_le_nat_alt)
qed

lemma rc_peek_at_no_wrap:
  assumes wf: "ring_wf s" and nw: "unat (local_egress s) + ring_fill s < 2 ^ 64" "unat (local_egress s) + unat offset < 2 ^ 64"
  shows "\<exists>v s1. rc_peek_at offset s = (v, s1) \<and> ring_wf s1 \<and> ring_contents s1 = ring_contents s
    \<and> (if unat offset < length (ring_contents s) then \<exists>i. v = Some i \<and> ring_buf s1 ! i = ring_contents s ! unat offset else v = None)"
proof -
  define s1 where "s1 = (if local_egress s + offset \<ge> cached_ingress s then s\<lparr>cached_ingress := physical_ingress s\<rparr> else s)"
  note b = ring_wf_bounds [OF wf]
  have r: "ring_wf s1" "ring_contents s1 = ring_contents s" "ring_cap s1 = ring_cap s" "local_egress s1 = local_egress s"
      "ring_fill s1 = ring_fill s" "ring_buf s1 = ring_buf s"
    using wf ring_refresh_ingress [OF wf] by (auto simp: s1_def ring_fill_def)
  have c: "unat (cached_ingress s - local_egress s) \<le> ring_fill s" using wf by (simp add: ring_wf_def)
  have li: "physical_ingress s = local_ingress s" using wf by (simp add: ring_wf_def)
  have shadow: "cached_ingress s \<le> local_egress s + offset \<longleftrightarrow> unat (cached_ingress s - local_egress s) \<le> unat offset"
    using word_order_window [of "local_egress s" "cached_ingress s" offset] nw c by simp
  have live: "local_ingress s \<le> local_egress s + offset \<longleftrightarrow> ring_fill s \<le> unat offset"
    using word_order_window [of "local_egress s" "local_ingress s" offset] nw by (simp add: ring_fill_def)
  have v: "local_egress s1 + offset \<ge> cached_ingress s1 \<longleftrightarrow> ring_fill s \<le> unat offset"
    using shadow live c li by (auto simp: s1_def)
  have nth: "ring_buf s1 ! slot (ring_cap s1) (local_egress s1 + offset) = ring_contents s ! unat offset" if "unat offset < ring_fill s"
    using that r by (simp add: ring_contents_def ring_cap_def)
  have "rc_peek_at offset s = (if ring_fill s \<le> unat offset then None else Some (slot (ring_cap s1) (local_egress s1 + offset)), s1)"
    using v by (simp add: rc_peek_at_def Let_def flip: s1_def)
  with r(1,2) nth b(5) show ?thesis by auto
qed

lemma rc_peek_at_wrapped:
  assumes wf: "ring_wf s" and w: "local_ingress s < local_egress s" "cached_ingress s = local_egress s"
    "unat (local_egress s) + unat offset < 2 ^ 64"
  shows "fst (rc_peek_at offset s) = None"
proof -
  have "unat (local_egress s + offset) = unat (local_egress s) + unat offset" using w(3) by (simp only: unat_word_ariths) simp
  then have "local_egress s \<le> local_egress s + offset" "local_ingress s \<le> local_egress s + offset"
    using w(1) by (simp_all add: word_le_nat_alt word_less_nat_alt)
  then show ?thesis using w(2) wf by (simp add: rc_peek_at_def ring_wf_def)
qed

lemma rc_push_managed_empty: "rc_push_managed others 0 s = None"
  by (induction others arbitrary: s) (simp_all add: rc_try_push_managed_def)

subsection \<open>Properties\<close>

text \<open>
  (C2) The ring conduit answers every session of pushes, pops and batches as the bounded queue
  allows, and delivers what it accepted once each and in order.
\<close>

theorem rc_session_fifo:
  assumes "ring_wf s" and "list_all call_ok cs"
    and "conduit_session rc_try_push rc_try_pop (rc_pushb W) (rc_popb W d) cs s = (rs, s')"
  shows "queue_trace (ring_cap s) cs rs (ring_contents s) (ring_contents s')
    \<and> ring_contents s @ accepted cs rs = delivered rs @ ring_contents s'
    \<and> length (ring_contents s') \<le> ring_cap s \<and> ring_wf s'"
proof -
  have tr: "queue_trace (ring_cap s) cs rs (ring_contents s) (ring_contents s')" "ring_wf s'" "ring_cap s' = ring_cap s"
    using rcb.session_refines [OF assms(1), of cs W d] assms(2,3) by (auto simp: list_all_iff)
  then show ?thesis using queue_trace_fifo [OF tr(1)] rc.bounded [of s'] by simp
qed

theorem rc_session_fifo_witness:
  "\<exists>rs s'. conduit_session rc_try_push rc_try_pop (rc_pushb 4) (rc_popb 4 0) [PushBatch [1, 2, 3], PopBatch 2, TryPush 4]
      (rc_new 2 0 :: nat ring_state) = (rs, s')
    \<and> accepted [PushBatch [1, 2, 3], PopBatch 2, TryPush 4] rs = delivered rs @ ring_contents s'"
proof -
  have wf: "ring_wf (rc_new 2 0 :: nat ring_state)" "ring_contents (rc_new 2 0 :: nat ring_state) = []"
    using rc_new_wf [of 2 "0::nat"] by auto
  obtain rs s' where r: "conduit_session rc_try_push rc_try_pop (rc_pushb 4) (rc_popb 4 0) [PushBatch [1, 2, 3], PopBatch 2, TryPush 4]
      (rc_new 2 0 :: nat ring_state) = (rs, s')" by fastforce
  have "accepted [PushBatch [1, 2, 3], PopBatch 2, TryPush 4] rs = delivered rs @ ring_contents s'"
    using rc_session_fifo [OF wf(1) _ r] wf(2) by (simp add: call_ok_def del: accepted.simps)
  with r show ?thesis by blast
qed

text \<open>A reservation so large that the sum of the first test wraps is granted whole: with one item in the
  ring, \<open>2 ^ 64 - 1\<close> slots.\<close>

lemma rc_reserve_batch_space_wraps:
  assumes "ring_wf s" "local_ingress s - cached_egress s = 1"
  shows "rc_reserve_batch_space (- 1) s = (- 1, s)"
proof -
  have "local_ingress s + - 1 - cached_egress s = 0" using assms(2) by (simp add: algebra_simps)
  moreover have "\<not> ring_size s \<le> 0" using pow2_cap_pos pow2_cap_less assms(1) by (fastforce simp: ring_wf_def word_le_nat_alt unat_of_nat_u64)
  ultimately show ?thesis by (simp add: rc_reserve_batch_space_def)
qed

text \<open>
  (C10) Writing in place is pushing, for a reservation of fewer than \<open>2 ^ 64\<close> slots less the capacity
  (beyond that the sum of the first test can wrap): the room a batch reservation grants is free, and
  filling the granted slots one after the other and committing them appends exactly those items to
  the queue.
\<close>

theorem rc_reserve_fill_commit:
  assumes "ring_wf s" and "ring_cap s + unat max_count < 2 ^ 64"
    and "rc_reserve_batch_space max_count s = (n, s1)" and "length xs = unat n"
  shows "n \<le> max_count \<and> (n = 0 \<longrightarrow> max_count = 0 \<or> length (ring_contents s) = ring_cap s)
    \<and> ring_wf (rc_commit_n n (rc_fill_reserved 0 xs s1))
    \<and> ring_contents (rc_commit_n n (rc_fill_reserved 0 xs s1)) = ring_contents s @ xs"
proof -
  obtain k where k: "n = of_nat k" "ring_wf s1" "ring_contents s1 = ring_contents s" "k \<le> unat max_count"
      "k \<le> ring_cap s1 - unat (local_ingress s1 - cached_egress s1)" "k = 0 \<longrightarrow> max_count = 0 \<or> length (ring_contents s) = ring_cap s"
    using rc_reserve_batch_space_spec [OF assms(1,2)] assms(3) by auto
  have "k < 2 ^ 64" using k(4) unat_lt_u64 [of max_count] by linarith
  then have u: "unat n = k" using k(1) unat_of_nat_u64 by simp
  then have len: "length xs = k" and n: "n = of_nat (length xs)" using k(1) assms(4) by simp_all
  have "n \<le> max_count" using u k(4) by (simp add: word_le_nat_alt)
  moreover have "n = 0 \<longrightarrow> k = 0" using u by auto
  moreover note rc_fill_commit [OF k(2), of xs, folded n]
  ultimately show ?thesis using k(3,5,6) len by simp
qed

theorem rc_reserve_fill_commit_witness:
  "\<exists>n s1. rc_reserve_batch_space 2 (rc_new 4 (0::nat)) = (n, s1) \<and> n = 2
     \<and> ring_contents (rc_commit_n n (rc_fill_reserved 0 [5, 6] s1)) = [5, 6]"
proof -
  have wf: "ring_wf (rc_new 4 (0::nat))" "ring_contents (rc_new 4 (0::nat)) = []" "ring_cap (rc_new 4 (0::nat)) = rc_capacity 4"
    using rc_new_wf [of 4 "0::nat"] by auto
  have cap: "rc_capacity 4 = 4" by (simp add: rc_capacity_def bit_ceil_def bit_ceil_from.simps)
  have r: "rc_reserve_batch_space 2 (rc_new 4 (0::nat)) = (2, rc_new 4 0)"
    using wf cap by (simp add: rc_reserve_batch_space_def) (simp add: rc_new_def ring_new_def)
  have "ring_contents (rc_commit_n 2 (rc_fill_reserved 0 [5, 6] (rc_new 4 (0::nat)))) = [5, 6]"
    using rc_reserve_fill_commit [OF wf(1) _ r, of "[5, 6]"] wf cap by simp
  with r show ?thesis by auto
qed

text \<open>
  Reading in place is popping: the items the horizon probe announces are the oldest of the
  queue, each seen through its slot, at least one if there is any, and retiring \<open>k\<close> of them
  removes exactly these.
\<close>

theorem rc_peek_consume_window:
  assumes "ring_wf s" and "rc_available_to_peek s = (n, s1)" and "i < n" and "k \<le> n"
  shows "unat n \<le> length (ring_contents s)
    \<and> ring_buf s1 ! rc_get_peek_slot i s1 = ring_contents s ! unat i
    \<and> ring_contents (rc_consume_n k s1) = drop (unat k) (ring_contents s) \<and> ring_wf (rc_consume_n k s1)"
proof -
  obtain m where m: "n = of_nat m" "m \<le> length (ring_contents s)"
      "\<forall>i. i < m \<longrightarrow> ring_buf s1 ! rc_get_peek_slot (of_nat i) s1 = ring_contents s ! i"
      "\<forall>k. k \<le> m \<longrightarrow> ring_wf (rc_consume_n (of_nat k) s1) \<and> ring_contents (rc_consume_n (of_nat k) s1) = drop k (ring_contents s)"
    using rc_horizon [OF assms(1)] assms(2) by auto
  have "m < 2 ^ 64" using m(2) ring_wf_bounds [OF assms(1)] by simp
  then have u: "unat n = m" using m(1) unat_of_nat_u64 by simp
  have "unat i < m" "unat k \<le> m" using assms(3,4) u by (simp_all add: word_less_nat_alt word_le_nat_alt)
  with m(2,3) m(4) [rule_format, of "unat k"] u show ?thesis
    using m(3) [rule_format, of "unat i"] by simp
qed

theorem rc_peek_consume_window_witness:
  "let s = rc_commit_push (ring_poke 0 (9::nat) (rc_new 4 0)); (n, s1) = rc_available_to_peek s
   in n = 1 \<and> ring_buf s1 ! rc_get_peek_slot 0 s1 = 9 \<and> ring_contents (rc_consume_n 1 s1) = []"
proof -
  let ?s = "rc_commit_push (ring_poke 0 (9::nat) (rc_new 4 0))"
  have new: "ring_wf (rc_new 4 (0::nat))" "ring_contents (rc_new 4 (0::nat)) = []" "ring_cap (rc_new 4 (0::nat)) = rc_capacity 4"
    using rc_new_wf [of 4 "0::nat"] by auto
  have cap: "rc_capacity 4 = 4" by (simp add: rc_capacity_def bit_ceil_def bit_ceil_from.simps)
  have "rc_try_push 9 (rc_new 4 (0::nat)) = (True, ?s)"
    using new(3) cap by (simp add: rc_reserve_commit rc_reserve_def refresh_egress_def) (simp add: rc_new_def ring_new_def slot_def)
  then have s: "ring_wf ?s" "ring_contents ?s = [9]"
    using rc.tpush_room [OF new(1), of 9] new cap by auto
  have a: "rc_available_to_peek ?s = (1, ?s\<lparr>cached_ingress := 1\<rparr>)"
    by (simp add: rc_available_to_peek_def refresh_ingress_def rc_commit_push_def ring_poke_def rc_new_def ring_new_def)
  show ?thesis using rc_peek_consume_window [OF s(1) a, of 0 1] s(2) a by (simp add: Let_def)
qed

text \<open>
  Invalidation reaches every item: after \<^verbatim>\<open>invalidate_by_ptr\<close> no live slot holds the target,
  wherever the items lie in the buffer, and no other item is touched.
\<close>

theorem rc_invalidate_by_ptr_complete:
  assumes "ring_wf s"
  shows "ring_contents (rc_invalidate_by_ptr W d target s) = map (\<lambda>x. if x = target then d else x) (ring_contents s)
    \<and> (d \<noteq> target \<longrightarrow> target \<notin> set (ring_contents (rc_invalidate_by_ptr W d target s)))"
  using rc_invalidate_contents(2) [OF assms, of W d target] by (auto simp: nullify_def)

theorem rc_invalidate_by_ptr_complete_witness:
  "ring_contents (rc_invalidate_by_ptr 8 0 7
     ((rc_new 4 (0::nat))\<lparr>ring_buf := [8, 0, 0, 7], local_ingress := 5, physical_ingress := 5, cached_egress := 1,
        local_egress := 3, physical_egress := 3, cached_ingress := 5\<rparr>)) = [0, 8]"
proof -
  let ?s = "(rc_new 4 (0::nat))\<lparr>ring_buf := [8, 0, 0, 7], local_ingress := 5, physical_ingress := 5, cached_egress := 1,
        local_egress := 3, physical_egress := 3, cached_ingress := 5\<rparr>"
  have "ring_cap ?s = 2 ^ 2" by (simp add: ring_cap_def)
  moreover from this have "pow2_cap (ring_cap ?s)" using pow2_cap_of [of 2] by simp
  ultimately have wf: "ring_wf ?s" by (simp add: ring_wf_def ring_fill_def)
  have "ring_contents ?s = [7, 8]" by (simp add: ring_contents_def ring_fill_def cells_def slot_def upt_rec)
  then show ?thesis using rc_invalidate_by_ptr_complete [OF wf, of 8 0 7] by simp
qed

text \<open>
  \<^verbatim>\<open>peek_at\<close> gives the item at the offset exactly if there is one, as long as the cursors do
  not pass \<open>2 ^ 64\<close>. It compares cursors as numbers and not by their distance, so that once
  the producer's cursor has wrapped and the consumer's has not, it reports an empty horizon.
\<close>

theorem rc_peek_at_horizon:
  assumes "ring_wf s" and "unat (local_egress s) + unat offset < 2 ^ 64"
  shows "(unat (local_egress s) + ring_fill s < 2 ^ 64 \<longrightarrow>
      (case rc_peek_at offset s of
         (None, s1) \<Rightarrow> length (ring_contents s) \<le> unat offset
       | (Some i, s1) \<Rightarrow> unat offset < length (ring_contents s) \<and> ring_buf s1 ! i = ring_contents s ! unat offset))
    \<and> (local_ingress s < local_egress s \<and> cached_ingress s = local_egress s \<longrightarrow> fst (rc_peek_at offset s) = None)"
proof (intro conjI impI)
  assume nw: "unat (local_egress s) + ring_fill s < 2 ^ 64"
  obtain v s1 where "rc_peek_at offset s = (v, s1)"
      "if unat offset < length (ring_contents s) then \<exists>i. v = Some i \<and> ring_buf s1 ! i = ring_contents s ! unat offset else v = None"
    using rc_peek_at_no_wrap [OF assms(1) nw assms(2)] by blast
  then show "case rc_peek_at offset s of (None, s1) \<Rightarrow> length (ring_contents s) \<le> unat offset
       | (Some i, s1) \<Rightarrow> unat offset < length (ring_contents s) \<and> ring_buf s1 ! i = ring_contents s ! unat offset"
    by (cases v) (auto split: if_splits)
qed (use rc_peek_at_wrapped [OF assms(1) _ _ assms(2)] in blast)

theorem rc_peek_at_horizon_witness:
  "let s = (rc_new 2 (0::nat))\<lparr>ring_buf := [6, 5], local_ingress := 1, physical_ingress := 1, cached_egress := - 1,
        local_egress := - 1, physical_egress := - 1, cached_ingress := - 1\<rparr>
   in ring_contents s = [5, 6] \<and> fst (rc_peek_at 0 s) = None"
proof -
  let ?s = "(rc_new 2 (0::nat))\<lparr>ring_buf := [6, 5], local_ingress := 1, physical_ingress := 1, cached_egress := - 1,
        local_egress := - 1, physical_egress := - 1, cached_ingress := - 1\<rparr>"
  have "ring_cap ?s = 2 ^ 1" by (simp add: ring_cap_def)
  moreover from this have "pow2_cap (ring_cap ?s)" using pow2_cap_of [of 1] by simp
  ultimately have wf: "ring_wf ?s" by (simp add: ring_wf_def ring_fill_def)
  have "ring_contents ?s = [5, 6]" by (simp add: ring_contents_def ring_fill_def cells_def slot_def upt_rec)
  moreover have "(1 :: u64) < - 1" by code_simp
  ultimately show ?thesis using rc_peek_at_horizon [OF wf, of 0] unat_lt_u64 [of "- 1"] by (simp add: Let_def)
qed

end
