(* ===== verification/Spsc_Interleaving.thy ===== *)
theory Spsc_Interleaving
  imports Spsc_Ring_Conduit
begin

section \<open>The two threads of an SPSC conduit, interleaved\<close>

text \<open>
  \<^verbatim>\<open>try_push\<close> and \<^verbatim>\<open>try_pop\<close> of the SPSC conduits run in two threads without a lock. Here
  each is cut into the accesses it makes, in program order, and the threads interleave them
  freely. The producer writes only its own cursors and the slot it fills, the consumer only its
  own cursors; they share the two published gates. A load of the other side's gate may be
  stale: it returns any value the gate has held since the shadow was last refreshed, which is what
  coherence of a single atomic guarantees. The stores are release stores and the loads acquire
  loads, so that a slot written before a gate value was published is seen by who read that value:
  the buffer can be one shared list.

  The history variables \<open>pushed\<close> and \<open>popped\<close> record the items of the completed pushes and
  pops. The invariant gives, for every interleaving, first-in first-out delivery without loss,
  and that the two threads never touch the same slot at the same time.
\<close>

datatype 'a prod_pc = P_Idle | P_Start 'a | P_Retry 'a | P_Room 'a | P_Wrote 'a | P_Bumped 'a

datatype 'a cons_pc = C_Idle | C_Start | C_Retry | C_Item | C_Got 'a | C_Bumped 'a

record 'a spsc_sys =
  sys_ring :: "'a ring_state"
  prod_at :: "'a prod_pc"
  cons_at :: "'a cons_pc"
  pushed :: "'a list"
  popped :: "'a list"

definition sys_new :: "'a ring_state \<Rightarrow> 'a spsc_sys" where
  "sys_new s = \<lparr>sys_ring = s, prod_at = P_Idle, cons_at = C_Idle, pushed = ring_contents s, popped = []\<rparr>"

text \<open>\<open>v\<close> is a value the gate \<open>now\<close> has held since it was \<open>seen\<close>.\<close>

definition held_since :: "u64 \<Rightarrow> u64 \<Rightarrow> u64 \<Rightarrow> bool" where
  "held_since seen now v \<longleftrightarrow> v - seen \<le> now - seen"

abbreviation full_view :: "'a ring_state \<Rightarrow> bool" where
  "full_view r \<equiv> local_ingress r - cached_egress r \<ge> ring_size r"

abbreviation empty_view :: "'a ring_state \<Rightarrow> bool" where
  "empty_view r \<equiv> local_egress r = cached_ingress r"

inductive prod_step :: "'a spsc_sys \<Rightarrow> 'a spsc_sys \<Rightarrow> bool" where
  p_call: "prod_at t = P_Idle \<Longrightarrow> prod_step t (t\<lparr>prod_at := P_Start x\<rparr>)"
| p_room: "prod_at t = P_Start x \<Longrightarrow> \<not> full_view (sys_ring t) \<Longrightarrow> prod_step t (t\<lparr>prod_at := P_Room x\<rparr>)"
| p_refresh: "prod_at t = P_Start x \<Longrightarrow> full_view (sys_ring t) \<Longrightarrow>
    held_since (cached_egress (sys_ring t)) (physical_egress (sys_ring t)) v \<Longrightarrow>
    prod_step t (t\<lparr>prod_at := P_Retry x, sys_ring := (sys_ring t)\<lparr>cached_egress := v\<rparr>\<rparr>)"
| p_full: "prod_at t = P_Retry x \<Longrightarrow> full_view (sys_ring t) \<Longrightarrow> prod_step t (t\<lparr>prod_at := P_Idle\<rparr>)"
| p_room2: "prod_at t = P_Retry x \<Longrightarrow> \<not> full_view (sys_ring t) \<Longrightarrow> prod_step t (t\<lparr>prod_at := P_Room x\<rparr>)"
| p_write: "prod_at t = P_Room x \<Longrightarrow>
    prod_step t (t\<lparr>prod_at := P_Wrote x, sys_ring := ring_poke (slot (ring_cap (sys_ring t)) (local_ingress (sys_ring t))) x (sys_ring t)\<rparr>)"
| p_bump: "prod_at t = P_Wrote x \<Longrightarrow>
    prod_step t (t\<lparr>prod_at := P_Bumped x, sys_ring := (sys_ring t)\<lparr>local_ingress := local_ingress (sys_ring t) + 1\<rparr>\<rparr>)"
| p_publish: "prod_at t = P_Bumped x \<Longrightarrow>
    prod_step t (t\<lparr>prod_at := P_Idle, pushed := pushed t @ [x],
      sys_ring := (sys_ring t)\<lparr>physical_ingress := local_ingress (sys_ring t)\<rparr>\<rparr>)"

inductive cons_step :: "'a spsc_sys \<Rightarrow> 'a spsc_sys \<Rightarrow> bool" where
  c_call: "cons_at t = C_Idle \<Longrightarrow> cons_step t (t\<lparr>cons_at := C_Start\<rparr>)"
| c_item: "cons_at t = C_Start \<Longrightarrow> \<not> empty_view (sys_ring t) \<Longrightarrow> cons_step t (t\<lparr>cons_at := C_Item\<rparr>)"
| c_refresh: "cons_at t = C_Start \<Longrightarrow> empty_view (sys_ring t) \<Longrightarrow>
    held_since (cached_ingress (sys_ring t)) (physical_ingress (sys_ring t)) v \<Longrightarrow>
    cons_step t (t\<lparr>cons_at := C_Retry, sys_ring := (sys_ring t)\<lparr>cached_ingress := v\<rparr>\<rparr>)"
| c_empty: "cons_at t = C_Retry \<Longrightarrow> empty_view (sys_ring t) \<Longrightarrow> cons_step t (t\<lparr>cons_at := C_Idle\<rparr>)"
| c_item2: "cons_at t = C_Retry \<Longrightarrow> \<not> empty_view (sys_ring t) \<Longrightarrow> cons_step t (t\<lparr>cons_at := C_Item\<rparr>)"
| c_read: "cons_at t = C_Item \<Longrightarrow>
    cons_step t (t\<lparr>cons_at := C_Got (ring_buf (sys_ring t) ! slot (ring_cap (sys_ring t)) (local_egress (sys_ring t)))\<rparr>)"
| c_bump: "cons_at t = C_Got v \<Longrightarrow>
    cons_step t (t\<lparr>cons_at := C_Bumped v, sys_ring := (sys_ring t)\<lparr>local_egress := local_egress (sys_ring t) + 1\<rparr>\<rparr>)"
| c_publish: "cons_at t = C_Bumped v \<Longrightarrow>
    cons_step t (t\<lparr>cons_at := C_Idle, popped := popped t @ [v],
      sys_ring := (sys_ring t)\<lparr>physical_egress := local_egress (sys_ring t)\<rparr>\<rparr>)"

definition sys_step :: "'a spsc_sys \<Rightarrow> 'a spsc_sys \<Rightarrow> bool" where
  "sys_step t t' \<longleftrightarrow> prod_step t t' \<or> cons_step t t'"

inductive_cases prod_stepE: "prod_step t t'"

inductive_cases cons_stepE: "cons_step t t'"

subsection \<open>The invariant\<close>

text \<open>What is published: the slots between the two gates.\<close>

definition published :: "'a ring_state \<Rightarrow> 'a list" where
  "published r = cells (ring_buf r) (physical_egress r) (unat (physical_ingress r - physical_egress r))"

fun prod_inv :: "'a prod_pc \<Rightarrow> 'a ring_state \<Rightarrow> bool" where
  "prod_inv (P_Room x) r \<longleftrightarrow> local_ingress r = physical_ingress r \<and> unat (physical_ingress r - cached_egress r) < ring_cap r"
| "prod_inv (P_Wrote x) r \<longleftrightarrow> local_ingress r = physical_ingress r \<and> unat (physical_ingress r - cached_egress r) < ring_cap r
     \<and> ring_buf r ! slot (ring_cap r) (physical_ingress r) = x"
| "prod_inv (P_Bumped x) r \<longleftrightarrow> local_ingress r = physical_ingress r + 1 \<and> unat (physical_ingress r - cached_egress r) < ring_cap r
     \<and> ring_buf r ! slot (ring_cap r) (physical_ingress r) = x"
| "prod_inv _ r \<longleftrightarrow> local_ingress r = physical_ingress r"

fun cons_inv :: "'a cons_pc \<Rightarrow> 'a ring_state \<Rightarrow> bool" where
  "cons_inv C_Item r \<longleftrightarrow> local_egress r = physical_egress r \<and> cached_ingress r \<noteq> physical_egress r"
| "cons_inv (C_Got v) r \<longleftrightarrow> local_egress r = physical_egress r \<and> cached_ingress r \<noteq> physical_egress r
     \<and> ring_buf r ! slot (ring_cap r) (physical_egress r) = v"
| "cons_inv (C_Bumped v) r \<longleftrightarrow> local_egress r = physical_egress r + 1 \<and> cached_ingress r \<noteq> physical_egress r
     \<and> ring_buf r ! slot (ring_cap r) (physical_egress r) = v"
| "cons_inv _ r \<longleftrightarrow> local_egress r = physical_egress r"

definition gates_ok :: "'a ring_state \<Rightarrow> bool" where
  "gates_ok r \<longleftrightarrow> pow2_cap (ring_cap r)
     \<and> unat (physical_ingress r - physical_egress r) \<le> unat (physical_ingress r - cached_egress r)
     \<and> unat (physical_ingress r - cached_egress r) \<le> ring_cap r
     \<and> unat (cached_ingress r - physical_egress r) \<le> unat (physical_ingress r - physical_egress r)"

definition sys_inv :: "'a spsc_sys \<Rightarrow> bool" where
  "sys_inv t \<longleftrightarrow> gates_ok (sys_ring t) \<and> prod_inv (prod_at t) (sys_ring t) \<and> cons_inv (cons_at t) (sys_ring t)
     \<and> pushed t = popped t @ published (sys_ring t)"

text \<open>How many accesses of its own a call can still need.\<close>

fun prod_rank :: "'a prod_pc \<Rightarrow> nat" where
  "prod_rank P_Idle = 0" | "prod_rank (P_Bumped x) = 1" | "prod_rank (P_Wrote x) = 2"
| "prod_rank (P_Room x) = 3" | "prod_rank (P_Retry x) = 4" | "prod_rank (P_Start x) = 5"

fun cons_rank :: "'a cons_pc \<Rightarrow> nat" where
  "cons_rank C_Idle = 0" | "cons_rank (C_Bumped v) = 1" | "cons_rank (C_Got v) = 2"
| "cons_rank C_Item = 3" | "cons_rank C_Retry = 4" | "cons_rank C_Start = 5"

lemma sys_inv_new: "ring_wf s \<Longrightarrow> sys_inv (sys_new s)"
  by (simp add: sys_inv_def sys_new_def gates_ok_def published_def ring_wf_def ring_contents_def ring_fill_def)

lemma gates_bounds:
  assumes "gates_ok r"
  shows "ring_cap r < 2 ^ 64" "unat (physical_ingress r - physical_egress r) \<le> ring_cap r"
  using assms pow2_cap_less [of "ring_cap r"] by (auto simp: gates_ok_def)

text \<open>A gate value seen late is still between the shadow and the gate.\<close>

lemma held_since_behind:
  assumes "held_since seen now v" "unat (i - now) \<le> unat (i - seen :: u64)"
  shows "unat (i - now) \<le> unat (i - v)" "unat (i - v) \<le> unat (i - seen)"
proof -
  define a b c where "a = i - seen" "b = now - seen" "c = v - seen"
  have le: "unat c \<le> unat b" using assms(1) by (simp add: held_since_def a_b_c_def word_le_nat_alt)
  have r: "i - now = a - b" "i - v = a - c" by (simp_all add: a_b_c_def)
  have ba: "unat b \<le> unat a"
  proof (rule ccontr)
    assume "\<not> unat b \<le> unat a"
    then have "unat (a - b) = unat a + 2 ^ 64 - unat b" using unat_lt_u64 [of b] by (simp add: unat_sub_if_size word_size)
    moreover have "unat (a - b) \<le> unat a" using assms(2) unfolding r(1) by (simp only: a_b_c_def)
    ultimately show False using unat_lt_u64 [of b] by linarith
  qed
  have "unat (a - b) = unat a - unat b" "unat (a - c) = unat a - unat c"
    using ba le by (simp_all add: unat_sub word_le_nat_alt)
  then show "unat (i - now) \<le> unat (i - v)" "unat (i - v) \<le> unat (i - seen)"
    using le unfolding r by (simp_all flip: a_b_c_def(1))
qed

subsection \<open>What each access does to the published items\<close>

lemma ring_cap_upd [simp]:
  "ring_cap (r\<lparr>cached_egress := v\<rparr>) = ring_cap r" "ring_cap (r\<lparr>cached_ingress := v\<rparr>) = ring_cap r"
  "ring_cap (r\<lparr>local_ingress := v\<rparr>) = ring_cap r" "ring_cap (r\<lparr>local_egress := v\<rparr>) = ring_cap r"
  "ring_cap (r\<lparr>physical_ingress := v\<rparr>) = ring_cap r" "ring_cap (r\<lparr>physical_egress := v\<rparr>) = ring_cap r"
  "ring_cap (ring_poke i x r) = ring_cap r"
  by (simp_all add: ring_cap_def ring_poke_def)

lemma published_upd [simp]:
  "published (r\<lparr>cached_egress := v\<rparr>) = published r" "published (r\<lparr>cached_ingress := v\<rparr>) = published r"
  "published (r\<lparr>local_ingress := v\<rparr>) = published r" "published (r\<lparr>local_egress := v\<rparr>) = published r"
  by (simp_all add: published_def)

lemma gates_ok_local [simp]:
  "gates_ok (r\<lparr>local_ingress := v\<rparr>) = gates_ok r" "gates_ok (r\<lparr>local_egress := v\<rparr>) = gates_ok r"
  by (simp_all add: gates_ok_def)

lemma gates_refresh_egress: "gates_ok r \<Longrightarrow> held_since (cached_egress r) (physical_egress r) v \<Longrightarrow> gates_ok (r\<lparr>cached_egress := v\<rparr>)"
  using held_since_behind [of "cached_egress r" "physical_egress r" v "physical_ingress r"] by (auto simp: gates_ok_def)

lemma gates_refresh_ingress:
  assumes "gates_ok r" "held_since (cached_ingress r) (physical_ingress r) v" "cached_ingress r = physical_egress r"
  shows "gates_ok (r\<lparr>cached_ingress := v\<rparr>)"
  using assms by (simp add: gates_ok_def held_since_def word_le_nat_alt)

text \<open>The slot the producer writes is not the one the consumer reads, nor any published one.\<close>

lemma write_slot_free:
  assumes "gates_ok r" "unat (physical_ingress r - cached_egress r) < ring_cap r" "j < unat (physical_ingress r - physical_egress r)"
  shows "slot (ring_cap r) (physical_egress r + of_nat j) \<noteq> slot (ring_cap r) (physical_ingress r)"
proof -
  let ?n = "unat (physical_ingress r - physical_egress r)"
  have n: "?n < ring_cap r" using assms(1,2) by (simp add: gates_ok_def)
  have "slot (ring_cap r) (physical_egress r + of_nat j) \<noteq> slot (ring_cap r) (physical_egress r + of_nat ?n)"
    using slot_inj [of "ring_cap r" j ?n "physical_egress r"] assms n by (auto simp: gates_ok_def)
  then show ?thesis by simp
qed

lemma shadow_nonempty:
  "gates_ok r \<Longrightarrow> cached_ingress r \<noteq> physical_egress r \<Longrightarrow> 0 < unat (physical_ingress r - physical_egress r)"
  using unat_zero_iff [of "cached_ingress r" "physical_egress r"] by (auto simp: gates_ok_def)

lemma read_slot_free:
  "gates_ok r \<Longrightarrow> unat (physical_ingress r - cached_egress r) < ring_cap r \<Longrightarrow> cached_ingress r \<noteq> physical_egress r \<Longrightarrow>
   slot (ring_cap r) (physical_egress r) \<noteq> slot (ring_cap r) (physical_ingress r)"
  using write_slot_free [of r 0] shadow_nonempty [of r] by simp

lemma write_keeps:
  assumes "gates_ok r" "unat (physical_ingress r - cached_egress r) < ring_cap r"
  shows "published (ring_poke (slot (ring_cap r) (physical_ingress r)) x r) = published r"
    "gates_ok (ring_poke (slot (ring_cap r) (physical_ingress r)) x r)"
    "ring_buf (ring_poke (slot (ring_cap r) (physical_ingress r)) x r) ! slot (ring_cap r) (physical_ingress r) = x"
proof -
  let ?r = "ring_poke (slot (ring_cap r) (physical_ingress r)) x r"
  have c: "pow2_cap (ring_cap r)" using assms(1) by (simp add: gates_ok_def)
  show "published ?r = published r"
    using write_slot_free [OF assms, symmetric] by (intro nth_equalityI) (auto simp: published_def ring_poke_def ring_cap_def)
  show "gates_ok ?r" using assms(1) by (simp add: gates_ok_def) (simp add: ring_poke_def)
  show "ring_buf ?r ! slot (ring_cap r) (physical_ingress r) = x"
    using slot_less [OF c, of "physical_ingress r"] by (simp add: ring_poke_def ring_cap_def)
qed

lemma publish_ingress:
  assumes "gates_ok r" "unat (physical_ingress r - cached_egress r) < ring_cap r"
  shows "published (r\<lparr>physical_ingress := physical_ingress r + 1\<rparr>) = published r @ [ring_buf r ! slot (ring_cap r) (physical_ingress r)]"
    "gates_ok (r\<lparr>physical_ingress := physical_ingress r + 1\<rparr>)"
proof -
  note b = gates_bounds [OF assms(1)]
  let ?i = "physical_ingress r" and ?e = "physical_egress r" and ?c = "cached_egress r"
  have le: "unat (?i - ?e) \<le> unat (?i - ?c)" using assms(1) by (simp add: gates_ok_def)
  have "unat (?i - ?e + 1) = unat (?i - ?e) + 1" "unat (?i - ?c + 1) = unat (?i - ?c) + 1"
    using assms(2) b le by (auto simp del: One_nat_def intro!: unat_inc [simplified])
  then have s: "unat (?i + 1 - ?e) = unat (?i - ?e) + 1" "unat (?i + 1 - ?c) = unat (?i - ?c) + 1"
    by (simp_all add: algebra_simps)
  show "gates_ok (r\<lparr>physical_ingress := ?i + 1\<rparr>)" using assms s by (simp add: gates_ok_def)
  have "?e + of_nat (unat (?i - ?e)) = ?i" by simp
  then show "published (r\<lparr>physical_ingress := ?i + 1\<rparr>) = published r @ [ring_buf r ! slot (ring_cap r) ?i]"
    using cells_snoc [of "ring_buf r" ?e "unat (?i - ?e)"] s(1) by (simp add: published_def ring_cap_def)
qed

lemma publish_egress:
  assumes "gates_ok r" "cached_ingress r \<noteq> physical_egress r"
  shows "published r = ring_buf r ! slot (ring_cap r) (physical_egress r) # published (r\<lparr>physical_egress := physical_egress r + 1\<rparr>)"
    "gates_ok (r\<lparr>physical_egress := physical_egress r + 1\<rparr>)"
proof -
  let ?i = "physical_ingress r" and ?e = "physical_egress r" and ?c = "cached_ingress r"
  have pos: "0 < unat (?i - ?e)" by (rule shadow_nonempty [OF assms])
  have "?i - ?e \<noteq> 0" "?c - ?e \<noteq> 0" using pos assms(2) by auto
  then have "unat (?i - ?e - 1) = unat (?i - ?e) - 1" "unat (?c - ?e - 1) = unat (?c - ?e) - 1"
    by (simp_all only: unat_dec not_False_eq_True)
  then have s: "unat (?i - (?e + 1)) = unat (?i - ?e) - 1" "unat (?c - (?e + 1)) = unat (?c - ?e) - 1"
    by (simp_all add: diff_diff_eq)
  show "gates_ok (r\<lparr>physical_egress := ?e + 1\<rparr>)" using assms(1) s by (auto simp: gates_ok_def)
  show "published r = ring_buf r ! slot (ring_cap r) ?e # published (r\<lparr>physical_egress := ?e + 1\<rparr>)"
    using cells_Cons [OF pos, of "ring_buf r" ?e] s(1) by (simp add: published_def ring_cap_def)
qed

lemma full_view_room: "gates_ok r \<Longrightarrow> \<not> full_view r \<Longrightarrow> unat (local_ingress r - cached_egress r) < ring_cap r"
  using gates_bounds(1) [of r] by (simp add: word_le_nat_alt unat_of_nat take_bit_nat_def)

subsection \<open>Every step of either thread keeps the invariant\<close>

text \<open>A thread's own steps do not disturb what the other thread relies on.\<close>

lemma cons_inv_frame [simp]:
  "cons_inv p (r\<lparr>cached_egress := v\<rparr>) = cons_inv p r" "cons_inv p (r\<lparr>local_ingress := v\<rparr>) = cons_inv p r"
  "cons_inv p (r\<lparr>physical_ingress := v\<rparr>) = cons_inv p r"
  by (cases p; simp)+

lemma prod_inv_frame [simp]:
  "prod_inv p (r\<lparr>cached_ingress := v\<rparr>) = prod_inv p r" "prod_inv p (r\<lparr>local_egress := v\<rparr>) = prod_inv p r"
  "prod_inv p (r\<lparr>physical_egress := v\<rparr>) = prod_inv p r"
  by (cases p; simp)+

lemma cons_inv_write:
  assumes "gates_ok r" "unat (physical_ingress r - cached_egress r) < ring_cap r" "cons_inv p r"
  shows "cons_inv p (ring_poke (slot (ring_cap r) (physical_ingress r)) x r)"
  using assms(3) read_slot_free [OF assms(1,2)] by (cases p) (auto simp: ring_poke_def ring_cap_def)

lemma prod_step_inv: "prod_step t t' \<Longrightarrow> sys_inv t \<Longrightarrow> sys_inv t'"
proof (induction rule: prod_step.induct)
  case (p_call t x)
  then show ?case by (simp add: sys_inv_def)
next
  case (p_room t x)
  then show ?case using full_view_room [of "sys_ring t"] by (simp add: sys_inv_def)
next
  case (p_refresh t x v)
  then show ?case using gates_refresh_egress [of "sys_ring t" v] by (simp add: sys_inv_def)
next
  case (p_full t x)
  then show ?case by (simp add: sys_inv_def)
next
  case (p_room2 t x)
  then show ?case using full_view_room [of "sys_ring t"] by (simp add: sys_inv_def)
next
  case (p_write t x)
  then have i: "gates_ok (sys_ring t)" "local_ingress (sys_ring t) = physical_ingress (sys_ring t)"
      "unat (physical_ingress (sys_ring t) - cached_egress (sys_ring t)) < ring_cap (sys_ring t)" "cons_inv (cons_at t) (sys_ring t)"
      "pushed t = popped t @ published (sys_ring t)"
    by (simp_all add: sys_inv_def)
  then show ?case using write_keeps [OF i(1,3), of x] cons_inv_write [OF i(1,3,4), of x]
    by (simp add: sys_inv_def) (simp add: ring_poke_def)
next
  case (p_bump t x)
  then show ?case by (simp add: sys_inv_def)
next
  case (p_publish t x)
  then have i: "gates_ok (sys_ring t)" "unat (physical_ingress (sys_ring t) - cached_egress (sys_ring t)) < ring_cap (sys_ring t)"
    by (simp_all add: sys_inv_def)
  from p_publish publish_ingress [OF i] show ?case by (auto simp: sys_inv_def)
qed

lemma cons_step_inv: "cons_step t t' \<Longrightarrow> sys_inv t \<Longrightarrow> sys_inv t'"
proof (induction rule: cons_step.induct)
  case (c_refresh t v)
  then show ?case using gates_refresh_ingress [of "sys_ring t" v] by (simp add: sys_inv_def)
next
  case (c_publish t v)
  then have i: "gates_ok (sys_ring t)" "cached_ingress (sys_ring t) \<noteq> physical_egress (sys_ring t)"
    by (simp_all add: sys_inv_def)
  from c_publish publish_egress [OF i] show ?case by (auto simp: sys_inv_def)
qed (auto simp: sys_inv_def)

lemma sys_reachable_inv: "sys_step\<^sup>*\<^sup>* t t' \<Longrightarrow> sys_inv t \<Longrightarrow> sys_inv t'"
  by (induction rule: rtranclp_induct) (auto simp: sys_step_def intro: prod_step_inv cons_step_inv)

subsection \<open>The sequential operations are runs of one thread\<close>

lemma held_since_now: "held_since seen now now"
  by (simp add: held_since_def)

text \<open>The accesses of a push once there is room, and of a pop once there is an item.\<close>

lemma prod_run_room:
  assumes "prod_at t = P_Room x"
  shows "prod_step\<^sup>*\<^sup>* t (t\<lparr>prod_at := P_Idle, pushed := pushed t @ [x], sys_ring := ring_store x (sys_ring t)\<rparr>)"
proof -
  let ?r = "sys_ring t"
  let ?r1 = "ring_poke (slot (ring_cap ?r) (local_ingress ?r)) x ?r"
  let ?t1 = "t\<lparr>prod_at := P_Wrote x, sys_ring := ?r1\<rparr>"
  let ?t2 = "?t1\<lparr>prod_at := P_Bumped x, sys_ring := ?r1\<lparr>local_ingress := local_ingress ?r1 + 1\<rparr>\<rparr>"
  have "prod_step t ?t1" using p_write [OF assms] .
  moreover have "prod_step ?t1 ?t2" using p_bump [of ?t1 x] by simp
  moreover have "prod_step ?t2 (t\<lparr>prod_at := P_Idle, pushed := pushed t @ [x], sys_ring := ring_store x ?r\<rparr>)"
    using p_publish [of ?t2 x] by (simp add: ring_store_def ring_poke_def)
  ultimately show ?thesis by (meson rtranclp.rtrancl_refl rtranclp.rtrancl_into_rtrancl)
qed

lemma cons_run_item:
  assumes "cons_at t = C_Item"
  shows "cons_step\<^sup>*\<^sup>* t (t\<lparr>cons_at := C_Idle,
    popped := popped t @ [ring_buf (sys_ring t) ! slot (ring_cap (sys_ring t)) (local_egress (sys_ring t))], sys_ring := ring_take (sys_ring t)\<rparr>)"
proof -
  let ?r = "sys_ring t"
  let ?v = "ring_buf ?r ! slot (ring_cap ?r) (local_egress ?r)"
  let ?t1 = "t\<lparr>cons_at := C_Got ?v\<rparr>"
  let ?t2 = "?t1\<lparr>cons_at := C_Bumped ?v, sys_ring := ?r\<lparr>local_egress := local_egress ?r + 1\<rparr>\<rparr>"
  have "cons_step t ?t1" using c_read [OF assms] .
  moreover have "cons_step ?t1 ?t2" using c_bump [of ?t1 ?v] by simp
  moreover have "cons_step ?t2 (t\<lparr>cons_at := C_Idle, popped := popped t @ [?v], sys_ring := ring_take ?r\<rparr>)"
    using c_publish [of ?t2 ?v] by (simp add: ring_take_def)
  ultimately show ?thesis by (meson rtranclp.rtrancl_refl rtranclp.rtrancl_into_rtrancl)
qed

lemma sc_try_push_run:
  assumes "prod_at t = P_Idle" "sc_try_push x (sys_ring t) = (ok, r')"
  shows "prod_step\<^sup>*\<^sup>* t (t\<lparr>prod_at := P_Idle, pushed := pushed t @ (if ok then [x] else []), sys_ring := r'\<rparr>)"
proof -
  let ?r = "sys_ring t" and ?t1 = "t\<lparr>prod_at := P_Start x\<rparr>"
  let ?t2 = "t\<lparr>prod_at := P_Retry x, sys_ring := ?r\<lparr>cached_egress := physical_egress ?r\<rparr>\<rparr>"
  have s1: "prod_step\<^sup>*\<^sup>* t ?t1" using p_call [OF assms(1)] by (rule r_into_rtranclp)
  consider (room) "\<not> full_view ?r" | (full) "full_view ?r" "full_view (sys_ring ?t2)"
    | (retry) "full_view ?r" "\<not> full_view (sys_ring ?t2)" by blast
  then show ?thesis
  proof cases
    case room
    then have e: "ok = True" "r' = ring_store x ?r"
      using assms(2) by (auto simp: sc_try_push_def refresh_egress_def ring_store_def Let_def)
    have "prod_step ?t1 (?t1\<lparr>prod_at := P_Room x\<rparr>)" using p_room [of ?t1 x] room by simp
    with s1 have "prod_step\<^sup>*\<^sup>* t (t\<lparr>prod_at := P_Room x\<rparr>)" by simp
    from rtranclp_trans [OF this prod_run_room] show ?thesis by (simp add: e)
  next
    case full
    then have e: "ok = False" "r' = ?r\<lparr>cached_egress := physical_egress ?r\<rparr>"
      using assms(2) by (auto simp: sc_try_push_def refresh_egress_def Let_def)
    have "prod_step ?t1 ?t2" using p_refresh [of ?t1 x] full(1) held_since_now by simp
    moreover have "prod_step ?t2 (?t2\<lparr>prod_at := P_Idle\<rparr>)" using p_full [of ?t2 x] full(2) by simp
    ultimately have "prod_step\<^sup>*\<^sup>* t (?t2\<lparr>prod_at := P_Idle\<rparr>)" using s1 by (meson rtranclp.rtrancl_into_rtrancl)
    moreover have "?t2\<lparr>prod_at := P_Idle\<rparr> = t\<lparr>prod_at := P_Idle, pushed := pushed t @ (if ok then [x] else []), sys_ring := r'\<rparr>"
      by (cases t) (simp add: e)
    ultimately show ?thesis by simp
  next
    case retry
    then have e: "ok = True" "r' = ring_store x (sys_ring ?t2)"
      using assms(2) by (auto simp: sc_try_push_def refresh_egress_def ring_store_def Let_def)
    have "prod_step ?t1 ?t2" using p_refresh [of ?t1 x] retry(1) held_since_now by simp
    moreover have "prod_step ?t2 (?t2\<lparr>prod_at := P_Room x\<rparr>)" using p_room2 [of ?t2 x] retry(2) by simp
    ultimately have "prod_step\<^sup>*\<^sup>* t (?t2\<lparr>prod_at := P_Room x\<rparr>)" using s1 by (meson rtranclp.rtrancl_into_rtrancl)
    from rtranclp_trans [OF this prod_run_room] show ?thesis by (simp add: e)
  qed
qed

lemma sc_try_pop_run:
  assumes "cons_at t = C_Idle" "sc_try_pop (sys_ring t) = (v, r')"
  shows "cons_step\<^sup>*\<^sup>* t (t\<lparr>cons_at := C_Idle, popped := popped t @ (case v of None \<Rightarrow> [] | Some y \<Rightarrow> [y]), sys_ring := r'\<rparr>)"
proof -
  let ?r = "sys_ring t" and ?t1 = "t\<lparr>cons_at := C_Start\<rparr>"
  let ?t2 = "t\<lparr>cons_at := C_Retry, sys_ring := ?r\<lparr>cached_ingress := physical_ingress ?r\<rparr>\<rparr>"
  have s1: "cons_step\<^sup>*\<^sup>* t ?t1" using c_call [OF assms(1)] by (rule r_into_rtranclp)
  have r: "cons_step ?t1 ?t2" if "empty_view ?r" using c_refresh [of ?t1] that held_since_now by simp
  consider (item) "\<not> empty_view ?r" | (empty) "empty_view ?r" "empty_view (sys_ring ?t2)"
    | (retry) "empty_view ?r" "\<not> empty_view (sys_ring ?t2)" by blast
  then show ?thesis
  proof cases
    case item
    then have e: "v = Some (ring_buf ?r ! slot (ring_cap ?r) (local_egress ?r))" "r' = ring_take ?r"
      using assms(2) by (auto simp: sc_try_pop_def refresh_ingress_def ring_take_def Let_def)
    have "cons_step ?t1 (?t1\<lparr>cons_at := C_Item\<rparr>)" using c_item [of ?t1] item by simp
    with s1 have "cons_step\<^sup>*\<^sup>* t (t\<lparr>cons_at := C_Item\<rparr>)" by simp
    from rtranclp_trans [OF this cons_run_item] show ?thesis by (simp add: e)
  next
    case empty
    then have e: "v = None" "r' = ?r\<lparr>cached_ingress := physical_ingress ?r\<rparr>"
      using assms(2) by (auto simp: sc_try_pop_def refresh_ingress_def Let_def)
    have "cons_step ?t2 (?t2\<lparr>cons_at := C_Idle\<rparr>)" using c_empty [of ?t2] empty(2) by simp
    with r [OF empty(1)] have "cons_step\<^sup>*\<^sup>* t (?t2\<lparr>cons_at := C_Idle\<rparr>)" using s1 by (meson rtranclp.rtrancl_into_rtrancl)
    moreover have "?t2\<lparr>cons_at := C_Idle\<rparr> = t\<lparr>cons_at := C_Idle, popped := popped t @ (case v of None \<Rightarrow> [] | Some y \<Rightarrow> [y]), sys_ring := r'\<rparr>"
      by (cases t) (simp add: e)
    ultimately show ?thesis by simp
  next
    case retry
    then have e: "v = Some (ring_buf ?r ! slot (ring_cap ?r) (local_egress ?r))" "r' = ring_take (sys_ring ?t2)"
      using assms(2) by (auto simp: sc_try_pop_def refresh_ingress_def ring_take_def Let_def)
    have "cons_step ?t2 (?t2\<lparr>cons_at := C_Item\<rparr>)" using c_item2 [of ?t2] retry(2) by simp
    with r [OF retry(1)] have "cons_step\<^sup>*\<^sup>* t (?t2\<lparr>cons_at := C_Item\<rparr>)" using s1 by (meson rtranclp.rtrancl_into_rtrancl)
    from rtranclp_trans [OF this cons_run_item] show ?thesis by (simp add: e)
  qed
qed

subsection \<open>One call among the other thread's steps\<close>

text \<open>\<open>push_call t n u\<close>: from \<open>t\<close>, inside a call of \<^verbatim>\<open>try_push\<close>, the producer has made \<open>n\<close> accesses
  of that call and the consumer any number, and \<open>u\<close> is reached; \<open>pop_call\<close> the other way round.\<close>

inductive push_call :: "'a spsc_sys \<Rightarrow> nat \<Rightarrow> 'a spsc_sys \<Rightarrow> bool" where
  push_call_start: "push_call t 0 t"
| push_call_own: "push_call t n u \<Longrightarrow> prod_at u \<noteq> P_Idle \<Longrightarrow> prod_step u w \<Longrightarrow> push_call t (Suc n) w"
| push_call_other: "push_call t n u \<Longrightarrow> cons_step u w \<Longrightarrow> push_call t n w"

inductive pop_call :: "'a spsc_sys \<Rightarrow> nat \<Rightarrow> 'a spsc_sys \<Rightarrow> bool" where
  pop_call_start: "pop_call t 0 t"
| pop_call_own: "pop_call t n u \<Longrightarrow> cons_at u \<noteq> C_Idle \<Longrightarrow> cons_step u w \<Longrightarrow> pop_call t (Suc n) w"
| pop_call_other: "pop_call t n u \<Longrightarrow> prod_step u w \<Longrightarrow> pop_call t n w"

lemma prod_not_blocked: "\<exists>w. prod_step u w"
  by (cases "prod_at u"; cases "full_view (sys_ring u)") (blast intro: prod_step.intros held_since_now)+

lemma cons_not_blocked: "\<exists>w. cons_step u w"
  by (cases "cons_at u"; cases "empty_view (sys_ring u)") (blast intro: cons_step.intros held_since_now)+

lemma cons_step_other:
  assumes "cons_step u w"
  shows "prod_at w = prod_at u" "pushed w = pushed u" "full_view (sys_ring w) = full_view (sys_ring u)"
  using assms by (auto elim!: cons_stepE simp: ring_cap_def)

lemma prod_step_other:
  assumes "prod_step u w"
  shows "cons_at w = cons_at u" "popped w = popped u" "empty_view (sys_ring w) = empty_view (sys_ring u)"
  using assms by (auto elim!: prod_stepE simp: ring_poke_def)

lemma push_call_course:
  assumes "push_call t n u" "prod_at t = P_Start x"
  shows "n + prod_rank (prod_at u) \<le> 5
     \<and> (case prod_at u of P_Idle \<Rightarrow> pushed u = pushed t @ [x] \<or> pushed u = pushed t \<and> full_view (sys_ring u)
        | P_Start y \<Rightarrow> y = x \<and> pushed u = pushed t | P_Retry y \<Rightarrow> y = x \<and> pushed u = pushed t | P_Room y \<Rightarrow> y = x \<and> pushed u = pushed t
        | P_Wrote y \<Rightarrow> y = x \<and> pushed u = pushed t | P_Bumped y \<Rightarrow> y = x \<and> pushed u = pushed t)"
  using assms
proof (induction rule: push_call.induct)
  case (push_call_other t n u w)
  then show ?case using cons_step_other [OF push_call_other.hyps(2)] by (cases "prod_at u") auto
next
  case (push_call_own t n u w)
  then show ?case by (auto elim!: prod_stepE)
qed simp

lemma pop_call_course:
  assumes "pop_call t n u" "cons_at t = C_Start"
  shows "n + cons_rank (cons_at u) \<le> 5
     \<and> (if cons_at u = C_Idle then (\<exists>v. popped u = popped t @ [v]) \<or> popped u = popped t \<and> empty_view (sys_ring u)
        else popped u = popped t)"
  using assms
proof (induction rule: pop_call.induct)
  case (pop_call_other t n u w)
  then show ?case using prod_step_other [OF pop_call_other.hyps(2)] by auto
next
  case (pop_call_own t n u w)
  then show ?case by (auto elim!: cons_stepE)
qed simp

lemma pop_call_steps: "pop_call t n u \<Longrightarrow> sys_step\<^sup>*\<^sup>* t u"
  by (induction rule: pop_call.induct) (auto simp: sys_step_def intro: rtranclp.rtrancl_into_rtrancl)

lemma pop_call_item:
  assumes "pop_call t n u" "sys_inv t" "popped u = popped t @ [v]"
  shows "pushed u ! length (popped t) = v"
  using sys_reachable_inv [OF pop_call_steps [OF assms(1)] assms(2)] assms(3) by (simp add: sys_inv_def nth_append)

subsection \<open>Properties\<close>

text \<open>
  (C3) First-in first-out under every interleaving of the two threads, with gate loads as stale as
  coherence allows: the items popped are a prefix of the items pushed, the rest is what lies
  published in the ring, and that never exceeds the capacity.
\<close>

theorem spsc_interleaved_fifo:
  assumes "ring_wf s" and "sys_step\<^sup>*\<^sup>* (sys_new s) t"
  shows "pushed t = popped t @ published (sys_ring t) \<and> length (published (sys_ring t)) \<le> ring_cap (sys_ring t)"
proof -
  have i: "sys_inv t" using sys_reachable_inv [OF assms(2) sys_inv_new [OF assms(1)]] .
  then show ?thesis using gates_bounds(2) [of "sys_ring t"] by (simp add: sys_inv_def published_def)
qed

theorem spsc_interleaved_fifo_witness:
  "\<exists>t. sys_step\<^sup>*\<^sup>* (sys_new (sc_new 2 (0::nat))) t \<and> pushed t = [7] \<and> popped t @ published (sys_ring t) = [7]"
proof -
  have wf: "ring_wf (sc_new 2 (0::nat))" "ring_contents (sc_new 2 (0::nat)) = []" "ring_cap (sc_new 2 (0::nat)) = sc_size 2"
    using sc_new_wf [of 2 "0::nat"] by auto
  obtain r where r: "sc_try_push 7 (sc_new 2 (0::nat)) = (True, r)"
    using sc.tpush_room [OF wf(1), of 7] wf sc_size_cap [of 2] by auto
  let ?t = "(sys_new (sc_new 2 (0::nat)))\<lparr>prod_at := P_Idle, pushed := [7], sys_ring := r\<rparr>"
  have "prod_step\<^sup>*\<^sup>* (sys_new (sc_new 2 (0::nat))) ?t"
    using sc_try_push_run [of "sys_new (sc_new 2 (0::nat))" 7 True r] r wf(2) by (simp add: sys_new_def)
  then have "sys_step\<^sup>*\<^sup>* (sys_new (sc_new 2 (0::nat))) ?t"
    by (rule rtranclp_mono [THEN predicate2D, rotated]) (auto simp: sys_step_def)
  with spsc_interleaved_fifo [OF wf(1) this] show ?thesis by (intro exI [of _ ?t]) auto
qed

text \<open>
  (C5) No data race on a slot: whenever the producer is about to write a slot and the consumer about
  to read one, they are different slots.
\<close>

theorem spsc_no_slot_race:
  assumes "ring_wf s" and "sys_step\<^sup>*\<^sup>* (sys_new s) t" and "prod_at t = P_Room x" and "cons_at t = C_Item"
  shows "slot (ring_cap (sys_ring t)) (local_ingress (sys_ring t)) \<noteq> slot (ring_cap (sys_ring t)) (local_egress (sys_ring t))"
proof -
  have i: "sys_inv t" using sys_reachable_inv [OF assms(2) sys_inv_new [OF assms(1)]] .
  then show ?thesis using read_slot_free [of "sys_ring t"] assms(3,4) by (simp add: sys_inv_def)
qed

theorem spsc_no_slot_race_witness:
  "\<exists>t. sys_step\<^sup>*\<^sup>* (sys_new (sc_new 2 (0::nat))) t \<and> prod_at t = P_Room 5 \<and> cons_at t = C_Item
     \<and> slot (ring_cap (sys_ring t)) (local_ingress (sys_ring t)) \<noteq> slot (ring_cap (sys_ring t)) (local_egress (sys_ring t))"
proof -
  let ?s = "sc_new 2 (0::nat)" and ?r = "ring_store 7 (sc_new 2 (0::nat))"
  have wf: "ring_wf ?s" "ring_contents ?s = []" using sc_new_wf [of 2 "0::nat"] by auto
  have cap: "ring_cap ?s = 2" "ring_cap ?r = 2"
    by (simp_all add: sc_new_def sc_size_def bit_ceil_def bit_ceil_from.simps ring_new_def ring_cap_def ring_store_def)
  have cur: "local_ingress ?r = 1" "cached_egress ?r = 0" "local_egress ?r = 0" "cached_ingress ?r = 0" "physical_ingress ?r = 1"
    by (simp_all add: ring_store_def sc_new_def ring_new_def)
  have p: "sc_try_push 7 ?s = (True, ?r)"
    using cap by (simp add: sc_try_push_def refresh_egress_def Let_def ring_store_def) (simp add: sc_new_def ring_new_def)
  let ?t0 = "(sys_new ?s)\<lparr>prod_at := P_Idle, pushed := [7], sys_ring := ?r\<rparr>"
  let ?t1 = "?t0\<lparr>prod_at := P_Start 5\<rparr>"
  let ?t2 = "?t1\<lparr>prod_at := P_Room 5\<rparr>"
  let ?t3 = "?t2\<lparr>cons_at := C_Start\<rparr>"
  let ?t4 = "?t3\<lparr>cons_at := C_Retry, sys_ring := ?r\<lparr>cached_ingress := 1\<rparr>\<rparr>"
  let ?t5 = "?t4\<lparr>cons_at := C_Item\<rparr>"
  have "prod_step\<^sup>*\<^sup>* (sys_new ?s) ?t0"
    using sc_try_push_run [of "sys_new ?s" 7 True ?r] p wf(2) by (simp add: sys_new_def)
  then have "sys_step\<^sup>*\<^sup>* (sys_new ?s) ?t0"
    by (rule rtranclp_mono [THEN predicate2D, rotated]) (auto simp: sys_step_def)
  moreover have "sys_step ?t0 ?t1" unfolding sys_step_def using p_call [of ?t0 5] by simp
  moreover have "sys_step ?t1 ?t2" unfolding sys_step_def using p_room [of ?t1 5] cap cur by (simp add: word_le_nat_alt)
  moreover have "sys_step ?t2 ?t3" unfolding sys_step_def using c_call [of ?t2] by (simp add: sys_new_def)
  moreover have "sys_step ?t3 ?t4" unfolding sys_step_def using c_refresh [of ?t3 1] cur by (simp add: held_since_def)
  moreover have "sys_step ?t4 ?t5" unfolding sys_step_def using c_item2 [of ?t4] cur by simp
  ultimately have r: "sys_step\<^sup>*\<^sup>* (sys_new ?s) ?t5" by (meson rtranclp.rtrancl_into_rtrancl)
  have pc: "prod_at ?t5 = P_Room 5" "cons_at ?t5 = C_Item" by simp_all
  from r pc spsc_no_slot_race [OF wf(1) r pc] show ?thesis by blast
qed

text \<open>
  (C6) Both operations are wait-free and do what they return, in every state two threads can reach:
  a call of \<^verbatim>\<open>try_push\<close> that has made \<open>n\<close> accesses, among any number of accesses of the consumer, has
  at most five of them to make in all and can always make the next. Once it has returned, either its
  item alone was appended to what was pushed, or nothing was and the producer's view of the ring is
  full. Likewise for \<^verbatim>\<open>try_pop\<close>: it takes the oldest item, or finds its view of the ring empty.
\<close>

theorem spsc_wait_free:
  assumes "ring_wf s" and "sys_step\<^sup>*\<^sup>* (sys_new s) t"
  shows "(prod_at t = P_Start x \<longrightarrow> push_call t n u \<longrightarrow> n \<le> 5
      \<and> (if prod_at u = P_Idle then pushed u = pushed t @ [x] \<or> pushed u = pushed t \<and> full_view (sys_ring u)
         else n < 5 \<and> pushed u = pushed t \<and> (\<exists>w. prod_step u w)))
   \<and> (cons_at t = C_Start \<longrightarrow> pop_call t n u \<longrightarrow> n \<le> 5
      \<and> (if cons_at u = C_Idle then popped u = popped t @ [pushed u ! length (popped t)] \<or> popped u = popped t \<and> empty_view (sys_ring u)
         else n < 5 \<and> popped u = popped t \<and> (\<exists>w. cons_step u w)))"
proof (intro conjI impI)
  have i: "sys_inv t" using sys_reachable_inv [OF assms(2) sys_inv_new [OF assms(1)]] .
  show "n \<le> 5" if "prod_at t = P_Start x" "push_call t n u" using push_call_course [OF that(2,1)] by (cases "prod_at u") auto
  show "n \<le> 5" if "cons_at t = C_Start" "pop_call t n u" using pop_call_course [OF that(2,1)] by (cases "cons_at u") auto
  show "if prod_at u = P_Idle then pushed u = pushed t @ [x] \<or> pushed u = pushed t \<and> full_view (sys_ring u)
      else n < 5 \<and> pushed u = pushed t \<and> (\<exists>w. prod_step u w)" if "prod_at t = P_Start x" "push_call t n u"
    using push_call_course [OF that(2,1)] prod_not_blocked [of u] by (cases "prod_at u") auto
  show "if cons_at u = C_Idle then popped u = popped t @ [pushed u ! length (popped t)] \<or> popped u = popped t \<and> empty_view (sys_ring u)
      else n < 5 \<and> popped u = popped t \<and> (\<exists>w. cons_step u w)" if "cons_at t = C_Start" "pop_call t n u"
    using pop_call_course [OF that(2,1)] pop_call_item [OF that(2) i] cons_not_blocked [of u] by (cases "cons_at u") auto
qed

theorem spsc_wait_free_witness:
  "\<exists>u. push_call ((sys_new (sc_new 2 (0::nat)))\<lparr>prod_at := P_Start 7\<rparr>) 4 u \<and> pushed u = [7]"
proof -
  let ?s = "sc_new 2 (0::nat)" and ?t = "(sys_new (sc_new 2 (0::nat)))\<lparr>prod_at := P_Start 7\<rparr>"
  have wf: "ring_wf ?s" "ring_contents ?s = []" using sc_new_wf [of 2 "0::nat"] by auto
  have "sys_step (sys_new ?s) ?t" unfolding sys_step_def using p_call [of "sys_new ?s" 7] by (simp add: sys_new_def)
  then have t: "sys_step\<^sup>*\<^sup>* (sys_new ?s) ?t" by simp
  have room: "\<not> full_view (sys_ring ?t)"
    by (simp add: sys_new_def sc_new_def sc_size_def bit_ceil_def bit_ceil_from.simps ring_new_def ring_cap_def word_le_nat_alt)
  obtain u1 where u1: "prod_step ?t u1" "prod_at u1 = P_Room 7" using p_room [of ?t 7] room by fastforce
  obtain u2 where u2: "prod_step u1 u2" "prod_at u2 = P_Wrote 7" using p_write [of u1 7] u1 by fastforce
  obtain u3 where u3: "prod_step u2 u3" "prod_at u3 = P_Bumped 7" using p_bump [of u2 7] u2 by fastforce
  obtain u4 where u4: "prod_step u3 u4" "prod_at u4 = P_Idle" "pushed u4 = pushed u3 @ [7]" using p_publish [of u3 7] u3 by fastforce
  have "push_call ?t 1 u1" using push_call_own [OF push_call_start _ u1(1)] by simp
  then have "push_call ?t 2 u2" using push_call_own [OF _ _ u2(1)] u1(2) by (simp add: numeral_2_eq_2)
  then have "push_call ?t 3 u3" using push_call_own [OF _ _ u3(1)] u2(2) by (simp add: numeral_3_eq_3 numeral_2_eq_2)
  then have c: "push_call ?t 4 u4" using push_call_own [OF _ _ u4(1)] u3(2) by (simp add: eval_nat_numeral)
  have "pushed u4 = pushed ?t @ [7] \<or> pushed u4 = pushed ?t \<and> full_view (sys_ring u4)"
    using spsc_wait_free [OF wf(1) t, of 7 4 u4] c u4(2) by simp
  then show ?thesis using c u4(3) wf(2) by (intro exI [of _ u4]) (auto simp: sys_new_def)
qed

end
