(* ===== verification/Spsc_Pool.thy ===== *)
theory Spsc_Pool
  imports Pool_Spec Spsc_Interleaving
begin

section \<open>\<^verbatim>\<open>core/spsc_pool.hpp\<close> and \<^verbatim>\<open>core/spsc_ring_pool.hpp\<close>\<close>

text \<open>
  Both pools map a block of nodes and keep the addresses of the free ones in an SPSC conduit. An
  address is a 64-bit word, \<open>0\<close> the null pointer. The operating system's \<^verbatim>\<open>mmap\<close> is a
  parameter: a function of the flags and the size that gives the address of the block, or
  \<open>None\<close> for \<^verbatim>\<open>MAP_FAILED\<close>. Construction and destruction of the objects in the nodes touch
  only the nodes, and have no part in the pool's own state. The blocking operations take the list
  of what the other thread does to the ring between two attempts.
\<close>

datatype mmap_flags = Map_Huge_Locked | Map_Locked | Map_Plain

record pool_state =
  memory_block :: u64
  pool_size_bytes :: u64
  free_ring :: "u64 ring_state"
  node_bytes :: nat
  pool_capacity :: nat

type_synonym ring_acts = "(u64 ring_state \<Rightarrow> u64 ring_state) list"

definition node_addr :: "u64 \<Rightarrow> nat \<Rightarrow> nat \<Rightarrow> u64" where
  "node_addr base bytes i = base + of_nat (i * bytes)"

definition ptr_opt :: "u64 \<Rightarrow> u64 option" where
  "ptr_opt p = (if p = 0 then None else Some p)"

subsection \<open>\<^verbatim>\<open>spsc_pool\<close>\<close>

text \<open>The constructor falls back from huge pages to locked to plain pages, then throws.\<close>

definition sp_map :: "(mmap_flags \<Rightarrow> u64 \<Rightarrow> u64 option) \<Rightarrow> u64 \<Rightarrow> u64 option" where
  "sp_map mmap sz =
     (case mmap Map_Huge_Locked sz of Some mem \<Rightarrow> Some mem
      | None \<Rightarrow> (case mmap Map_Locked sz of Some mem \<Rightarrow> Some mem
         | None \<Rightarrow> mmap Map_Plain sz))"

text \<open>The loop counts with a \<^verbatim>\<open>uint32_t\<close>, which wraps. \<open>None\<close> is a loop that does not end: a push that
  waits for room in the full ring.\<close>

partial_function (option) sp_fill :: "u64 \<Rightarrow> nat \<Rightarrow> u32 \<Rightarrow> nat \<Rightarrow> u64 ring_state \<Rightarrow> u64 ring_state option" where
  "sp_fill base bytes i cap r =
     (if unat i < cap then Option.bind (sc_push [] (node_addr base bytes (unat i)) r) (sp_fill base bytes (i + 1) cap)
      else Some r)"

text \<open>\<open>None\<close> is \<^verbatim>\<open>std::bad_alloc\<close>, or a loop that does not end.\<close>

definition sp_new :: "(mmap_flags \<Rightarrow> u64 \<Rightarrow> u64 option) \<Rightarrow> nat \<Rightarrow> nat \<Rightarrow> pool_state option" where
  "sp_new mmap cap bytes =
     (let sz = of_nat (cap * bytes)
      in case sp_map mmap sz of None \<Rightarrow> None
         | Some mem \<Rightarrow> map_option
             (\<lambda>r. \<lparr>memory_block = mem, pool_size_bytes = sz, free_ring = r, node_bytes = bytes, pool_capacity = cap\<rparr>)
             (sp_fill mem bytes 0 cap (sc_new cap 0)))"

definition sp_release :: "ring_acts \<Rightarrow> u64 \<Rightarrow> pool_state \<Rightarrow> pool_state option" where
  "sp_release others ptr s = map_option (\<lambda>r. s\<lparr>free_ring := r\<rparr>) (sc_push others ptr (free_ring s))"

definition sp_deleter_fn :: "ring_acts \<Rightarrow> u64 \<Rightarrow> pool_state \<Rightarrow> pool_state option" where
  "sp_deleter_fn others raw_ptr s = sp_release others raw_ptr s"

text \<open>
  The loop of \<^verbatim>\<open>release_batch\<close>: a push of nothing pauses, and lets the other thread act; \<open>None\<close>
  is a loop still spinning when the interferences end. \<open>W\<close> is the vector width.
\<close>

function sp_push_all :: "nat \<Rightarrow> ring_acts \<Rightarrow> u64 list \<Rightarrow> u64 ring_state \<Rightarrow> u64 ring_state option" where
  "sp_push_all W others ptrs r =
     (if ptrs = [] then Some r
      else let (n, r') = sc_push_batch W ptrs (of_nat (length ptrs)) r
           in if n = 0 then (case others of [] \<Rightarrow> None | f # fs \<Rightarrow> sp_push_all W fs ptrs (f r'))
              else sp_push_all W others (drop (unat n) ptrs) r')"
  by pat_completeness auto
termination
  by (relation "measure (\<lambda>(_, others, ptrs, _). length others + length ptrs)") (auto simp: word_greater_zero_iff unat_gt_0)

definition sp_release_batch :: "nat \<Rightarrow> ring_acts \<Rightarrow> u64 list \<Rightarrow> pool_state \<Rightarrow> pool_state option" where
  "sp_release_batch W others ptrs s = map_option (\<lambda>r. s\<lparr>free_ring := r\<rparr>) (sp_push_all W others ptrs (free_ring s))"

text \<open>\<^verbatim>\<open>release(managed_data&)\<close> and \<^verbatim>\<open>release(scoped_ptr&)\<close>: an empty handle fails the assertion of \<^verbatim>\<open>handle.release\<close>.\<close>

definition sp_release_handle :: "ring_acts \<Rightarrow> u64 \<Rightarrow> pool_state \<Rightarrow> pool_state option" where
  "sp_release_handle others item s =
     (case handle_release item of None \<Rightarrow> None
      | Some (raw, _) \<Rightarrow> if raw \<noteq> 0 then sp_release others raw s else Some s)"

definition sp_invalidate :: "nat \<Rightarrow> u64 \<Rightarrow> pool_state \<Rightarrow> pool_state" where
  "sp_invalidate W ptr s = s\<lparr>free_ring := sc_invalidate_by_ptr W 0 ptr (free_ring s)\<rparr>"

definition sp_make_raw :: "pool_state \<Rightarrow> u64 \<times> pool_state" where
  "sp_make_raw s =
     (let (v, r) = sc_try_pop (free_ring s)
      in (case v of Some raw_ptr \<Rightarrow> raw_ptr | None \<Rightarrow> 0, s\<lparr>free_ring := r\<rparr>))"

definition sp_make_batch :: "nat \<Rightarrow> u64 list \<Rightarrow> u64 \<Rightarrow> pool_state \<Rightarrow> u64 \<times> u64 list \<times> pool_state" where
  "sp_make_batch W out_ptrs cnt s =
     (let (actual, out, r) = sc_pop_batch W out_ptrs cnt (free_ring s) in (actual, out, s\<lparr>free_ring := r\<rparr>))"

text \<open>\<^verbatim>\<open>make\<close> wraps the address in a handle, empty if there is none.\<close>

definition sp_make :: "pool_state \<Rightarrow> u64 \<times> pool_state" where
  "sp_make s = (let (raw_ptr, s') = sp_make_raw s in if raw_ptr = 0 then (0, s') else (raw_ptr, s'))"

definition sp_get_raw_ptr_by_id :: "u32 \<Rightarrow> pool_state \<Rightarrow> u64" where
  "sp_get_raw_ptr_by_id i s = node_addr (memory_block s) (node_bytes s) (unat i)"

definition sp_capacity :: "pool_state \<Rightarrow> nat" where
  "sp_capacity s = pool_capacity s"

definition sp_get_raw_ptr :: "pool_state \<Rightarrow> u64" where
  "sp_get_raw_ptr s = memory_block s"

definition sp_get_raw_ptr_size :: "pool_state \<Rightarrow> u64" where
  "sp_get_raw_ptr_size s = pool_size_bytes s"

subsection \<open>\<^verbatim>\<open>spsc_ring_pool\<close>\<close>

text \<open>\<^verbatim>\<open>os_memory_provider::allocate\<close>: the size is rounded up to 2 MB; an address of 0 counts as a failure.\<close>

definition os_allocate :: "(mmap_flags \<Rightarrow> u64 \<Rightarrow> u64 option) \<Rightarrow> u64 \<Rightarrow> bool \<Rightarrow> (u64 \<times> u64) option" where
  "os_allocate mmap sz strict_hugepages =
     (let huge_page_size = 2 * 1024 * 1024 :: u64;
          size_bytes = (sz + huge_page_size - 1) AND NOT (huge_page_size - 1);
          raw = (case mmap Map_Huge_Locked size_bytes of Some mem \<Rightarrow> Some mem
                 | None \<Rightarrow> if strict_hugepages then None
                           else (case mmap Map_Locked size_bytes of Some mem \<Rightarrow> Some mem
                                 | None \<Rightarrow> mmap Map_Plain size_bytes))
      in case raw of None \<Rightarrow> None | Some mem \<Rightarrow> if mem = 0 then None else Some (mem, size_bytes))"

function rp_fill :: "u64 \<Rightarrow> nat \<Rightarrow> nat \<Rightarrow> nat \<Rightarrow> u64 ring_state \<Rightarrow> u64 ring_state option" where
  "rp_fill base bytes i cap r =
     (if i < cap then (case rc_push [] (node_addr base bytes i) r of
          None \<Rightarrow> None | Some r' \<Rightarrow> rp_fill base bytes (i + 1) cap r')
      else Some r)"
  by pat_completeness auto
termination
  by (relation "measure (\<lambda>(_, _, i, cap, _). cap - i)") auto

definition rp_new :: "(mmap_flags \<Rightarrow> u64 \<Rightarrow> u64 option) \<Rightarrow> nat \<Rightarrow> nat \<Rightarrow> pool_state option" where
  "rp_new mmap cap bytes =
     (case os_allocate mmap (of_nat (cap * bytes)) False of None \<Rightarrow> None
      | Some (mem, size_bytes) \<Rightarrow> map_option
          (\<lambda>r. \<lparr>memory_block = mem, pool_size_bytes = size_bytes, free_ring = r, node_bytes = bytes, pool_capacity = cap\<rparr>)
          (rp_fill mem bytes 0 cap (rc_new cap 0)))"

definition rp_release :: "ring_acts \<Rightarrow> u64 \<Rightarrow> pool_state \<Rightarrow> pool_state option" where
  "rp_release others ptr s = map_option (\<lambda>r. s\<lparr>free_ring := r\<rparr>) (rc_push others ptr (free_ring s))"

definition rp_release_to_ring :: "ring_acts \<Rightarrow> u64 \<Rightarrow> pool_state \<Rightarrow> pool_state option" where
  "rp_release_to_ring others raw_ptr s = rp_release others raw_ptr s"

definition rp_deleter_fn :: "ring_acts \<Rightarrow> u64 \<Rightarrow> pool_state \<Rightarrow> pool_state option" where
  "rp_deleter_fn others raw_ptr s = rp_release_to_ring others raw_ptr s"

definition rp_release_handle :: "ring_acts \<Rightarrow> u64 \<Rightarrow> pool_state \<Rightarrow> pool_state option" where
  "rp_release_handle others item s =
     (case handle_release item of None \<Rightarrow> None
      | Some (raw, _) \<Rightarrow> if raw \<noteq> 0 then rp_release others raw s else Some s)"

text \<open>\<^verbatim>\<open>release_batch\<close> pushes one by one; here nobody interferes.\<close>

fun rp_release_batch :: "u64 list \<Rightarrow> pool_state \<Rightarrow> pool_state option" where
  "rp_release_batch [] s = Some s"
| "rp_release_batch (p # ptrs) s =
     (case rp_release [] p s of None \<Rightarrow> None | Some s' \<Rightarrow> rp_release_batch ptrs s')"

definition rp_make_raw :: "pool_state \<Rightarrow> u64 \<times> pool_state" where
  "rp_make_raw s =
     (let (v, r) = rc_try_pop (free_ring s)
      in (case v of Some raw_ptr \<Rightarrow> raw_ptr | None \<Rightarrow> 0, s\<lparr>free_ring := r\<rparr>))"

text \<open>\<^verbatim>\<open>make_batch\<close>: what it writes to the output array, in order.\<close>

fun rp_make_batch :: "nat \<Rightarrow> pool_state \<Rightarrow> u64 list \<times> pool_state" where
  "rp_make_batch 0 s = ([], s)"
| "rp_make_batch (Suc n) s =
     (let (ptr, s1) = rp_make_raw s
      in if ptr = 0 then ([], s1) else let (ps, s2) = rp_make_batch n s1 in (ptr # ps, s2))"

definition rp_make :: "pool_state \<Rightarrow> u64 \<times> pool_state" where
  "rp_make s = (let (raw_ptr, s') = rp_make_raw s in if raw_ptr = 0 then (0, s') else (raw_ptr, s'))"

definition rp_get_raw_ptr_by_id :: "u32 \<Rightarrow> pool_state \<Rightarrow> u64" where
  "rp_get_raw_ptr_by_id i s = node_addr (memory_block s) (node_bytes s) (unat i)"

definition rp_get_raw_ptr :: "pool_state \<Rightarrow> u64" where
  "rp_get_raw_ptr s = memory_block s"

definition rp_get_raw_ptr_size :: "pool_state \<Rightarrow> u64" where
  "rp_get_raw_ptr_size s = of_nat (pool_capacity s * node_bytes s)"

definition rp_capacity :: "pool_state \<Rightarrow> nat" where
  "rp_capacity s = pool_capacity s"

subsection \<open>The pools' view for a client\<close>

definition pool_wf :: "pool_state \<Rightarrow> bool" where
  "pool_wf s \<longleftrightarrow> ring_wf (free_ring s) \<and> 0 \<notin> set (ring_contents (free_ring s))"

definition pool_free :: "pool_state \<Rightarrow> u64 list" where
  "pool_free s = ring_contents (free_ring s)"

definition pool_slots :: "pool_state \<Rightarrow> nat" where
  "pool_slots s = ring_cap (free_ring s)"

definition sp_mk :: "pool_state \<Rightarrow> u64 option \<times> pool_state" where
  "sp_mk s = (let (p, s') = sp_make_raw s in (ptr_opt p, s'))"

definition sp_mkb :: "nat \<Rightarrow> nat \<Rightarrow> pool_state \<Rightarrow> u64 list \<times> pool_state" where
  "sp_mkb W n s = (let (k, out, s') = sp_make_batch W (replicate n 0) (of_nat n) s in (take (unat k) out, s'))"

definition rp_mk :: "pool_state \<Rightarrow> u64 option \<times> pool_state" where
  "rp_mk s = (let (p, s') = rp_make_raw s in (ptr_opt p, s'))"

declare rp_fill.simps [simp del] sp_push_all.simps [simp del]

lemmas pool_view = pool_wf_def pool_free_def pool_slots_def

subsection \<open>The pools keep the contract\<close>

lemma sc_push_room:
  "ring_wf r \<Longrightarrow> length (ring_contents r) < ring_cap r \<Longrightarrow>
   \<exists>r'. sc_push [] p r = Some r' \<and> ring_wf r' \<and> ring_contents r' = ring_contents r @ [p] \<and> ring_cap r' = ring_cap r"
  unfolding sc_push_def by (rule sc.spin_push_room)

lemma rc_push_eq: "rc_push = sc_push"
  by (simp add: fun_eq_iff rc_push_def sc_push_def rc_try_push_eq)

lemma sp_push_all_spec:
  assumes "ring_wf r" "length (ring_contents r) + length ps \<le> ring_cap r" "length ps < 2 ^ 64"
  shows "\<exists>r'. sp_push_all W others ps r = Some r' \<and> ring_wf r' \<and> ring_contents r' = ring_contents r @ ps \<and> ring_cap r' = ring_cap r"
  using assms
proof (induction ps arbitrary: r rule: length_induct)
  case (1 ps)
  show ?case
  proof (cases "ps = []")
    case True
    then show ?thesis using "1.prems" by (simp add: sp_push_all.simps)
  next
    case False
    have ux: "unat (of_nat (length ps) :: u64) = length ps" using "1.prems"(3) by (simp add: unat_of_nat_u64)
    then have m0: "of_nat (length ps) \<noteq> (0 :: u64)" using False by auto
    obtain n r1 where p: "sc_push_batch W ps (of_nat (length ps)) r = (of_nat n, r1)" "n \<le> length ps"
        "n = 0 \<longrightarrow> length (ring_contents r) = ring_cap r \<or> of_nat (length ps) = (0 :: u64)"
        "ring_contents r1 = ring_contents r @ take n ps" "ring_wf r1" "ring_cap r1 = ring_cap r"
      using sc_push_batch_spec [OF "1.prems"(1), of "of_nat (length ps)" ps W] ux by auto
    have n: "0 < n" using p(3) m0 False "1.prems"(2) by (cases n) auto
    have un: "unat (of_nat n :: u64) = n" using p(2) "1.prems"(3) by (simp add: unat_of_nat_u64)
    have step: "sp_push_all W others ps r = sp_push_all W others (drop n ps) r1"
      using False p(1) un n by (subst sp_push_all.simps) auto
    have l: "length (drop n ps) < length ps" using n False by simp
    from "1.IH" [rule_format, OF l p(5)] p "1.prems" step show ?thesis by simp
  qed
qed

lemma sp_mk_pop:
  "sp_mk s = (let (v, r) = sc_try_pop (free_ring s) in (case v of Some p \<Rightarrow> ptr_opt p | None \<Rightarrow> None, s\<lparr>free_ring := r\<rparr>))"
  by (auto simp: sp_mk_def sp_make_raw_def ptr_opt_def split: prod.split option.split)

lemma rp_mk_eq: "rp_mk = sp_mk"
  by (simp add: fun_eq_iff rp_mk_def sp_mk_def rp_make_raw_def sp_make_raw_def rc_try_pop_eq)

lemma sp_mk_none:
  assumes "pool_wf s" "pool_free s = []"
  shows "\<exists>s'. sp_mk s = (None, s') \<and> pool_wf s' \<and> pool_free s' = [] \<and> pool_slots s' = pool_slots s"
  using sc.tpop_empty [of "free_ring s"] assms by (auto simp: pool_view sp_mk_pop)

lemma sp_mk_some:
  assumes "pool_wf s" "pool_free s = p # ps"
  shows "\<exists>s'. sp_mk s = (Some p, s') \<and> pool_wf s' \<and> pool_free s' = ps \<and> pool_slots s' = pool_slots s"
  using sc.tpop_item [of "free_ring s" p ps] assms by (auto simp: pool_view sp_mk_pop ptr_opt_def)

lemma sp_mkb_popb: "sp_mkb W n s = (let (ps, r) = sc_popb W 0 n (free_ring s) in (ps, s\<lparr>free_ring := r\<rparr>))"
  by (simp add: sp_mkb_def sp_make_batch_def sc_popb_def split: prod.split)

lemma sp_mkb_take:
  assumes "pool_wf s" "n < 2 ^ 64"
  shows "\<exists>ps s'. sp_mkb W n s = (ps, s') \<and> pool_wf s' \<and> pool_free s = ps @ pool_free s' \<and> length ps \<le> n
    \<and> (ps = [] \<longrightarrow> n = 0 \<or> pool_free s = []) \<and> pool_slots s' = pool_slots s"
proof -
  obtain ps r where "sc_popb W 0 n (free_ring s) = (ps, r)" "ring_wf r" "ring_cap r = ring_cap (free_ring s)"
      "queue_allows (ring_cap (free_ring s)) (PopBatch n) (PoppedN ps) (ring_contents (free_ring s)) (ring_contents r)"
    using scb.popb_spec [of "free_ring s" n W 0] assms by (auto simp: pool_view)
  with assms(1) show ?thesis by (auto simp: sp_mkb_popb pool_view)
qed

lemma sp_release_put:
  assumes "pool_wf s" "p \<noteq> 0" "length (pool_free s) < pool_slots s"
  shows "\<exists>s'. sp_release others p s = Some s' \<and> pool_wf s' \<and> pool_free s' = pool_free s @ [p] \<and> pool_slots s' = pool_slots s"
  using sc.spin_push_room [of "free_ring s" others p] assms by (auto simp: sp_release_def sc_push_def pool_view)

lemma sp_release_batch_put:
  assumes "pool_wf s" "list_all (\<lambda>p. p \<noteq> 0) ps" "length (pool_free s) + length ps \<le> pool_slots s" "length ps < 2 ^ 64"
  shows "\<exists>s'. sp_release_batch W others ps s = Some s' \<and> pool_wf s' \<and> pool_free s' = pool_free s @ ps \<and> pool_slots s' = pool_slots s"
  using sp_push_all_spec [of "free_ring s" ps W others] assms by (auto simp: sp_release_batch_def pool_view list_all_iff)

interpretation sp: slab_pool pool_wf "\<lambda>p. p \<noteq> 0" pool_free pool_slots sp_mk "sp_mkb W" "sp_release []" "sp_release_batch W []"
  by unfold_locales (fact sp_mk_none sp_mk_some sp_mkb_take sp_release_put sp_release_batch_put)+

lemma rp_release_eq: "rp_release = sp_release"
  by (simp add: fun_eq_iff rp_release_def sp_release_def rc_push_eq)

lemma rp_make_batch_mk: "rp_make_batch (Suc n) s = (case rp_mk s of (None, s1) \<Rightarrow> ([], s1)
    | (Some p, s1) \<Rightarrow> let (ps, s2) = rp_make_batch n s1 in (p # ps, s2))"
  by (simp add: rp_mk_def ptr_opt_def Let_def split: prod.split)

lemma rp_make_batch_take:
  assumes "pool_wf s"
  shows "\<exists>ps s'. rp_make_batch n s = (ps, s') \<and> pool_wf s' \<and> pool_free s = ps @ pool_free s' \<and> length ps \<le> n
    \<and> (ps = [] \<longrightarrow> n = 0 \<or> pool_free s = []) \<and> pool_slots s' = pool_slots s"
  using assms
proof (induction n arbitrary: s)
  case (Suc n)
  show ?case
  proof (cases "pool_free s")
    case Nil
    then show ?thesis using sp_mk_none [OF Suc.prems] by (auto simp: rp_make_batch_mk rp_mk_eq simp del: rp_make_batch.simps)
  next
    case (Cons p ps)
    then obtain s1 where "sp_mk s = (Some p, s1)" "pool_wf s1" "pool_free s1 = ps" "pool_slots s1 = pool_slots s"
      using sp_mk_some [OF Suc.prems] by blast
    with Cons Suc.IH [of s1] show ?thesis by (auto simp: rp_make_batch_mk rp_mk_eq simp del: rp_make_batch.simps)
  qed
qed simp

lemma rp_release_batch_put:
  assumes "pool_wf s" "list_all (\<lambda>p. p \<noteq> 0) ps" "length (pool_free s) + length ps \<le> pool_slots s"
  shows "\<exists>s'. rp_release_batch ps s = Some s' \<and> pool_wf s' \<and> pool_free s' = pool_free s @ ps \<and> pool_slots s' = pool_slots s"
  using assms
proof (induction ps arbitrary: s)
  case (Cons p ps)
  then obtain s1 where s1: "rp_release [] p s = Some s1" "pool_wf s1" "pool_free s1 = pool_free s @ [p]" "pool_slots s1 = pool_slots s"
    using sp_release_put [of s p "[]"] by (auto simp: rp_release_eq)
  with Cons.IH [of s1] Cons.prems show ?case by auto
qed simp

interpretation rp: slab_pool pool_wf "\<lambda>p. p \<noteq> 0" pool_free pool_slots rp_mk rp_make_batch "rp_release []" rp_release_batch
  unfolding rp_mk_eq rp_release_eq
  by unfold_locales (fact sp_mk_none sp_mk_some sp_release_put | erule rp_make_batch_take | erule rp_release_batch_put; assumption)+

subsection \<open>The nodes of a new pool\<close>

definition pool_nodes :: "pool_state \<Rightarrow> u64 list" where
  "pool_nodes s = map (node_addr (memory_block s) (node_bytes s)) [0..<pool_capacity s]"

text \<open>The block lies in the address space: then its nodes are at distinct addresses, none of them 0.\<close>

definition block_ok :: "u64 \<Rightarrow> nat \<Rightarrow> nat \<Rightarrow> bool" where
  "block_ok base cap bytes \<longleftrightarrow> base \<noteq> 0 \<and> 0 < bytes \<and> unat base + cap * bytes \<le> 2 ^ 64"

lemma node_addr_unat:
  assumes "block_ok base cap bytes" "i < cap"
  shows "unat (node_addr base bytes i) = unat base + i * bytes"
proof -
  have "(i + 1) * bytes \<le> cap * bytes" using assms(2) by (intro mult_right_mono) auto
  then have "i * bytes + bytes \<le> cap * bytes" by simp
  then have "unat base + i * bytes < 2 ^ 64" using assms(1) by (simp add: block_ok_def)
  then show ?thesis unfolding node_addr_def by (rule unat_add_of_nat)
qed

lemma node_addr_inj: "block_ok base cap bytes \<Longrightarrow> distinct (map (node_addr base bytes) [0..<cap])"
proof -
  assume b: "block_ok base cap bytes"
  have "i = j" if "i < cap" "j < cap" "node_addr base bytes i = node_addr base bytes j" for i j
  proof -
    have "unat base + i * bytes = unat base + j * bytes"
      using node_addr_unat [OF b that(1)] node_addr_unat [OF b that(2)] that(3) by metis
    then have "i * bytes = j * bytes" by (rule add_left_imp_eq)
    then show ?thesis using b by (simp add: block_ok_def)
  qed
  then show ?thesis by (auto simp: distinct_map inj_on_def)
qed

lemma node_addr_nonnull: "block_ok base cap bytes \<Longrightarrow> i < cap \<Longrightarrow> node_addr base bytes i \<noteq> 0"
  using node_addr_unat [of base cap bytes i] by (auto simp: block_ok_def unat_eq_zero)

lemma rp_fill_spec:
  assumes "ring_wf r" "length (ring_contents r) + (cap - i) \<le> ring_cap r"
  shows "\<exists>r'. rp_fill base bytes i cap r = Some r' \<and> ring_wf r' \<and> ring_cap r' = ring_cap r
    \<and> ring_contents r' = ring_contents r @ map (node_addr base bytes) [i..<cap]"
  using assms
proof (induction base bytes i cap r rule: rp_fill.induct)
  case (1 base bytes i cap r)
  show ?case
  proof (cases "i < cap")
    case True
    then have "length (ring_contents r) < ring_cap r" using "1.prems"(2) by linarith
    then obtain r1 where r1: "rc_push [] (node_addr base bytes i) r = Some r1" "ring_wf r1"
        "ring_contents r1 = ring_contents r @ [node_addr base bytes i]" "ring_cap r1 = ring_cap r"
      using sc_push_room [OF "1.prems"(1), of "node_addr base bytes i"] by (auto simp: rc_push_eq)
    have "length (ring_contents r1) + (cap - (i + 1)) \<le> ring_cap r1" using r1 "1.prems"(2) True by simp
    with "1.IH" [OF True r1(1) r1(2)] r1 True show ?thesis
      by (auto simp: rp_fill.simps [of base bytes i] upt_conv_Cons)
  next
    case False
    then show ?thesis using "1.prems" by (subst rp_fill.simps) auto
  qed
qed

text \<open>A pool of fewer than \<open>2 ^ 32\<close> nodes is filled as if the index were unbounded. With \<open>2 ^ 32\<close> nodes the
  index wraps when the ring is full, and the loop does not end.\<close>

lemma u32_index: "i < 2 ^ 32 \<Longrightarrow> unat (of_nat i :: u32) = i"
  by (simp add: unat_of_nat take_bit_nat_def)

lemma sp_fill_small: "cap < 2 ^ 32 \<Longrightarrow> i \<le> cap \<Longrightarrow> sp_fill base bytes (of_nat i) cap r = rp_fill base bytes i cap r"
proof (induction base bytes i cap r rule: rp_fill.induct)
  case (1 base bytes i cap r)
  have i: "unat (of_nat i :: u32) = i" using "1.prems" by (intro u32_index) simp
  show ?case
  proof (cases "rc_push [] (node_addr base bytes i) r")
    case None
    then show ?thesis using i by (simp add: sp_fill.simps [of base bytes "of_nat i"] rp_fill.simps [of base bytes i] rc_push_eq)
  next
    case (Some r')
    then show ?thesis using i "1.IH" [OF _ Some] "1.prems"
      by (auto simp: sp_fill.simps [of base bytes "of_nat i"] rp_fill.simps [of base bytes i] rc_push_eq add.commute)
  qed
qed

lemma sc_push_full: "ring_wf r \<Longrightarrow> length (ring_contents r) = ring_cap r \<Longrightarrow> sc_push [] p r = None"
  using sc.tpush_full [of r p] by (auto simp: sc_push_def)

lemma sp_fill_wraps:
  assumes "ring_wf r" "i < 2 ^ 32" "length (ring_contents r) + (2 ^ 32 - i) = ring_cap r"
  shows "sp_fill base bytes (of_nat i) (2 ^ 32) r = None"
  using assms
proof (induction "2 ^ 32 - i" arbitrary: i r)
  case (Suc n)
  have i: "unat (of_nat i :: u32) = i" using Suc.prems(2) by (rule u32_index)
  have "length (ring_contents r) < ring_cap r" using Suc.prems(2,3) by linarith
  then obtain r1 where r1: "sc_push [] (node_addr base bytes i) r = Some r1" "ring_wf r1"
      "ring_contents r1 = ring_contents r @ [node_addr base bytes i]" "ring_cap r1 = ring_cap r"
    using sc_push_room [OF Suc.prems(1), of "node_addr base bytes i"] by auto
  have step: "sp_fill base bytes (of_nat i) (2 ^ 32) r = sp_fill base bytes (of_nat (i + 1)) (2 ^ 32) r1"
    using i r1(1) Suc.prems(2) by (simp add: sp_fill.simps [of base bytes "of_nat i"] add.commute)
  show ?case
  proof (cases "i + 1 < 2 ^ 32")
    case True
    have "length (ring_contents r1) + (2 ^ 32 - (i + 1)) = ring_cap r1" using r1(3,4) Suc.prems(2,3) by simp
    moreover have "n = 2 ^ 32 - (i + 1)" using Suc.hyps(2) by simp
    ultimately show ?thesis using Suc.hyps(1) [of "i + 1" r1] r1(2) True step by simp
  next
    case False
    then have e: "i + 1 = 2 ^ 32" using Suc.prems(2) by simp
    have "length (ring_contents r1) = ring_cap r1" using r1(3,4) Suc.prems(3) e by simp
    then have "sc_push [] p r1 = None" for p using sc_push_full [OF r1(2)] by blast
    then show ?thesis unfolding step e by (simp add: sp_fill.simps)
  qed
qed simp

text \<open>
  What the pools rely on of \<^verbatim>\<open>mmap\<close>: a mapping that succeeds lies in the address space, away from
  address 0.
\<close>

definition mmap_ok :: "(mmap_flags \<Rightarrow> u64 \<Rightarrow> u64 option) \<Rightarrow> bool" where
  "mmap_ok mmap \<longleftrightarrow> (\<forall>fl sz mem. mmap fl sz = Some mem \<longrightarrow> mem \<noteq> 0 \<and> unat mem + unat sz \<le> 2 ^ 64)"

text \<open>A pool as the constructor leaves it: every node is free, and fits the free list.\<close>

definition pool_fresh :: "pool_state \<Rightarrow> bool" where
  "pool_fresh s \<longleftrightarrow> pool_wf s \<and> pool_free s = pool_nodes s \<and> pool_capacity s \<le> pool_slots s
     \<and> distinct (pool_nodes s) \<and> 0 \<notin> set (pool_nodes s)"

lemma pool_fresh_fill:
  assumes "block_ok mem cap bytes" "rp_fill mem bytes 0 cap r = Some r'"
    and "ring_wf r" "ring_contents r = []" "cap \<le> ring_cap r"
  shows "pool_fresh \<lparr>memory_block = mem, pool_size_bytes = sz, free_ring = r', node_bytes = bytes, pool_capacity = cap\<rparr>"
  using rp_fill_spec [OF assms(3), of cap 0 mem bytes] assms node_addr_inj [OF assms(1)] node_addr_nonnull [OF assms(1)]
  by (auto simp: pool_fresh_def pool_view pool_nodes_def)

lemma sp_map_ok: "mmap_ok mmap \<Longrightarrow> sp_map mmap sz = Some mem \<Longrightarrow> mem \<noteq> 0 \<and> unat mem + unat sz \<le> 2 ^ 64"
  by (auto simp: sp_map_def mmap_ok_def split: option.splits)

lemma sp_new_fresh:
  assumes "mmap_ok mmap" "cap \<le> 2 ^ 32" "0 < bytes" "cap * bytes < 2 ^ 64" "sp_new mmap cap bytes = Some s"
  shows "pool_fresh s"
proof -
  have sz: "unat (of_nat (cap * bytes) :: u64) = cap * bytes" using assms(4) by (rule unat_of_nat_u64)
  obtain mem r where m: "sp_map mmap (of_nat (cap * bytes)) = Some mem" "sp_fill mem bytes 0 cap (sc_new cap 0) = Some r"
      "s = \<lparr>memory_block = mem, pool_size_bytes = of_nat (cap * bytes), free_ring = r, node_bytes = bytes, pool_capacity = cap\<rparr>"
    using assms(5) by (auto simp: sp_new_def Let_def split: option.splits)
  have "block_ok mem cap bytes" using sp_map_ok [OF assms(1) m(1)] sz assms(3) by (simp add: block_ok_def)
  moreover have le: "cap \<le> 2 ^ 63" using assms(2) by simp
  moreover have "cap \<noteq> 2 ^ 32"
  proof
    assume "cap = 2 ^ 32"
    moreover have "sc_size (2 ^ 32) = 2 ^ 32" by (simp add: sc_size_def bit_ceil_def bit_ceil_from.simps)
    ultimately show False using sp_fill_wraps [of "sc_new cap 0" 0 mem bytes] sc_new_wf [OF le, of "0 :: u64"] m(2) by simp
  qed
  then have "rp_fill mem bytes 0 cap (sc_new cap 0) = Some r" using sp_fill_small [of cap 0 mem bytes] assms(2) m(2) by simp
  ultimately show ?thesis unfolding m(3)
    using sc_new_wf [of cap "0 :: u64"] sc_size_cap [of cap] by (intro pool_fresh_fill) auto
qed

lemma round_up_ge:
  fixes sz h :: u64
  assumes "unat sz + 2 ^ 21 < 2 ^ 64" "h = 2 ^ 21"
  shows "unat sz \<le> unat ((sz + h - 1) AND NOT (h - 1))"
proof -
  let ?x = "sz + h - 1"
  have h: "h - 1 = mask 21" using assms(2) by (simp add: mask_eq_exp_minus_1)
  have x: "unat ?x = unat sz + (2 ^ 21 - 1)"
  proof -
    have "?x = sz + of_nat (2 ^ 21 - 1)" by (simp add: assms(2))
    then show ?thesis using assms(1) unat_add_of_nat [of sz "2 ^ 21 - 1"] by (simp add: add.commute)
  qed
  have "(?x AND NOT (mask 21)) + (?x AND mask 21) = ?x"
    by (subst disjunctive_add_eq_or) (simp_all add: bit_eq_iff bit_simps, blast)
  then have "?x AND NOT (mask 21) = ?x - take_bit 21 ?x" by (simp add: take_bit_eq_mask eq_diff_eq)
  moreover have t: "unat (take_bit 21 ?x) = unat ?x mod 2 ^ 21" by (simp add: unsigned_take_bit_eq take_bit_nat_def)
  moreover have "take_bit 21 ?x \<le> ?x" using t by (simp add: word_le_nat_alt)
  ultimately have "unat (?x AND NOT (mask 21)) = unat ?x - unat ?x mod 2 ^ 21" by (simp add: unat_sub)
  moreover have "unat ?x mod 2 ^ 21 \<le> 2 ^ 21 - 1" using mod_less_divisor [of "2 ^ 21" "unat ?x"] by simp
  ultimately show ?thesis unfolding h using x by linarith
qed

lemma rp_new_fresh:
  assumes "mmap_ok mmap" "cap \<le> 2 ^ 63" "0 < bytes" "cap * bytes + 2 ^ 21 < 2 ^ 64" "rp_new mmap cap bytes = Some s"
  shows "pool_fresh s"
proof -
  let ?sz = "of_nat (cap * bytes) :: u64"
  have sz: "unat ?sz = cap * bytes" using assms(4) by (intro unat_of_nat_u64) simp
  obtain mem n r where m: "os_allocate mmap ?sz False = Some (mem, n)" "rp_fill mem bytes 0 cap (rc_new cap 0) = Some r"
      "s = \<lparr>memory_block = mem, pool_size_bytes = n, free_ring = r, node_bytes = bytes, pool_capacity = cap\<rparr>"
    using assms(5) by (auto simp: rp_new_def split: option.splits)
  then have n: "mem \<noteq> 0" "unat mem + unat n \<le> 2 ^ 64" "n = (?sz + 2 * 1024 * 1024 - 1) AND NOT (2 * 1024 * 1024 - 1)"
    using assms(1) by (auto simp: os_allocate_def mmap_ok_def Let_def split: option.splits if_splits)
  have "unat ?sz \<le> unat n" unfolding n(3) using sz assms(4) by (intro round_up_ge) simp_all
  with n sz assms(3) have "block_ok mem cap bytes" by (simp add: block_ok_def)
  then show ?thesis unfolding m(3)
    using rc_new_wf [of cap "0 :: u64"] bit_ceil_ge [of cap] assms(2) m(2) unfolding rc_capacity_def
    by (intro pool_fresh_fill) auto
qed

text \<open>Null means exhausted, as long as no free address was invalidated.\<close>

lemma sp_make_raw_null: "pool_wf s \<Longrightarrow> fst (sp_make_raw s) = 0 \<longleftrightarrow> pool_free s = []"
  using sc.tpop_empty [of "free_ring s"] sc.tpop_item [of "free_ring s"]
  by (cases "ring_contents (free_ring s)") (auto simp: sp_make_raw_def pool_view)

subsection \<open>Properties\<close>

text \<open>
  (C11) A client of \<^verbatim>\<open>spsc_pool\<close> that returns only what it holds never waits for a release, and after
  any session every node is either free or held, exactly once: nothing is lost, and nothing is
  handed out twice. An allocation fails exactly when all nodes are held.
\<close>

theorem sp_pool_conserves:
  assumes "mmap_ok mmap" "cap \<le> 2 ^ 32" "0 < bytes" "cap * bytes < 2 ^ 64" "sp_new mmap cap bytes = Some s"
    and "list_all pool_op_ok ops"
  shows "case pool_session sp_mk (sp_mkb W) (sp_release []) (sp_release_batch W []) ops ({#}, s) of
      Inl e \<Rightarrow> e = Not_Held
    | Inr (held, s') \<Rightarrow> mset (pool_free s') + held = mset (pool_nodes s) \<and> distinct (pool_nodes s)
        \<and> (fst (sp_make_raw s') = 0 \<longleftrightarrow> held = mset (pool_nodes s))"
proof -
  have f: "pool_fresh s" using assms(1-5) by (rule sp_new_fresh)
  have c: "size (mset (pool_nodes s)) \<le> pool_slots s" "mset (pool_free s) + {#} = mset (pool_nodes s)" "pool_wf s"
    using f by (auto simp: pool_fresh_def pool_nodes_def)
  have v: "p \<noteq> 0" if "p \<in># mset (pool_nodes s)" for p using that f by (auto simp: pool_fresh_def)
  from sp.session_conserves [OF c(3,2,1) assms(6) v, of W] f show ?thesis
    by (auto simp: pool_fresh_def sp_make_raw_null)
qed

lemma mmap_ok_example: "mmap_ok (\<lambda>fl sz. if fl = Map_Plain \<and> unat sz \<le> 4096 then Some 4096 else None)"
  by (auto simp: mmap_ok_def)

lemma sp_new_example: "\<exists>s. sp_new (\<lambda>fl sz. if fl = Map_Plain \<and> unat sz \<le> 4096 then Some 4096 else None) 2 64 = Some s"
proof -
  have "length (ring_contents (sc_new 2 (0 :: u64))) + (2 - 0) \<le> ring_cap (sc_new 2 (0 :: u64))"
    using sc_new_wf [of 2 "0 :: u64"] sc_size_cap [of 2] by simp
  then obtain r where "sp_fill 4096 64 0 2 (sc_new 2 0) = Some r"
    using rp_fill_spec [of "sc_new 2 0" 2 0 4096 64] sc_new_wf [of 2 "0 :: u64"] sp_fill_small [of 2 0 4096 64 "sc_new 2 0"] by auto
  then show ?thesis by (simp add: sp_new_def sp_map_def)
qed

theorem sp_pool_conserves_witness:
  "\<exists>s. sp_new (\<lambda>fl sz. if fl = Map_Plain \<and> unat sz \<le> 4096 then Some 4096 else None) 2 64 = Some s \<and>
     (case pool_session sp_mk (sp_mkb 8) (sp_release []) (sp_release_batch 8 []) [Make, MakeBatch 3, Release 4160, Make] ({#}, s) of
        Inl e \<Rightarrow> e = Not_Held
      | Inr (held, s') \<Rightarrow> mset (pool_free s') + held = mset (pool_nodes s) \<and> distinct (pool_nodes s)
          \<and> (fst (sp_make_raw s') = 0 \<longleftrightarrow> held = mset (pool_nodes s)))"
proof -
  obtain s where s: "sp_new (\<lambda>fl sz. if fl = Map_Plain \<and> unat sz \<le> 4096 then Some 4096 else None) 2 64 = Some s"
    using sp_new_example by blast
  have "list_all pool_op_ok [Make, MakeBatch 3, Release (4160 :: u64), Make]" by (simp add: pool_op_ok_def)
  from sp_pool_conserves [OF mmap_ok_example _ _ _ s this, of 8] s show ?thesis by (intro exI [of _ s]) simp
qed

text \<open>
  The same conservation for \<^verbatim>\<open>spsc_ring_pool\<close>, whose block is rounded up to huge pages.
\<close>

theorem rp_pool_conserves:
  assumes "mmap_ok mmap" "cap \<le> 2 ^ 63" "0 < bytes" "cap * bytes + 2 ^ 21 < 2 ^ 64" "rp_new mmap cap bytes = Some s"
    and "list_all pool_op_ok ops"
  shows "case pool_session rp_mk rp_make_batch (rp_release []) rp_release_batch ops ({#}, s) of
      Inl e \<Rightarrow> e = Not_Held
    | Inr (held, s') \<Rightarrow> mset (pool_free s') + held = mset (pool_nodes s) \<and> distinct (pool_nodes s)"
proof -
  have f: "pool_fresh s" using assms(1-5) by (rule rp_new_fresh)
  have c: "size (mset (pool_nodes s)) \<le> pool_slots s" "mset (pool_free s) + {#} = mset (pool_nodes s)" "pool_wf s"
    using f by (auto simp: pool_fresh_def pool_nodes_def)
  have v: "p \<noteq> 0" if "p \<in># mset (pool_nodes s)" for p using that f by (auto simp: pool_fresh_def)
  from rp.session_conserves [OF c(3,2,1) assms(6) v] f show ?thesis by (auto simp: pool_fresh_def)
qed

lemma rp_mmap_ok_example: "mmap_ok (\<lambda>fl sz. if unat sz \<le> 4194304 then Some 4194304 else None)"
  by (auto simp: mmap_ok_def)

lemma rp_new_example: "\<exists>s. rp_new (\<lambda>fl sz. if unat sz \<le> 4194304 then Some 4194304 else None) 2 64 = Some s"
proof -
  have "length (ring_contents (rc_new 2 (0 :: u64))) + (2 - 0) \<le> ring_cap (rc_new 2 (0 :: u64))"
    using rc_new_wf [of 2 "0 :: u64"] bit_ceil_ge [of 2] by (simp add: rc_capacity_def)
  then obtain r where "rp_fill 4194304 64 0 2 (rc_new 2 0) = Some r"
    using rp_fill_spec [of "rc_new 2 0" 2 0 4194304 64] rc_new_wf [of 2 "0 :: u64"] by auto
  then show ?thesis by (simp add: rp_new_def os_allocate_def)
qed

theorem rp_pool_conserves_witness:
  "\<exists>s. rp_new (\<lambda>fl sz. if unat sz \<le> 4194304 then Some 4194304 else None) 2 64 = Some s \<and>
     (case pool_session rp_mk rp_make_batch (rp_release []) rp_release_batch [MakeBatch 2, ReleaseBatch [4194304, 4194368]] ({#}, s) of
        Inl e \<Rightarrow> e = Not_Held
      | Inr (held, s') \<Rightarrow> mset (pool_free s') + held = mset (pool_nodes s) \<and> distinct (pool_nodes s))"
proof -
  obtain s where s: "rp_new (\<lambda>fl sz. if unat sz \<le> 4194304 then Some 4194304 else None) 2 64 = Some s"
    using rp_new_example by blast
  have "list_all pool_op_ok [MakeBatch 2, ReleaseBatch [4194304 :: u64, 4194368]]" by (simp add: pool_op_ok_def)
  from rp_pool_conserves [OF rp_mmap_ok_example _ _ _ s this] s show ?thesis by (intro exI [of _ s]) simp
qed

text \<open>
  What \<^verbatim>\<open>invalidate\<close> does to \<^verbatim>\<open>spsc_pool\<close>: the address becomes a null entry of the free list.
  While the free entries do not wrap in the ring, the address is never handed out again, but the
  null entry is: an allocation that meets it returns null although free nodes remain.
\<close>

theorem sp_invalidate_effect:
  assumes "pool_wf s" and "ptr \<noteq> 0"
    and "\<not> slot (pool_slots s) (physical_ingress (free_ring s)) < slot (pool_slots s) (physical_egress (free_ring s))"
  shows "pool_free (sp_invalidate W ptr s) = map (\<lambda>p. if p = ptr then 0 else p) (pool_free s)
    \<and> ptr \<notin> set (pool_free (sp_invalidate W ptr s))
    \<and> (\<forall>ps. pool_free s = ptr # ps \<longrightarrow> fst (sp_make_raw (sp_invalidate W ptr s)) = 0)"
proof -
  let ?r = "sc_invalidate_by_ptr W 0 ptr (free_ring s)"
  have wf: "ring_wf (free_ring s)" "ring_wf ?r" using assms(1) sc_invalidate_contents(1) by (auto simp: pool_wf_def)
  have "physical_ingress (free_ring s) = local_ingress (free_ring s)" "physical_egress (free_ring s) = local_egress (free_ring s)"
    using wf(1) by (simp_all add: ring_wf_def)
  then have e: "ring_contents ?r = map (nullify 0 ptr) (ring_contents (free_ring s))"
    using sc_invalidate_contents(2) [OF wf(1), of W 0 ptr] assms(3) by (simp add: pool_slots_def)
  have "fst (sp_make_raw (sp_invalidate W ptr s)) = 0" if "pool_free s = ptr # ps" for ps
    using sc.tpop_item [OF wf(2), of 0 "map (nullify 0 ptr) ps"] that e
    by (auto simp: sp_make_raw_def sp_invalidate_def pool_free_def nullify_def)
  with e assms(2) show ?thesis by (auto simp: sp_invalidate_def pool_free_def nullify_def)
qed

theorem sp_invalidate_effect_witness:
  "let s = \<lparr>memory_block = 64, pool_size_bytes = 256, free_ring = (sc_new 4 0)\<lparr>ring_buf := [64, 128, 192, 0], local_ingress := 3, physical_ingress := 3, cached_egress := 0,
          local_egress := 0, physical_egress := 0, cached_ingress := 0\<rparr>, node_bytes = 64, pool_capacity = 4\<rparr>
   in pool_free s = [64, 128, 192] \<and> pool_free (sp_invalidate 8 64 s) = [0, 128, 192] \<and> fst (sp_make_raw (sp_invalidate 8 64 s)) = 0"
proof -
  let ?r = "(sc_new 4 (0 :: u64))\<lparr>ring_buf := [64, 128, 192, 0], local_ingress := 3, physical_ingress := 3, cached_egress := 0,
     local_egress := 0, physical_egress := 0, cached_ingress := 0\<rparr>"
  let ?s = "\<lparr>memory_block = 64, pool_size_bytes = 256, free_ring = ?r, node_bytes = 64, pool_capacity = 4\<rparr>"
  have cap: "ring_cap ?r = 2 ^ 2" by (simp add: ring_cap_def)
  then have "pow2_cap (ring_cap ?r)" using pow2_cap_of [of 2] by simp
  then have wf: "ring_wf ?r" using cap by (simp add: ring_wf_def ring_fill_def)
  have f: "ring_contents ?r = [64, 128, 192]" by (simp add: ring_contents_def ring_fill_def cells_def slot_def upt_rec)
  then have "pool_wf ?s" using wf by (simp add: pool_wf_def)
  then show ?thesis using sp_invalidate_effect [of ?s 64 8] cap f
    by (simp add: pool_free_def pool_slots_def slot_def Let_def)
qed

end
