(* ===== verification/Mpmc_Conduit.thy ===== *)
theory Mpmc_Conduit
  imports Spsc_Pool
begin

section \<open>\<^verbatim>\<open>core/mpmc_conduit.hpp\<close>: the sharded multi-producer multi-consumer conduit\<close>

text \<open>
  \<^verbatim>\<open>mpmc_conduit<T, RequestedSize, NumLanes>\<close> is an array of lanes. A lane is a ring with two
  gates and a ticket per slot: the ticket of a slot equals the position that may be written
  there next, or that position plus one once the item is in. This theory has each member function
  as it runs when no other thread acts in between; \<open>Mpmc_Interleaving\<close> has the accesses of
  the concurrent operations. A retry loop that would find the same ticket for ever is \<open>None\<close>.
  The pauses and prefetches have no effect on the state.
\<close>

subsection \<open>Layout and construction\<close>

definition mp_total_size :: "nat \<Rightarrow> nat \<Rightarrow> nat" where
  "mp_total_size requested num_lanes =
     (let initial_ceil = (if requested < 2 then 2 else bit_ceil requested)
      in if initial_ceil < num_lanes then num_lanes else initial_ceil)"

definition mp_lane_capacity :: "nat \<Rightarrow> nat \<Rightarrow> nat" where
  "mp_lane_capacity requested num_lanes = mp_total_size requested num_lanes div num_lanes"

record 'a mpmc_lane =
  sequences :: "u64 list"
  lane_data :: "'a list"
  ingress_gate :: u64
  egress_gate :: u64

record 'a mpmc_state =
  lanes :: "'a mpmc_lane list"
  aphasic_fn :: u64
  agnosia_ctx :: u64

definition lane_cap :: "'a mpmc_lane \<Rightarrow> nat" where
  "lane_cap l = length (lane_data l)"

text \<open>A fresh lane: ticket \<open>i\<close> in slot \<open>i\<close>, and the zeroed memory of the mapping.\<close>

definition lane_new :: "nat \<Rightarrow> 'a \<Rightarrow> 'a mpmc_lane" where
  "lane_new cap d = \<lparr>sequences = map of_nat [0..<cap], lane_data = replicate cap d, ingress_gate = 0, egress_gate = 0\<rparr>"

definition round64 :: "u64 \<Rightarrow> u64" where
  "round64 n = (n + 63) AND NOT 63"

fun mp_map_lanes :: "(mmap_flags \<Rightarrow> u64 \<Rightarrow> u64 option) \<Rightarrow> u64 \<Rightarrow> nat \<Rightarrow> nat \<Rightarrow> 'a \<Rightarrow> 'a mpmc_lane list option" where
  "mp_map_lanes mmap total_bytes cap 0 d = Some []"
| "mp_map_lanes mmap total_bytes cap (Suc n) d =
     (case sp_map mmap total_bytes of None \<Rightarrow> None
      | Some mem \<Rightarrow> map_option (\<lambda>ls. lane_new cap d # ls) (mp_map_lanes mmap total_bytes cap n d))"

definition mp_new :: "(mmap_flags \<Rightarrow> u64 \<Rightarrow> u64 option) \<Rightarrow> nat \<Rightarrow> nat \<Rightarrow> nat \<Rightarrow> 'a \<Rightarrow> 'a mpmc_state option" where
  "mp_new mmap requested num_lanes item_bytes d =
     (let cap = mp_lane_capacity requested num_lanes;
          seq_bytes = round64 (of_nat (cap * 8));
          data_bytes = round64 (of_nat (cap * item_bytes))
      in map_option (\<lambda>ls. \<lparr>lanes = ls, aphasic_fn = 0, agnosia_ctx = 0\<rparr>)
           (mp_map_lanes mmap (seq_bytes + data_bytes) cap num_lanes d))"

definition mp_bind_aphasic_horizon :: "u64 \<Rightarrow> u64 \<Rightarrow> 'a mpmc_state \<Rightarrow> 'a mpmc_state" where
  "mp_bind_aphasic_horizon ctx void_fn s = s\<lparr>agnosia_ctx := ctx, aphasic_fn := void_fn\<rparr>"

definition mp_on_conduit_full_drop :: "'a mpmc_state \<Rightarrow> (u64 \<times> u64 \<times> u8) option" where
  "mp_on_conduit_full_drop s = (if aphasic_fn s \<noteq> 0 then Some (aphasic_fn s, agnosia_ctx s, 1) else None)"

subsection \<open>Lane selection\<close>

text \<open>The thread's core index is polled once; \<open>cpu\<close> is what the hardware reports then.\<close>

definition mp_core :: "u64 \<Rightarrow> u64 \<Rightarrow> u64" where
  "mp_core cpu cached = (if cached = 0xFFFFFFFF then cpu else cached)"

definition mp_select_lane :: "u64 \<Rightarrow> nat \<Rightarrow> nat \<Rightarrow> nat" where
  "mp_select_lane core num_lanes offset = slot num_lanes (core + of_nat offset)"

definition mp_lane_order :: "u64 \<Rightarrow> nat \<Rightarrow> nat list" where
  "mp_lane_order core num_lanes = map (mp_select_lane core num_lanes) [0..<num_lanes]"

subsection \<open>Single pushes and pops\<close>

definition lane_try_push :: "'a \<Rightarrow> 'a mpmc_lane \<Rightarrow> (bool \<times> 'a mpmc_lane) option" where
  "lane_try_push item l =
     (let pos = ingress_gate l; ix = slot (lane_cap l) pos; slot_ticket = sequences l ! ix
      in if slot_ticket = pos then
           Some (True, l\<lparr>ingress_gate := pos + 1, lane_data := (lane_data l)[ix := item],
                        sequences := (sequences l)[ix := pos + 1]\<rparr>)
         else if sint (slot_ticket - pos) < 0 then Some (False, l)
         else None)"

fun mp_push_lanes :: "nat list \<Rightarrow> 'a \<Rightarrow> 'a mpmc_lane list \<Rightarrow> (bool \<times> 'a mpmc_lane list) option" where
  "mp_push_lanes [] item ls = Some (False, ls)"
| "mp_push_lanes (i # order) item ls =
     (case lane_try_push item (ls ! i) of
        None \<Rightarrow> None
      | Some (True, l) \<Rightarrow> Some (True, ls[i := l])
      | Some (False, l) \<Rightarrow> mp_push_lanes order item (ls[i := l]))"

definition mp_try_push :: "u64 \<Rightarrow> 'a \<Rightarrow> 'a mpmc_state \<Rightarrow> (bool \<times> 'a mpmc_state) option" where
  "mp_try_push core item s =
     map_option (\<lambda>(ok, ls). (ok, s\<lparr>lanes := ls\<rparr>))
       (mp_push_lanes (mp_lane_order core (length (lanes s))) item (lanes s))"

definition mp_on_raw_frame :: "u64 \<Rightarrow> 'a \<Rightarrow> int \<Rightarrow> 'a mpmc_state \<Rightarrow> (bool \<times> 'a mpmc_state) option" where
  "mp_on_raw_frame core item res s = mp_try_push core item s"

definition mp_try_push_ptr :: "u64 \<Rightarrow> 'a option \<Rightarrow> 'a mpmc_state \<Rightarrow> (bool \<times> 'a mpmc_state) option" where
  "mp_try_push_ptr core item s = (case item of Some x \<Rightarrow> mp_try_push core x s | None \<Rightarrow> Some (False, s))"

text \<open>The blocking push, with what other threads do between two attempts.\<close>

fun mp_push :: "u64 \<Rightarrow> ('a mpmc_state \<Rightarrow> 'a mpmc_state) list \<Rightarrow> 'a \<Rightarrow> 'a mpmc_state \<Rightarrow> 'a mpmc_state option" where
  "mp_push core others item s =
     (case mp_try_push core item s of
        None \<Rightarrow> None
      | Some (True, s') \<Rightarrow> Some s'
      | Some (False, s') \<Rightarrow> (case others of [] \<Rightarrow> None | f # fs \<Rightarrow> mp_push core fs item (f s')))"

definition mp_push_ptr :: "u64 \<Rightarrow> ('a mpmc_state \<Rightarrow> 'a mpmc_state) list \<Rightarrow> 'a option \<Rightarrow> 'a mpmc_state \<Rightarrow> (bool \<times> 'a mpmc_state) option" where
  "mp_push_ptr core others item s =
     (case item of Some x \<Rightarrow> map_option (\<lambda>s'. (True, s')) (mp_push core others x s) | None \<Rightarrow> Some (False, s))"

definition lane_try_pop :: "'a mpmc_lane \<Rightarrow> ('a option \<times> 'a mpmc_lane) option" where
  "lane_try_pop l =
     (let pos = egress_gate l; ix = slot (lane_cap l) pos; slot_ticket = sequences l ! ix
      in if slot_ticket = pos + 1 then
           Some (Some (lane_data l ! ix), l\<lparr>egress_gate := pos + 1,
                   sequences := (sequences l)[ix := pos + (of_nat (lane_cap l) - 1) + 1]\<rparr>)
         else if sint (slot_ticket - (pos + 1)) < 0 then Some (None, l)
         else None)"

fun mp_pop_lanes :: "nat list \<Rightarrow> 'a mpmc_lane list \<Rightarrow> ('a option \<times> 'a mpmc_lane list) option" where
  "mp_pop_lanes [] ls = Some (None, ls)"
| "mp_pop_lanes (i # order) ls =
     (case lane_try_pop (ls ! i) of
        None \<Rightarrow> None
      | Some (Some x, l) \<Rightarrow> Some (Some x, ls[i := l])
      | Some (None, l) \<Rightarrow> mp_pop_lanes order (ls[i := l]))"

definition mp_try_pop :: "u64 \<Rightarrow> 'a mpmc_state \<Rightarrow> ('a option \<times> 'a mpmc_state) option" where
  "mp_try_pop core s =
     map_option (\<lambda>(v, ls). (v, s\<lparr>lanes := ls\<rparr>))
       (mp_pop_lanes (mp_lane_order core (length (lanes s))) (lanes s))"

fun mp_pop :: "u64 \<Rightarrow> ('a mpmc_state \<Rightarrow> 'a mpmc_state) list \<Rightarrow> 'a mpmc_state \<Rightarrow> ('a \<times> 'a mpmc_state) option" where
  "mp_pop core others s =
     (case mp_try_pop core s of
        None \<Rightarrow> None
      | Some (Some x, s') \<Rightarrow> Some (x, s')
      | Some (None, s') \<Rightarrow> (case others of [] \<Rightarrow> None | f # fs \<Rightarrow> mp_pop core fs (f s')))"

text \<open>The managed operations on a conduit of pointers: a handle is the pointer it owns, 0 when empty.\<close>

definition mp_try_pop_managed :: "u64 \<Rightarrow> u64 mpmc_state \<Rightarrow> (u64 \<times> u64 mpmc_state) option" where
  "mp_try_pop_managed core s =
     map_option (\<lambda>(v, s'). (case v of Some raw \<Rightarrow> raw | None \<Rightarrow> 0, s')) (mp_try_pop core s)"

definition mp_pop_managed :: "u64 \<Rightarrow> (u64 mpmc_state \<Rightarrow> u64 mpmc_state) list \<Rightarrow> u64 mpmc_state \<Rightarrow> (u64 \<times> u64 mpmc_state) option" where
  "mp_pop_managed core others s = mp_pop core others s"

definition mp_try_push_managed :: "u64 \<Rightarrow> u64 \<Rightarrow> u64 mpmc_state \<Rightarrow> (bool \<times> u64 \<times> u64 mpmc_state) option" where
  "mp_try_push_managed core item s =
     (if item = 0 then Some (False, item, s)
      else case mp_try_push core item s of
        None \<Rightarrow> None
      | Some (True, s') \<Rightarrow> map_option (\<lambda>(_, h). (True, h, s')) (handle_release item)
      | Some (False, s') \<Rightarrow> Some (False, item, s'))"

definition mp_push_managed :: "u64 \<Rightarrow> (u64 mpmc_state \<Rightarrow> u64 mpmc_state) list \<Rightarrow> u64 \<Rightarrow> u64 mpmc_state \<Rightarrow> (u64 \<times> u64 mpmc_state) option" where
  "mp_push_managed core others item s =
     (case mp_push core others item s of None \<Rightarrow> None
      | Some s' \<Rightarrow> map_option (\<lambda>(_, h). (h, s')) (handle_release item))"

subsection \<open>Batches\<close>

text \<open>Writing \<open>f 0\<close>, \<open>f 1\<close> and so on to the slots of the positions \<open>w\<close>, \<open>w + 1\<close> and so on.\<close>

fun put_slots :: "'a list \<Rightarrow> u64 \<Rightarrow> nat \<Rightarrow> (nat \<Rightarrow> 'a) \<Rightarrow> 'a list" where
  "put_slots buf w 0 f = buf"
| "put_slots buf w (Suc n) f = (put_slots buf w n f)[slot (length buf) (w + of_nat n) := f n]"

text \<open>The tickets a sub-batch waits for: position plus \<open>delta\<close> in each slot.\<close>

definition tickets_ready :: "'a mpmc_lane \<Rightarrow> u64 \<Rightarrow> nat \<Rightarrow> u64 \<Rightarrow> bool" where
  "tickets_ready l w n delta \<longleftrightarrow>
     list_all (\<lambda>k. sequences l ! slot (lane_cap l) (w + of_nat k) = w + of_nat k + delta) [0..<n]"

text \<open>
  The copy of a sub-batch into the lane. \<open>wide\<close> holds for trivially copyable items of 8 bytes:
  then 8 items are stored at once, however many the sub-batch has, unless they would reach past
  the end of the lane. \<open>mem\<close> is the memory from \<^verbatim>\<open>in_batch\<close> on, inside the batch and behind it.
\<close>

definition lane_store :: "bool \<Rightarrow> (nat \<Rightarrow> 'a) \<Rightarrow> u64 \<Rightarrow> nat \<Rightarrow> nat \<Rightarrow> 'a list \<Rightarrow> 'a list" where
  "lane_store wide mem pos j sub data =
     (if wide \<and> slot (length data) (pos + of_nat j) + 8 \<le> length data
      then put_slots data (pos + of_nat j) 8 (\<lambda>k. mem (j + k))
      else put_slots data (pos + of_nat j) sub (\<lambda>k. mem (j + k)))"

function lane_push_blocks :: "bool \<Rightarrow> (nat \<Rightarrow> 'a) \<Rightarrow> u64 \<Rightarrow> nat \<Rightarrow> nat \<Rightarrow> 'a mpmc_lane \<Rightarrow> 'a mpmc_lane option" where
  "lane_push_blocks wide mem pos j cnt l =
     (if j < cnt then
        let sub = (if j + 8 \<le> cnt then 8 else cnt - j);
            w = pos + of_nat j
        in if tickets_ready l w sub 0 then
             lane_push_blocks wide mem pos (j + 8) cnt
               (l\<lparr>lane_data := lane_store wide mem pos j sub (lane_data l),
                  sequences := put_slots (sequences l) w sub (\<lambda>k. w + of_nat k + 1)\<rparr>)
           else None
      else Some l)"
  by pat_completeness auto
termination
  by (relation "measure (\<lambda>(_, _, _, j, cnt, _). cnt - j)") auto

text \<open>How many slots a batch claims: \<^verbatim>\<open>std::min(avail, max_count)\<close>, with an apparent room of 0 taken for 1.\<close>

definition lane_claim_count :: "u64 \<Rightarrow> u64 \<Rightarrow> u64" where
  "lane_claim_count avail max_count =
     (let avail1 = (if avail = 0 then 1 else avail) in if max_count < avail1 then max_count else avail1)"

definition lane_push_batch :: "bool \<Rightarrow> (nat \<Rightarrow> 'a) \<Rightarrow> u64 \<Rightarrow> 'a mpmc_lane \<Rightarrow> (u64 \<times> 'a mpmc_lane) option" where
  "lane_push_batch wide mem max_count l =
     (let pos = ingress_gate l; slot_ticket = sequences l ! slot (lane_cap l) pos
      in if slot_ticket = pos then
           let cnt = lane_claim_count (of_nat (lane_cap l) - (pos - egress_gate l)) max_count;
               l1 = l\<lparr>ingress_gate := pos + cnt\<rparr>
           in if cnt > 0 then map_option (\<lambda>l2. (cnt, l2)) (lane_push_blocks wide mem pos 0 (unat cnt) l1)
              else Some (0, l1)
         else if sint (slot_ticket - pos) < 0 then Some (0, l)
         else None)"

fun mp_push_batch_lanes :: "nat list \<Rightarrow> bool \<Rightarrow> (nat \<Rightarrow> 'a) \<Rightarrow> u64 \<Rightarrow> 'a mpmc_lane list \<Rightarrow> (u64 \<times> 'a mpmc_lane list) option" where
  "mp_push_batch_lanes [] wide mem max_count ls = Some (0, ls)"
| "mp_push_batch_lanes (i # order) wide mem max_count ls =
     (case lane_push_batch wide mem max_count (ls ! i) of
        None \<Rightarrow> None
      | Some (n, l) \<Rightarrow> if n > 0 then Some (n, ls[i := l])
                       else mp_push_batch_lanes order wide mem max_count (ls[i := l]))"

definition mp_push_batch :: "u64 \<Rightarrow> bool \<Rightarrow> (nat \<Rightarrow> 'a) \<Rightarrow> u64 \<Rightarrow> 'a mpmc_state \<Rightarrow> (u64 \<times> 'a mpmc_state) option" where
  "mp_push_batch core wide mem max_count s =
     map_option (\<lambda>(n, ls). (n, s\<lparr>lanes := ls\<rparr>))
       (mp_push_batch_lanes (mp_lane_order core (length (lanes s))) wide mem max_count (lanes s))"

text \<open>The copy out of the lane; \<open>out\<close> is the memory from \<^verbatim>\<open>out_batch\<close> on, the array and what follows.\<close>

definition lane_load :: "bool \<Rightarrow> 'a list \<Rightarrow> u64 \<Rightarrow> nat \<Rightarrow> nat \<Rightarrow> 'a list \<Rightarrow> 'a list" where
  "lane_load wide out pos j sub data =
     (if wide \<and> slot (length data) (pos + of_nat j) + 8 \<le> length data
      then blit out j data (slot (length data) (pos + of_nat j)) 8
      else take j out @ map (\<lambda>k. data ! slot (length data) (pos + of_nat (j + k))) [0..<sub] @ drop (j + sub) out)"

function lane_pop_blocks :: "bool \<Rightarrow> 'a list \<Rightarrow> u64 \<Rightarrow> nat \<Rightarrow> nat \<Rightarrow> 'a mpmc_lane \<Rightarrow> ('a list \<times> 'a mpmc_lane) option" where
  "lane_pop_blocks wide out pos j cnt l =
     (if j < cnt then
        let sub = (if j + 8 \<le> cnt then 8 else cnt - j);
            w = pos + of_nat j
        in if tickets_ready l w sub 1 then
             lane_pop_blocks wide (lane_load wide out pos j sub (lane_data l)) pos (j + 8) cnt
               (l\<lparr>sequences := put_slots (sequences l) w sub (\<lambda>k. w + of_nat k + of_nat (lane_cap l))\<rparr>)
           else None
      else Some (out, l))"
  by pat_completeness auto
termination
  by (relation "measure (\<lambda>(_, _, _, j, cnt, _). cnt - j)") auto

definition lane_pop_batch :: "bool \<Rightarrow> 'a list \<Rightarrow> u64 \<Rightarrow> 'a mpmc_lane \<Rightarrow> (u64 \<times> 'a list \<times> 'a mpmc_lane) option" where
  "lane_pop_batch wide out max_count l =
     (let pos = egress_gate l; slot_ticket = sequences l ! slot (lane_cap l) pos
      in if slot_ticket = pos + 1 then
           let cnt = lane_claim_count (ingress_gate l - pos) max_count;
               l1 = l\<lparr>egress_gate := pos + cnt\<rparr>
           in if cnt > 0 then map_option (\<lambda>(out', l2). (cnt, out', l2)) (lane_pop_blocks wide out pos 0 (unat cnt) l1)
              else Some (0, out, l1)
         else if sint (slot_ticket - (pos + 1)) < 0 then Some (0, out, l)
         else None)"

fun mp_pop_batch_lanes :: "nat list \<Rightarrow> bool \<Rightarrow> 'a list \<Rightarrow> u64 \<Rightarrow> 'a mpmc_lane list \<Rightarrow> (u64 \<times> 'a list \<times> 'a mpmc_lane list) option" where
  "mp_pop_batch_lanes [] wide out max_count ls = Some (0, out, ls)"
| "mp_pop_batch_lanes (i # order) wide out max_count ls =
     (case lane_pop_batch wide out max_count (ls ! i) of
        None \<Rightarrow> None
      | Some (n, out', l) \<Rightarrow> if n > 0 then Some (n, out', ls[i := l])
                             else mp_pop_batch_lanes order wide out' max_count (ls[i := l]))"

definition mp_pop_batch :: "u64 \<Rightarrow> bool \<Rightarrow> 'a list \<Rightarrow> u64 \<Rightarrow> 'a mpmc_state \<Rightarrow> (u64 \<times> 'a list \<times> 'a mpmc_state) option" where
  "mp_pop_batch core wide out max_count s =
     map_option (\<lambda>(n, out', ls). (n, out', s\<lparr>lanes := ls\<rparr>))
       (mp_pop_batch_lanes (mp_lane_order core (length (lanes s))) wide out max_count (lanes s))"

subsection \<open>Monitoring and recovery\<close>

definition mp_occupancy :: "'a mpmc_state \<Rightarrow> u64" where
  "mp_occupancy s = sum_list (map (\<lambda>l. ingress_gate l - egress_gate l) (lanes s))"

definition mp_approx_size :: "'a mpmc_state \<Rightarrow> u64" where
  "mp_approx_size s = mp_occupancy s"

definition mp_invalidate_by_ptr :: "nat \<Rightarrow> 'a \<Rightarrow> 'a \<Rightarrow> 'a mpmc_state \<Rightarrow> 'a mpmc_state" where
  "mp_invalidate_by_ptr W d target s =
     s\<lparr>lanes := map (\<lambda>l. l\<lparr>lane_data := simd_scan W (\<lambda>x. if x = target then d else x) 0 (lane_cap l) (lane_data l)\<rparr>) (lanes s)\<rparr>"

declare lane_push_blocks.simps [simp del] lane_pop_blocks.simps [simp del] mp_push.simps [simp del] mp_pop.simps [simp del]

subsection \<open>Writing consecutive slots\<close>

lemma length_put_slots [simp]: "length (put_slots buf w n f) = length buf"
  by (induction n) auto

lemma put_slots_nth:
  assumes "pow2_cap (length buf)" "n \<le> length buf" "i < length buf"
  shows "put_slots buf w n f ! slot (length buf) (w + of_nat i) =
    (if i < n then f i else buf ! slot (length buf) (w + of_nat i))"
  using assms(2)
proof (induction n)
  case (Suc n)
  have eq: "slot (length buf) (w + of_nat n) = slot (length buf) (w + of_nat i) \<longleftrightarrow> n = i"
    using slot_inj [OF assms(1), of n i w] assms(3) Suc.prems by auto
  show ?case
    using Suc eq slot_less [OF assms(1), of "w + of_nat n"] by (auto simp: nth_list_update)
qed simp

text \<open>The same, seen from an earlier position.\<close>

lemma put_slots_nth_from:
  assumes c: "pow2_cap (length buf)" and n: "m + n \<le> length buf" and i: "i < length buf"
  shows "put_slots buf (e + of_nat m) n f ! slot (length buf) (e + of_nat i) =
    (if m \<le> i \<and> i < m + n then f (i - m) else buf ! slot (length buf) (e + of_nat i))"
proof (cases "m \<le> i")
  case True
  then have eq: "e + of_nat i = e + of_nat m + of_nat (i - m)" by (simp add: of_nat_diff)
  have "put_slots buf (e + of_nat m) n f ! slot (length buf) (e + of_nat m + of_nat (i - m)) =
      (if i - m < n then f (i - m) else buf ! slot (length buf) (e + of_nat m + of_nat (i - m)))"
    using n i by (intro put_slots_nth [OF c]) auto
  moreover have "i - m < n \<longleftrightarrow> m \<le> i \<and> i < m + n" using True by auto
  ultimately show ?thesis by (simp only: eq)
next
  case False
  define j where "j = length buf - m + i"
  have j: "j < length buf" "\<not> j < n" using False n by (auto simp: j_def)
  have mj: "m + j = i + length buf" using False n by (simp add: j_def)
  have "e + of_nat m + of_nat j = e + of_nat (m + j)" by (simp add: add.assoc)
  also have "\<dots> = e + of_nat i + of_nat (length buf)" unfolding mj by (simp add: add.assoc)
  finally have "slot (length buf) (e + of_nat m + of_nat j) = slot (length buf) (e + of_nat i)"
    by (simp only: slot_plus_cap [OF c])
  with put_slots_nth [OF c, of n j "e + of_nat m" f] j n False show ?thesis by simp
qed

lemma put_slots_cells:
  assumes "pow2_cap (length buf)" "n \<le> length buf"
  shows "cells (put_slots buf w n f) w n = map f [0..<n]"
  using assms by (intro nth_equalityI) (auto simp: put_slots_nth)

lemma put_slots_keeps:
  assumes "pow2_cap (length buf)" "m + n \<le> length buf"
  shows "cells (put_slots buf (e + of_nat m) n f) e m = cells buf e m"
  using assms by (intro nth_equalityI) (auto simp: put_slots_nth_from)

lemma put_slots_append:
  "put_slots (put_slots buf w m f) (w + of_nat m) n (\<lambda>k. f (m + k)) = put_slots buf w (m + n) f"
  by (induction n) (simp_all add: add.assoc)

lemma put_slots_1: "buf[slot (length buf) w := f 0] = put_slots buf w 1 f"
  by simp

subsection \<open>The invariant of a lane\<close>

definition lane_fill :: "'a mpmc_lane \<Rightarrow> nat" where
  "lane_fill l = unat (ingress_gate l - egress_gate l)"

definition lane_contents :: "'a mpmc_lane \<Rightarrow> 'a list" where
  "lane_contents l = cells (lane_data l) (egress_gate l) (lane_fill l)"

text \<open>
  At rest, the ticket of each of the \<open>cap\<close> positions from the egress gate on is its position, or
  one more if it holds an item. A lane has at least two slots; the bound above keeps the signed
  distances of the code meaningful.
\<close>

definition lane_wf :: "'a mpmc_lane \<Rightarrow> bool" where
  "lane_wf l \<longleftrightarrow> pow2_cap (lane_cap l) \<and> 2 \<le> lane_cap l \<and> lane_cap l \<le> 2 ^ 62
     \<and> length (sequences l) = lane_cap l \<and> lane_fill l \<le> lane_cap l
     \<and> (\<forall>i<lane_cap l. sequences l ! slot (lane_cap l) (egress_gate l + of_nat i) =
          egress_gate l + of_nat i + (if i < lane_fill l then 1 else 0))"

lemma lane_wfD:
  assumes "lane_wf l"
  shows "pow2_cap (lane_cap l)" "2 \<le> lane_cap l" "lane_cap l \<le> 2 ^ 62" "length (sequences l) = lane_cap l" "lane_fill l \<le> lane_cap l"
    "i < lane_cap l \<Longrightarrow> sequences l ! slot (lane_cap l) (egress_gate l + of_nat i) =
       egress_gate l + of_nat i + (if i < lane_fill l then 1 else 0)"
  using assms by (auto simp: lane_wf_def)

lemma lane_ingress: "ingress_gate l = egress_gate l + of_nat (lane_fill l)"
  by (simp add: lane_fill_def)

lemma length_lane_contents [simp]: "length (lane_contents l) = lane_fill l"
  by (simp add: lane_contents_def)

lemma lane_new_wf:
  assumes "pow2_cap cap" "2 \<le> cap" "cap \<le> 2 ^ 62"
  shows "lane_wf (lane_new cap d) \<and> lane_contents (lane_new cap d) = [] \<and> lane_cap (lane_new cap d) = cap"
proof -
  have "slot cap (of_nat i) = i" if "i < cap" for i
    using slot_add [OF assms(1), of 0 i] that by simp
  with assms show ?thesis
    by (simp add: lane_wf_def lane_new_def lane_cap_def lane_fill_def lane_contents_def)
qed

text \<open>Publishing \<open>n\<close> items behind the last one.\<close>

lemma lane_publish:
  assumes wf: "lane_wf l" and n: "lane_fill l + n \<le> lane_cap l" and f: "f = (\<lambda>k. ingress_gate l + of_nat k + 1)"
    and l': "l' = l\<lparr>ingress_gate := ingress_gate l + of_nat n, lane_data := put_slots (lane_data l) (ingress_gate l) n mem,
      sequences := put_slots (sequences l) (ingress_gate l) n f\<rparr>"
  shows "lane_wf l'" "lane_contents l' = lane_contents l @ map mem [0..<n]" "lane_cap l' = lane_cap l"
proof -
  note w = lane_wfD [OF wf]
  let ?e = "egress_gate l" and ?m = "lane_fill l"
  have cap: "lane_cap l' = lane_cap l" by (simp add: l' lane_cap_def)
  then show "lane_cap l' = lane_cap l" .
  have "unat (ingress_gate l - ?e + of_nat n) = ?m + n"
    unfolding lane_fill_def using n w(3) by (intro unat_add_of_nat) (simp add: lane_fill_def)
  then have fill: "lane_fill l' = ?m + n" by (simp add: l' lane_fill_def algebra_simps)
  have sq: "put_slots (sequences l) (ingress_gate l) n f ! slot (lane_cap l) (?e + of_nat i) =
      ?e + of_nat i + (if i < ?m + n then 1 else 0)" if i: "i < lane_cap l" for i
  proof -
    have "?m \<le> i \<Longrightarrow> ?e + of_nat ?m + of_nat (i - ?m) = ?e + of_nat i" by (simp add: of_nat_diff)
    then show ?thesis
      using put_slots_nth_from [of "sequences l" ?m n i ?e f] w i n lane_ingress [of l] by (auto simp: f)
  qed
  show "lane_wf l'" using w(1,2,3,4) fill sq n by (simp add: lane_wf_def cap) (simp add: l')
  have "cells (put_slots (lane_data l) (ingress_gate l) n mem) ?e (?m + n) = lane_contents l @ map mem [0..<n]"
    using put_slots_keeps [of "lane_data l" ?m n ?e mem] put_slots_cells [of "lane_data l" n "ingress_gate l" mem] w(1) n
    by (simp add: cells_append lane_contents_def lane_cap_def flip: lane_ingress)
  then show "lane_contents l' = lane_contents l @ map mem [0..<n]"
    using fill by (simp add: lane_contents_def) (simp add: l')
qed

text \<open>Retiring the \<open>n\<close> oldest items.\<close>

lemma lane_retire:
  assumes wf: "lane_wf l" and n: "n \<le> lane_fill l" and f: "f = (\<lambda>k. egress_gate l + of_nat k + of_nat (lane_cap l))"
    and l': "l' = l\<lparr>egress_gate := egress_gate l + of_nat n, sequences := put_slots (sequences l) (egress_gate l) n f\<rparr>"
  shows "lane_wf l'" "lane_contents l' = drop n (lane_contents l)" "lane_cap l' = lane_cap l"
proof -
  note w = lane_wfD [OF wf]
  let ?e = "egress_gate l" and ?m = "lane_fill l" and ?c = "lane_cap l"
  have cap: "lane_cap l' = ?c" by (simp add: l' lane_cap_def)
  then show "lane_cap l' = lane_cap l" .
  have "unat (ingress_gate l - ?e - of_nat n) = ?m - n"
    unfolding lane_fill_def using n by (intro unat_sub_of_nat) (simp add: lane_fill_def)
  then have fill: "lane_fill l' = ?m - n" by (simp add: l' lane_fill_def diff_diff_eq)
  have sq: "put_slots (sequences l) ?e n f ! slot ?c (?e + of_nat n + of_nat i) =
      ?e + of_nat n + of_nat i + (if i < ?m - n then 1 else 0)" if i: "i < ?c" for i
  proof (cases "n + i < ?c")
    case True
    have p: "?e + of_nat n + of_nat i = ?e + of_nat (n + i)" by (simp add: add.assoc)
    have "put_slots (sequences l) ?e n f ! slot ?c (?e + of_nat (n + i)) = sequences l ! slot ?c (?e + of_nat (n + i))"
      using put_slots_nth [of "sequences l" n "n + i" ?e f] True w(1,4,5) n by (simp del: of_nat_add)
    moreover have "n + i < ?m \<longleftrightarrow> i < ?m - n" by auto
    ultimately show ?thesis unfolding p using w(6) [OF True] by (simp only:)
  next
    case False
    define j where "j = n + i - ?c"
    have j: "j < n" "j < ?c" using False i n w(5) by (auto simp: j_def)
    have nj: "n + i = j + ?c" using False by (simp add: j_def)
    have "?e + of_nat n + of_nat i = ?e + of_nat (n + i)" by (simp add: add.assoc)
    also have "\<dots> = ?e + of_nat j + of_nat ?c" unfolding nj by (simp add: add.assoc)
    finally have p: "?e + of_nat n + of_nat i = ?e + of_nat j + of_nat ?c" .
    then have "slot ?c (?e + of_nat n + of_nat i) = slot ?c (?e + of_nat j)" by (simp only: slot_plus_cap [OF w(1)])
    with put_slots_nth [of "sequences l" n j ?e f] j w(1,4,5) n have
      "put_slots (sequences l) ?e n f ! slot ?c (?e + of_nat n + of_nat i) = ?e + of_nat j + of_nat ?c" by (simp add: f)
    moreover have "\<not> i < ?m - n" using False w(5) by simp
    ultimately show ?thesis unfolding p by simp
  qed
  show "lane_wf l'" using w(1,2,3,4,5) fill sq n by (simp add: lane_wf_def cap) (simp add: l')
  have "lane_contents l = cells (lane_data l) ?e (n + (?m - n))" using n by (simp add: lane_contents_def)
  then show "lane_contents l' = drop n (lane_contents l)"
    unfolding cells_append using fill by (simp add: lane_contents_def) (simp add: l')
qed

subsection \<open>A lane is a bounded queue\<close>

lemma sint_minus_nat: "0 < n \<Longrightarrow> n \<le> 2 ^ 63 \<Longrightarrow> sint (- of_nat n :: u64) = - int n"
proof -
  assume n: "0 < n" "n \<le> 2 ^ 63"
  have "(- of_nat n :: u64) = word_of_int (- int n)" by simp
  then have "sint (- of_nat n :: u64) = signed_take_bit 63 (- int n)"
    by (simp add: signed_of_int del: of_int_minus of_int_of_nat_eq)
  also have "\<dots> = - int n" using n by (intro signed_take_bit_int_eq_self) auto
  finally show ?thesis .
qed

lemma lane_ticket_full:
  assumes wf: "lane_wf l" and full: "lane_fill l = lane_cap l"
  shows "sequences l ! slot (lane_cap l) (ingress_gate l) \<noteq> ingress_gate l"
    "sint (sequences l ! slot (lane_cap l) (ingress_gate l) - ingress_gate l) < 0"
proof -
  note w = lane_wfD [OF wf]
  let ?e = "egress_gate l"
  have i: "ingress_gate l = ?e + of_nat (lane_cap l)" using full lane_ingress [of l] by simp
  have "slot (lane_cap l) (?e + of_nat 0 + of_nat (lane_cap l)) = slot (lane_cap l) (?e + of_nat 0)" by (rule slot_plus_cap [OF w(1)])
  then have tk: "sequences l ! slot (lane_cap l) (ingress_gate l) = ?e + 1" using w(6) [of 0] w(2) full by (simp add: i)
  have "?e + 1 - ingress_gate l = - of_nat (lane_cap l - 1)" using w(2) by (simp add: i of_nat_diff)
  moreover have "sint (- of_nat (lane_cap l - 1) :: u64) = - int (lane_cap l - 1)" using w(2,3) by (intro sint_minus_nat) auto
  ultimately have "sint (sequences l ! slot (lane_cap l) (ingress_gate l) - ingress_gate l) = - int (lane_cap l - 1)"
    unfolding tk by (simp only:)
  then show "sint (sequences l ! slot (lane_cap l) (ingress_gate l) - ingress_gate l) < 0" using w(2) by simp
  then show "sequences l ! slot (lane_cap l) (ingress_gate l) \<noteq> ingress_gate l" by auto
qed

lemma lane_ticket_room:
  assumes "lane_wf l" "lane_fill l < lane_cap l"
  shows "sequences l ! slot (lane_cap l) (ingress_gate l) = ingress_gate l"
  using lane_wfD(6) [OF assms(1), of "lane_fill l"] assms(2) lane_ingress [of l] by simp

lemma lane_ticket_empty:
  assumes wf: "lane_wf l" and e: "lane_fill l = 0"
  shows "sequences l ! slot (lane_cap l) (egress_gate l) = egress_gate l"
    "sint (sequences l ! slot (lane_cap l) (egress_gate l) - (egress_gate l + 1)) < 0"
proof -
  show t: "sequences l ! slot (lane_cap l) (egress_gate l) = egress_gate l"
    using lane_wfD(6) [OF wf, of 0] lane_wfD(2) [OF wf] e by simp
  have "egress_gate l - (egress_gate l + 1) = - of_nat 1" by (simp add: diff_diff_eq [symmetric])
  then show "sint (sequences l ! slot (lane_cap l) (egress_gate l) - (egress_gate l + 1)) < 0"
    using t sint_minus_nat [of 1] by simp
qed

lemma lane_ticket_item:
  assumes "lane_wf l" "0 < lane_fill l"
  shows "sequences l ! slot (lane_cap l) (egress_gate l) = egress_gate l + 1"
  using lane_wfD(6) [OF assms(1), of 0] lane_wfD(2,5) [OF assms(1)] assms(2) by simp

lemma lane_try_push_full:
  "lane_wf l \<Longrightarrow> lane_fill l = lane_cap l \<Longrightarrow> lane_try_push x l = Some (False, l)"
  using lane_ticket_full [of l] by (simp add: lane_try_push_def Let_def)

lemma lane_try_push_room:
  assumes "lane_wf l" "lane_fill l < lane_cap l"
  shows "\<exists>l'. lane_try_push x l = Some (True, l') \<and> lane_wf l' \<and> lane_contents l' = lane_contents l @ [x] \<and> lane_cap l' = lane_cap l"
proof -
  let ?f = "\<lambda>k. ingress_gate l + of_nat k + 1"
  let ?l' = "l\<lparr>ingress_gate := ingress_gate l + of_nat 1, lane_data := put_slots (lane_data l) (ingress_gate l) 1 (\<lambda>_. x),
    sequences := put_slots (sequences l) (ingress_gate l) 1 ?f\<rparr>"
  have "lane_fill l + 1 \<le> lane_cap l" using assms(2) by simp
  note p = lane_publish [OF assms(1) this refl refl, of "\<lambda>_. x"]
  have "lane_try_push x l = Some (True, ?l')"
    using lane_ticket_room [OF assms] lane_wfD(4) [OF assms(1)]
    by (simp add: lane_try_push_def Let_def lane_cap_def)
  with p show ?thesis by simp
qed

lemma lane_try_pop_empty: "lane_wf l \<Longrightarrow> lane_fill l = 0 \<Longrightarrow> lane_try_pop l = Some (None, l)"
  using lane_ticket_empty [of l] by (simp add: lane_try_pop_def Let_def)

lemma lane_try_pop_item:
  assumes "lane_wf l" "lane_contents l = y # ys"
  shows "\<exists>l'. lane_try_pop l = Some (Some y, l') \<and> lane_wf l' \<and> lane_contents l' = ys \<and> lane_cap l' = lane_cap l"
proof -
  let ?f = "\<lambda>k. egress_gate l + of_nat k + of_nat (lane_cap l)"
  let ?l' = "l\<lparr>egress_gate := egress_gate l + of_nat 1, sequences := put_slots (sequences l) (egress_gate l) 1 ?f\<rparr>"
  have m: "0 < lane_fill l" using assms(2) length_lane_contents [of l] by (metis length_greater_0_conv list.distinct(1))
  then have "1 \<le> lane_fill l" by simp
  note r = lane_retire [OF assms(1) this refl refl]
  have y: "lane_data l ! slot (lane_cap l) (egress_gate l) = y"
    using cells_Cons [OF m, of "lane_data l" "egress_gate l"] assms(2) by (simp add: lane_contents_def lane_cap_def)
  have "lane_try_pop l = Some (Some y, ?l')"
    using lane_ticket_item [OF assms(1) m] lane_wfD(4) [OF assms(1)] y by (simp add: lane_try_pop_def Let_def)
  with r assms(2) show ?thesis by simp
qed

definition lane_tpush :: "'a \<Rightarrow> 'a mpmc_lane \<Rightarrow> bool \<times> 'a mpmc_lane" where
  "lane_tpush x l = (case lane_try_push x l of Some r \<Rightarrow> r | None \<Rightarrow> (False, l))"

definition lane_tpop :: "'a mpmc_lane \<Rightarrow> 'a option \<times> 'a mpmc_lane" where
  "lane_tpop l = (case lane_try_pop l of Some r \<Rightarrow> r | None \<Rightarrow> (None, l))"

lemma lane_contents_Nil: "lane_contents l = [] \<longleftrightarrow> lane_fill l = 0"
  by (metis length_0_conv length_lane_contents)

interpretation lane: fifo_rep lane_wf lane_contents lane_cap lane_tpush lane_tpop
proof unfold_locales
  fix l :: "'a mpmc_lane" assume "lane_wf l"
  then show "length (lane_contents l) \<le> lane_cap l" using lane_wfD(5) by simp
next
  fix l :: "'a mpmc_lane" and x assume "lane_wf l" "length (lane_contents l) = lane_cap l"
  then show "\<exists>l'. lane_tpush x l = (False, l') \<and> lane_wf l' \<and> lane_contents l' = lane_contents l \<and> lane_cap l' = lane_cap l"
    using lane_try_push_full [of l x] by (simp add: lane_tpush_def)
next
  fix l :: "'a mpmc_lane" and x assume "lane_wf l" "length (lane_contents l) < lane_cap l"
  then show "\<exists>l'. lane_tpush x l = (True, l') \<and> lane_wf l' \<and> lane_contents l' = lane_contents l @ [x] \<and> lane_cap l' = lane_cap l"
    using lane_try_push_room [of l x] by (auto simp: lane_tpush_def)
next
  fix l :: "'a mpmc_lane" assume "lane_wf l" "lane_contents l = []"
  then show "\<exists>l'. lane_tpop l = (None, l') \<and> lane_wf l' \<and> lane_contents l' = [] \<and> lane_cap l' = lane_cap l"
    using lane_try_pop_empty [of l] by (simp add: lane_tpop_def lane_contents_Nil)
next
  fix l :: "'a mpmc_lane" and y ys assume "lane_wf l" "lane_contents l = y # ys"
  then show "\<exists>l'. lane_tpop l = (Some y, l') \<and> lane_wf l' \<and> lane_contents l' = ys \<and> lane_cap l' = lane_cap l"
    using lane_try_pop_item [of l y ys] by (auto simp: lane_tpop_def)
qed

text \<open>On a well-formed lane the retry loops end at once: the two adapters hide no spinning.\<close>

lemma lane_try_push_Some: "lane_wf l \<Longrightarrow> lane_try_push x l = Some (lane_tpush x l)"
  using lane_try_push_full [of l x] lane_try_push_room [of l x] lane_wfD(5) [of l]
  by (cases "lane_fill l = lane_cap l") (auto simp: lane_tpush_def)

lemma lane_try_pop_Some: "lane_wf l \<Longrightarrow> lane_try_pop l = Some (lane_tpop l)"
  using lane_try_pop_empty [of l] lane_try_pop_item [of l] by (cases "lane_contents l") (auto simp: lane_tpop_def lane_contents_Nil)

subsection \<open>Batches on a lane\<close>

lemma lane_push_blocks_narrow:
  assumes c: "pow2_cap (length D)" "length Sq = length D" and n: "cnt \<le> length D" and f: "f = (\<lambda>k. pos + of_nat k + 1)"
    and tk: "\<And>k. k < cnt \<Longrightarrow> Sq ! slot (length D) (pos + of_nat k) = pos + of_nat k"
  shows "lane_push_blocks False mem pos j cnt (l\<lparr>lane_data := put_slots D pos (min j cnt) mem, sequences := put_slots Sq pos (min j cnt) f\<rparr>)
    = Some (l\<lparr>lane_data := put_slots D pos cnt mem, sequences := put_slots Sq pos cnt f\<rparr>)"
proof (induction "cnt - j" arbitrary: j rule: less_induct)
  case less
  show ?case
  proof (cases "j < cnt")
    case False
    then show ?thesis by (subst lane_push_blocks.simps) (simp add: min_def)
  next
    case True
    let ?sub = "if j + 8 \<le> cnt then 8 else cnt - j"
    let ?l = "l\<lparr>lane_data := put_slots D pos j mem, sequences := put_slots Sq pos j f\<rparr>"
    have mj: "min j cnt = j" and mn: "min (j + 8) cnt = j + ?sub" using True by auto
    have "put_slots Sq pos j f ! slot (length D) (pos + of_nat (j + k)) = pos + of_nat (j + k)" if "k < ?sub" for k
      using put_slots_nth [of Sq j "j + k" pos f] tk [of "j + k"] that True c n by (auto split: if_splits)
    then have r: "tickets_ready ?l (pos + of_nat j) ?sub 0"
      by (simp add: tickets_ready_def list_all_iff lane_cap_def add.assoc)
    have d: "lane_store False mem pos j ?sub (put_slots D pos j mem) = put_slots D pos (j + ?sub) mem"
      using put_slots_append [of D pos j mem ?sub] by (simp add: lane_store_def)
    have "(\<lambda>k. pos + of_nat j + of_nat k + 1) = (\<lambda>k. f (j + k))" by (simp add: f add.assoc)
    then have s: "put_slots (put_slots Sq pos j f) (pos + of_nat j) ?sub (\<lambda>k. pos + of_nat j + of_nat k + 1) = put_slots Sq pos (j + ?sub) f"
      using put_slots_append [of Sq pos j f ?sub] by simp
    have "lane_push_blocks False mem pos j cnt ?l = lane_push_blocks False mem pos (j + 8) cnt
        (l\<lparr>lane_data := put_slots D pos (j + ?sub) mem, sequences := put_slots Sq pos (j + ?sub) f\<rparr>)"
      using True r by (subst lane_push_blocks.simps) (simp only: Let_def if_True, simp add: d s)
    with less [of "j + 8"] True show ?thesis unfolding mj mn by simp
  qed
qed

lemma lane_claim_count_min: "unat a \<noteq> 0 \<Longrightarrow> unat (lane_claim_count a m) = min (unat a) (unat m)"
  by (auto simp: lane_claim_count_def Let_def word_less_nat_alt min_def)

lemma lane_push_batch_narrow:
  assumes wf: "lane_wf l"
  shows "\<exists>n l'. lane_push_batch False mem max_count l = Some (of_nat n, l') \<and> n = min (lane_cap l - lane_fill l) (unat max_count)
    \<and> lane_wf l' \<and> lane_contents l' = lane_contents l @ map mem [0..<n] \<and> (n = 0 \<longrightarrow> l' = l)"
proof (cases "lane_fill l = lane_cap l")
  case True
  then show ?thesis using lane_ticket_full [OF wf True] wf
    by (intro exI [of _ 0] exI [of _ l]) (simp add: lane_push_batch_def Let_def)
next
  case False
  note w = lane_wfD [OF wf]
  have lt: "lane_fill l < lane_cap l" using False w(5) by simp
  let ?avail = "of_nat (lane_cap l) - (ingress_gate l - egress_gate l) :: u64"
  have "?avail = of_nat (lane_cap l - lane_fill l)" using lt by (simp add: of_nat_diff lane_fill_def)
  moreover have "lane_cap l - lane_fill l < 2 ^ 64" using w(3) by simp
  ultimately have av: "unat ?avail = lane_cap l - lane_fill l" by (simp only: unat_of_nat_u64)
  define n where "n = unat (lane_claim_count ?avail max_count)"
  have "unat ?avail \<noteq> 0" using av lt by simp
  from lane_claim_count_min [OF this, of max_count] have n: "n = min (lane_cap l - lane_fill l) (unat max_count)"
    unfolding n_def av .
  have cw: "lane_claim_count ?avail max_count = of_nat n" by (simp add: n_def)
  let ?f = "\<lambda>k. ingress_gate l + of_nat k + 1"
  let ?l' = "l\<lparr>ingress_gate := ingress_gate l + of_nat n, lane_data := put_slots (lane_data l) (ingress_gate l) n mem,
     sequences := put_slots (sequences l) (ingress_gate l) n ?f\<rparr>"
  have nb: "lane_fill l + n \<le> lane_cap l" using n lt by simp
  note p = lane_publish [OF wf nb refl refl, of mem]
  have tk: "sequences l ! slot (length (lane_data l)) (ingress_gate l + of_nat k) = ingress_gate l + of_nat k" if "k < n" for k
    using w(6) [of "lane_fill l + k"] that nb by (simp add: lane_ingress [of l] lane_cap_def add.assoc)
  have "lane_push_blocks False mem (ingress_gate l) 0 n
      ((l\<lparr>ingress_gate := ingress_gate l + of_nat n\<rparr>)\<lparr>lane_data := lane_data l, sequences := sequences l\<rparr>) = Some ?l'"
    using lane_push_blocks_narrow [of "lane_data l" "sequences l" n ?f "ingress_gate l" mem 0 "l\<lparr>ingress_gate := ingress_gate l + of_nat n\<rparr>"]
      w(1,4) nb tk by (simp add: lane_cap_def)
  then have blk: "lane_push_blocks False mem (ingress_gate l) 0 n (l\<lparr>ingress_gate := ingress_gate l + of_nat n\<rparr>) = Some ?l'" by simp
  have un: "unat (of_nat n :: u64) = n" by (simp add: n_def)
  have pos: "(0 :: u64) < of_nat n \<longleftrightarrow> 0 < n" using un by (simp only: word_less_nat_alt) simp
  have "lane_push_batch False mem max_count l = Some (of_nat n, ?l')"
    using lane_ticket_room [OF wf lt] blk
    by (cases "n = 0") (simp_all add: lane_push_batch_def Let_def cw pos un del: unat_of_nat)
  moreover have "n = 0 \<longrightarrow> ?l' = l" by simp
  ultimately show ?thesis using p n by (intro exI [of _ n] exI [of _ ?l'] conjI) assumption+
qed

lemma lane_load_narrow:
  assumes "k = j + sub" "k \<le> length out"
  shows "lane_load False (map (\<lambda>i. D ! slot (length D) (pos + of_nat i)) [0..<j] @ drop j out) pos j sub D =
    map (\<lambda>i. D ! slot (length D) (pos + of_nat i)) [0..<k] @ drop k out"
proof -
  have "[0..<k] = [0..<j] @ [j..<j + sub]" using assms(1) upt_add_eq_append [of 0 j sub] by simp
  moreover have "map g [j..<j + sub] = map (\<lambda>i. g (j + i)) [0..<sub]" for g :: "nat \<Rightarrow> 'a"
    by (intro nth_equalityI) auto
  ultimately show ?thesis using assms by (simp add: lane_load_def add.commute)
qed

lemma lane_pop_blocks_narrow:
  assumes c: "pow2_cap (length D)" "length Sq = length D" and n: "cnt \<le> length D" "cnt \<le> length out"
    and f: "f = (\<lambda>k. pos + of_nat k + of_nat (length D))"
    and tk: "\<And>k. k < cnt \<Longrightarrow> Sq ! slot (length D) (pos + of_nat k) = pos + of_nat k + 1" and g: "g = (\<lambda>k. D ! slot (length D) (pos + of_nat k))"
  shows "lane_pop_blocks False (map g [0..<min j cnt] @ drop (min j cnt) out) pos j cnt
      (l\<lparr>lane_data := D, sequences := put_slots Sq pos (min j cnt) f\<rparr>)
    = Some (map g [0..<cnt] @ drop cnt out, l\<lparr>lane_data := D, sequences := put_slots Sq pos cnt f\<rparr>)"
proof (induction "cnt - j" arbitrary: j rule: less_induct)
  case less
  show ?case
  proof (cases "j < cnt")
    case False
    then show ?thesis by (subst lane_pop_blocks.simps) (simp add: min_def)
  next
    case True
    let ?sub = "if j + 8 \<le> cnt then 8 else cnt - j"
    let ?l = "l\<lparr>lane_data := D, sequences := put_slots Sq pos j f\<rparr>"
    have mj: "min j cnt = j" and mn: "min (j + 8) cnt = j + ?sub" using True by auto
    have "put_slots Sq pos j f ! slot (length D) (pos + of_nat (j + k)) = pos + of_nat (j + k) + 1" if "k < ?sub" for k
      using put_slots_nth [of Sq j "j + k" pos f] tk [of "j + k"] that True c n by (auto split: if_splits)
    then have r: "tickets_ready ?l (pos + of_nat j) ?sub 1"
      by (simp add: tickets_ready_def list_all_iff lane_cap_def add.assoc)
    have d: "lane_load False (map g [0..<j] @ drop j out) pos j ?sub D = map g [0..<j + ?sub] @ drop (j + ?sub) out"
      unfolding g using n(2) True by (intro lane_load_narrow) auto
    have "(\<lambda>k. pos + of_nat j + of_nat k + of_nat (length D)) = (\<lambda>k. f (j + k))" by (simp add: f add.assoc)
    then have s: "put_slots (put_slots Sq pos j f) (pos + of_nat j) ?sub (\<lambda>k. pos + of_nat j + of_nat k + of_nat (length D)) = put_slots Sq pos (j + ?sub) f"
      using put_slots_append [of Sq pos j f ?sub] by simp
    have "lane_pop_blocks False (map g [0..<j] @ drop j out) pos j cnt ?l =
        lane_pop_blocks False (map g [0..<j + ?sub] @ drop (j + ?sub) out) pos (j + 8) cnt
        (l\<lparr>lane_data := D, sequences := put_slots Sq pos (j + ?sub) f\<rparr>)"
      using True r by (subst lane_pop_blocks.simps) (simp only: Let_def if_True, simp add: d s lane_cap_def)
    with less [of "j + 8"] True show ?thesis unfolding mj mn by simp
  qed
qed

lemma lane_pop_batch_narrow:
  assumes wf: "lane_wf l" and out: "unat max_count \<le> length out"
  shows "\<exists>n l'. lane_pop_batch False out max_count l = Some (of_nat n, take n (lane_contents l) @ drop n out, l')
    \<and> n = min (lane_fill l) (unat max_count) \<and> lane_wf l' \<and> lane_contents l' = drop n (lane_contents l) \<and> (n = 0 \<longrightarrow> l' = l)"
proof (cases "lane_fill l = 0")
  case True
  then show ?thesis using lane_ticket_empty [OF wf True] wf
    by (intro exI [of _ 0] exI [of _ l]) (simp add: lane_pop_batch_def Let_def)
next
  case False
  note w = lane_wfD [OF wf]
  let ?avail = "ingress_gate l - egress_gate l"
  have av: "unat ?avail = lane_fill l" by (simp add: lane_fill_def)
  define n where "n = unat (lane_claim_count ?avail max_count)"
  have "unat ?avail \<noteq> 0" using av False by simp
  from lane_claim_count_min [OF this, of max_count] have n: "n = min (lane_fill l) (unat max_count)"
    unfolding n_def av .
  have cw: "lane_claim_count ?avail max_count = of_nat n" by (simp add: n_def)
  let ?D = "lane_data l" and ?e = "egress_gate l"
  let ?f = "\<lambda>k. ?e + of_nat k + of_nat (lane_cap l)" and ?g = "\<lambda>k. ?D ! slot (length ?D) (?e + of_nat k)"
  let ?l' = "l\<lparr>egress_gate := ?e + of_nat n, sequences := put_slots (sequences l) ?e n ?f\<rparr>"
  have nb: "n \<le> lane_fill l" "n \<le> length out" using n out by simp_all
  note r = lane_retire [OF wf nb(1) refl refl]
  have tk: "sequences l ! slot (length ?D) (?e + of_nat k) = ?e + of_nat k + 1" if "k < n" for k
    using w(6) [of k] that nb w(5) by (simp add: lane_cap_def)
  have "lane_pop_blocks False (map ?g [0..<min 0 n] @ drop (min 0 n) out) ?e 0 n
      ((l\<lparr>egress_gate := ?e + of_nat n\<rparr>)\<lparr>lane_data := ?D, sequences := put_slots (sequences l) ?e (min 0 n) ?f\<rparr>) =
      Some (map ?g [0..<n] @ drop n out, (l\<lparr>egress_gate := ?e + of_nat n\<rparr>)\<lparr>lane_data := ?D, sequences := put_slots (sequences l) ?e n ?f\<rparr>)"
    using w(1,4,5) nb tk by (intro lane_pop_blocks_narrow) (auto simp: lane_cap_def)
  then have blk: "lane_pop_blocks False out ?e 0 n (l\<lparr>egress_gate := ?e + of_nat n\<rparr>) = Some (map ?g [0..<n] @ drop n out, ?l')" by simp
  have ct: "map ?g [0..<n] = take n (lane_contents l)"
    using nb(1) by (simp add: lane_contents_def cells_def take_map min_def)
  have un: "unat (of_nat n :: u64) = n" by (simp add: n_def)
  have pos: "(0 :: u64) < of_nat n \<longleftrightarrow> 0 < n" using un by (simp only: word_less_nat_alt) simp
  have "lane_pop_batch False out max_count l = Some (of_nat n, take n (lane_contents l) @ drop n out, ?l')"
    using lane_ticket_item [OF wf] False blk ct
    by (cases "n = 0") (simp_all add: lane_pop_batch_def Let_def cw pos un del: unat_of_nat)
  moreover have "n = 0 \<longrightarrow> ?l' = l" by simp
  ultimately show ?thesis using r n by (intro exI [of _ n] exI [of _ ?l'] conjI) assumption+
qed

subsection \<open>The conduit: a bag of queues\<close>

definition mp_wf :: "'a mpmc_state \<Rightarrow> bool" where
  "mp_wf s \<longleftrightarrow> pow2_cap (length (lanes s)) \<and> list_all lane_wf (lanes s)"

definition mp_items :: "'a mpmc_state \<Rightarrow> 'a multiset" where
  "mp_items s = sum_list (map (\<lambda>l. mset (lane_contents l)) (lanes s))"

lemma mp_lane_order_all:
  assumes "pow2_cap n"
  shows "set (mp_lane_order core n) = {..<n}" "distinct (mp_lane_order core n)"
proof -
  have inj: "inj_on (mp_select_lane core n) {0..<n}"
    using slot_inj [OF assms] by (auto simp: inj_on_def mp_select_lane_def)
  then show "distinct (mp_lane_order core n)" by (simp add: mp_lane_order_def distinct_map)
  have "mp_select_lane core n ` {0..<n} \<subseteq> {..<n}" using slot_less [OF assms] by (auto simp: mp_select_lane_def)
  moreover have "card (mp_select_lane core n ` {0..<n}) = card {..<n}" using inj by (simp add: card_image)
  ultimately show "set (mp_lane_order core n) = {..<n}" by (simp add: mp_lane_order_def card_subset_eq)
qed

lemma sum_mset_split:
  fixes f :: "'l \<Rightarrow> 'a multiset"
  assumes "i < length ls"
  obtains R where "sum_list (map f ls) = f (ls ! i) + R" "\<And>l. sum_list (map f (ls[i := l])) = f l + R"
proof
  let ?R = "sum_list (map f (take i ls)) + sum_list (map f (drop (Suc i) ls))"
  have "sum_list (map f (take i ls @ ls ! i # drop (Suc i) ls)) = f (ls ! i) + ?R" by simp
  then show "sum_list (map f ls) = f (ls ! i) + ?R" using id_take_nth_drop [OF assms] by simp
  show "sum_list (map f (ls[i := l])) = f l + ?R" for l
    using assms by (simp add: upd_conv_take_nth_drop)
qed

lemma sum_mset_empty: "\<forall>l\<in>set ls. f l = {#} \<Longrightarrow> sum_list (map f ls) = {#}"
  by (induction ls) auto

text \<open>The search over the lanes stops at the first one, in the thread's order, that accepts the item.\<close>

lemma mp_push_lanes_spec:
  assumes "list_all lane_wf ls" "set order \<subseteq> {..<length ls}"
  shows "(\<exists>i l. i \<in> set order \<and> lane_fill (ls ! i) < lane_cap (ls ! i) \<and> mp_push_lanes order x ls = Some (True, ls[i := l])
      \<and> lane_wf l \<and> lane_contents l = lane_contents (ls ! i) @ [x] \<and> lane_cap l = lane_cap (ls ! i))
    \<or> ((\<forall>i\<in>set order. lane_fill (ls ! i) = lane_cap (ls ! i)) \<and> mp_push_lanes order x ls = Some (False, ls))"
  using assms(2)
proof (induction order)
  case (Cons i order)
  have wf: "lane_wf (ls ! i)" using assms(1) Cons.prems by (simp add: list_all_length)
  show ?case
  proof (cases "lane_fill (ls ! i) = lane_cap (ls ! i)")
    case True
    from lane_try_push_full [OF wf this, of x] Cons.IH Cons.prems True show ?thesis by auto
  next
    case False
    then have "lane_fill (ls ! i) < lane_cap (ls ! i)" using lane_wfD(5) [OF wf] by simp
    from lane_try_push_room [OF wf this, of x] this show ?thesis by force
  qed
qed simp

lemma mp_pop_lanes_spec:
  assumes "list_all lane_wf ls" "set order \<subseteq> {..<length ls}"
  shows "(\<exists>i l y ys. i \<in> set order \<and> lane_contents (ls ! i) = y # ys \<and> mp_pop_lanes order ls = Some (Some y, ls[i := l])
      \<and> lane_wf l \<and> lane_contents l = ys \<and> lane_cap l = lane_cap (ls ! i))
    \<or> ((\<forall>i\<in>set order. lane_contents (ls ! i) = []) \<and> mp_pop_lanes order ls = Some (None, ls))"
  using assms(2)
proof (induction order)
  case (Cons i order)
  have wf: "lane_wf (ls ! i)" using assms(1) Cons.prems by (simp add: list_all_length)
  show ?case
  proof (cases "lane_contents (ls ! i)")
    case Nil
    from lane_try_pop_empty [OF wf] Cons.IH Cons.prems Nil show ?thesis by (auto simp: lane_contents_Nil)
  next
    case (Cons y ys)
    from lane_try_pop_item [OF wf this] this show ?thesis by force
  qed
qed simp

lemma mp_wf_update:
  "mp_wf s \<Longrightarrow> i < length (lanes s) \<Longrightarrow> lane_wf l \<Longrightarrow> mp_wf (s\<lparr>lanes := (lanes s)[i := l]\<rparr>)"
  by (auto simp: mp_wf_def list_all_iff dest: set_update_subset_insert [THEN subsetD])

lemma all_lanes: "(\<forall>l\<in>set ls. P l) \<longleftrightarrow> (\<forall>i\<in>{..<length ls}. P (ls ! i))"
  by (auto simp: all_set_conv_all_nth)

lemma mp_try_push_spec:
  assumes "mp_wf s"
  shows "\<exists>ok s'. mp_try_push core x s = Some (ok, s') \<and> mp_wf s' \<and> (ok \<longleftrightarrow> (\<exists>l\<in>set (lanes s). lane_fill l < lane_cap l))
    \<and> mp_items s' = (if ok then add_mset x (mp_items s) else mp_items s)"
proof -
  let ?ls = "lanes s" and ?o = "mp_lane_order core (length (lanes s))"
  have wf: "list_all lane_wf ?ls" "pow2_cap (length ?ls)" using assms by (auto simp: mp_wf_def)
  note o = mp_lane_order_all [OF wf(2), of core]
  from mp_push_lanes_spec [OF wf(1) equalityD1 [OF o(1)], of x]
  consider (room) i l where "i < length ?ls" "lane_fill (?ls ! i) < lane_cap (?ls ! i)" "mp_push_lanes ?o x ?ls = Some (True, ?ls[i := l])"
      "lane_wf l" "lane_contents l = lane_contents (?ls ! i) @ [x]"
    | (full) "\<forall>l\<in>set ?ls. lane_fill l = lane_cap l" "mp_push_lanes ?o x ?ls = Some (False, ?ls)"
    unfolding o(1) by (auto simp: all_lanes)
  then show ?thesis
  proof cases
    case room
    obtain R where "sum_list (map (\<lambda>l. mset (lane_contents l)) ?ls) = mset (lane_contents (?ls ! i)) + R"
        "sum_list (map (\<lambda>l. mset (lane_contents l)) (?ls[i := l])) = mset (lane_contents l) + R"
      using sum_mset_split [OF room(1), of "\<lambda>l. mset (lane_contents l)"] by blast
    then have "mp_items (s\<lparr>lanes := ?ls[i := l]\<rparr>) = add_mset x (mp_items s)" using room(5) by (simp add: mp_items_def)
    with room mp_wf_update [OF assms room(1,4)] show ?thesis by (auto simp: mp_try_push_def)
  next
    case full
    with assms show ?thesis by (auto simp: mp_try_push_def)
  qed
qed

lemma mp_try_pop_spec:
  assumes "mp_wf s"
  shows "\<exists>v s'. mp_try_pop core s = Some (v, s') \<and> mp_wf s' \<and> (v = None \<longleftrightarrow> mp_items s = {#})
    \<and> mp_items s = (case v of None \<Rightarrow> mp_items s' | Some y \<Rightarrow> add_mset y (mp_items s'))"
proof -
  let ?ls = "lanes s" and ?o = "mp_lane_order core (length (lanes s))"
  have wf: "list_all lane_wf ?ls" "pow2_cap (length ?ls)" using assms by (auto simp: mp_wf_def)
  note o = mp_lane_order_all [OF wf(2), of core]
  from mp_pop_lanes_spec [OF wf(1) equalityD1 [OF o(1)]]
  consider (item) i l y ys where "i < length ?ls" "lane_contents (?ls ! i) = y # ys" "mp_pop_lanes ?o ?ls = Some (Some y, ?ls[i := l])"
      "lane_wf l" "lane_contents l = ys"
    | (empty) "\<forall>l\<in>set ?ls. lane_contents l = []" "mp_pop_lanes ?o ?ls = Some (None, ?ls)"
    unfolding o(1) by (auto simp: all_lanes)
  then show ?thesis
  proof cases
    case item
    obtain R where "sum_list (map (\<lambda>l. mset (lane_contents l)) ?ls) = mset (lane_contents (?ls ! i)) + R"
        "sum_list (map (\<lambda>l. mset (lane_contents l)) (?ls[i := l])) = mset (lane_contents l) + R"
      using sum_mset_split [OF item(1), of "\<lambda>l. mset (lane_contents l)"] by blast
    then have "mp_items s = add_mset y (mp_items (s\<lparr>lanes := ?ls[i := l]\<rparr>))" using item(2,5) by (simp add: mp_items_def)
    with item mp_wf_update [OF assms item(1,4)] show ?thesis by (auto simp: mp_try_pop_def)
  next
    case empty
    then have "mp_items s = {#}" by (simp add: mp_items_def sum_mset_empty)
    with empty assms show ?thesis by (auto simp: mp_try_pop_def)
  qed
qed

lemma mp_map_lanes_replicate: "mp_map_lanes mmap b cap n d = Some ls \<Longrightarrow> ls = replicate n (lane_new cap d)"
  by (induction n arbitrary: ls) (auto split: option.splits)

lemma mp_new_wf:
  assumes "mp_new mmap requested num_lanes item_bytes d = Some s" "pow2_cap num_lanes"
    and "pow2_cap (mp_lane_capacity requested num_lanes)" "2 \<le> mp_lane_capacity requested num_lanes"
    and "mp_lane_capacity requested num_lanes \<le> 2 ^ 62"
  shows "mp_wf s" "mp_items s = {#}"
proof -
  have l: "lanes s = replicate num_lanes (lane_new (mp_lane_capacity requested num_lanes) d)"
    using assms(1) mp_map_lanes_replicate by (auto simp: mp_new_def Let_def)
  note n = lane_new_wf [OF assms(3,4,5), of d]
  show "mp_wf s" using l n assms(2) by (simp add: mp_wf_def list_all_iff)
  show "mp_items s = {#}" unfolding mp_items_def by (rule sum_mset_empty) (simp add: l n)
qed

text \<open>A batch goes to the first lane that has room, or comes from the first that has items.\<close>

lemma word_pos_of_nat: "n \<le> unat (m :: u64) \<Longrightarrow> unat (of_nat n :: u64) = n \<and> ((0 :: u64) < of_nat n \<longleftrightarrow> 0 < n)"
proof -
  assume "n \<le> unat m"
  then have "unat (of_nat n :: u64) = n" using unat_lt_u64 [of m] by (intro unat_of_nat_u64) linarith
  then show ?thesis by (simp only: word_less_nat_alt) simp
qed

lemma mp_push_batch_lanes_spec:
  assumes "list_all lane_wf ls" "set order \<subseteq> {..<length ls}"
  shows "(\<exists>i l n. i \<in> set order \<and> 0 < n \<and> n = min (lane_cap (ls ! i) - lane_fill (ls ! i)) (unat max_count)
      \<and> mp_push_batch_lanes order False mem max_count ls = Some (of_nat n, ls[i := l])
      \<and> lane_wf l \<and> lane_contents l = lane_contents (ls ! i) @ map mem [0..<n])
    \<or> ((\<forall>i\<in>set order. max_count = 0 \<or> lane_fill (ls ! i) = lane_cap (ls ! i))
      \<and> mp_push_batch_lanes order False mem max_count ls = Some (0, ls))"
  using assms(2)
proof (induction order)
  case (Cons i order)
  have wf: "lane_wf (ls ! i)" using assms(1) Cons.prems by (simp add: list_all_length)
  obtain n l where n: "lane_push_batch False mem max_count (ls ! i) = Some (of_nat n, l)"
      "n = min (lane_cap (ls ! i) - lane_fill (ls ! i)) (unat max_count)" "lane_wf l"
      "lane_contents l = lane_contents (ls ! i) @ map mem [0..<n]" "n = 0 \<longrightarrow> l = ls ! i"
    using lane_push_batch_narrow [OF wf, of mem max_count] by (elim exE conjE) (rule that)
  have "n \<le> unat max_count" using n(2) by simp
  note pos = word_pos_of_nat [OF this, THEN conjunct2]
  show ?case
  proof (cases "0 < n")
    case True
    then show ?thesis using n pos by (intro disjI1 exI [of _ i] exI [of _ l] exI [of _ n]) simp
  next
    case False
    then have "max_count = 0 \<or> lane_fill (ls ! i) = lane_cap (ls ! i)"
      using n(2) lane_wfD(5) [OF wf] by (auto simp: unat_eq_zero min_def split: if_splits)
    moreover have "mp_push_batch_lanes (i # order) False mem max_count ls = mp_push_batch_lanes order False mem max_count ls"
      using n(1,5) pos False by simp
    ultimately show ?thesis using Cons.IH Cons.prems by (simp del: mp_push_batch_lanes.simps) blast
  qed
qed simp

lemma mp_pop_batch_lanes_spec:
  assumes "list_all lane_wf ls" "set order \<subseteq> {..<length ls}" "unat max_count \<le> length out"
  shows "(\<exists>i l n. i \<in> set order \<and> 0 < n \<and> n = min (lane_fill (ls ! i)) (unat max_count)
      \<and> mp_pop_batch_lanes order False out max_count ls = Some (of_nat n, take n (lane_contents (ls ! i)) @ drop n out, ls[i := l])
      \<and> lane_wf l \<and> lane_contents l = drop n (lane_contents (ls ! i)))
    \<or> ((\<forall>i\<in>set order. max_count = 0 \<or> lane_contents (ls ! i) = [])
      \<and> mp_pop_batch_lanes order False out max_count ls = Some (0, out, ls))"
  using assms(2)
proof (induction order)
  case (Cons i order)
  have wf: "lane_wf (ls ! i)" using assms(1) Cons.prems by (simp add: list_all_length)
  obtain n l where n: "lane_pop_batch False out max_count (ls ! i) = Some (of_nat n, take n (lane_contents (ls ! i)) @ drop n out, l)"
      "n = min (lane_fill (ls ! i)) (unat max_count)" "lane_wf l"
      "lane_contents l = drop n (lane_contents (ls ! i))" "n = 0 \<longrightarrow> l = ls ! i"
    using lane_pop_batch_narrow [OF wf assms(3)] by (elim exE conjE) (rule that)
  have "n \<le> unat max_count" using n(2) by simp
  note pos = word_pos_of_nat [OF this, THEN conjunct2]
  show ?case
  proof (cases "0 < n")
    case True
    then show ?thesis using n pos by (intro disjI1 exI [of _ i] exI [of _ l] exI [of _ n]) simp
  next
    case False
    then have "max_count = 0 \<or> lane_contents (ls ! i) = []"
      using n(2) by (auto simp: unat_eq_zero lane_contents_Nil min_def split: if_splits)
    moreover have "mp_pop_batch_lanes (i # order) False out max_count ls = mp_pop_batch_lanes order False out max_count ls"
      using n(1,5) pos False by simp
    ultimately show ?thesis using Cons.IH Cons.prems by (simp del: mp_pop_batch_lanes.simps) blast
  qed
qed simp

lemma mp_push_batch_spec:
  assumes "mp_wf s"
  shows "\<exists>n s'. mp_push_batch core False mem max_count s = Some (of_nat n, s') \<and> mp_wf s' \<and> n \<le> unat max_count
    \<and> mp_items s' = mp_items s + mset (map mem [0..<n])
    \<and> (n = 0 \<longleftrightarrow> max_count = 0 \<or> (\<forall>l\<in>set (lanes s). lane_fill l = lane_cap l))"
proof -
  let ?ls = "lanes s" and ?o = "mp_lane_order core (length (lanes s))" and ?f = "\<lambda>l. mset (lane_contents l)"
  have wf: "list_all lane_wf ?ls" "pow2_cap (length ?ls)" using assms by (auto simp: mp_wf_def)
  note o = mp_lane_order_all [OF wf(2), of core]
  from mp_push_batch_lanes_spec [OF wf(1) equalityD1 [OF o(1)], of max_count mem]
  show ?thesis
  proof (elim disjE exE conjE)
    fix i l n
    assume i: "i \<in> set ?o" "0 < n" "n = min (lane_cap (?ls ! i) - lane_fill (?ls ! i)) (unat max_count)"
      "mp_push_batch_lanes ?o False mem max_count ?ls = Some (of_nat n, ?ls[i := l])" "lane_wf l"
      "lane_contents l = lane_contents (?ls ! i) @ map mem [0..<n]"
    have lt: "i < length ?ls" using i(1) o(1) by auto
    obtain R where "sum_list (map ?f ?ls) = ?f (?ls ! i) + R" "\<And>l. sum_list (map ?f (?ls[i := l])) = ?f l + R"
      using sum_mset_split [OF lt, of ?f] by blast
    then have "mp_items (s\<lparr>lanes := ?ls[i := l]\<rparr>) = mp_items s + mset (map mem [0..<n])" using i(6) by (simp add: mp_items_def)
    moreover have "?ls ! i \<in> set ?ls" "lane_fill (?ls ! i) \<noteq> lane_cap (?ls ! i)" "max_count \<noteq> 0" using lt i by auto
    ultimately show ?thesis using i(2,3,4) mp_wf_update [OF assms(1) lt i(5)]
      by (intro exI [of _ n] exI [of _ "s\<lparr>lanes := ?ls[i := l]\<rparr>"]) (auto simp: mp_push_batch_def)
  next
    assume "\<forall>i\<in>set ?o. max_count = 0 \<or> lane_fill (?ls ! i) = lane_cap (?ls ! i)" "mp_push_batch_lanes ?o False mem max_count ?ls = Some (0, ?ls)"
    then show ?thesis unfolding o(1) all_lanes using assms(1)
      by (intro exI [of _ 0] exI [of _ s]) (auto simp: mp_push_batch_def)
  qed
qed

lemma mp_pop_batch_spec:
  assumes "mp_wf s" "unat max_count \<le> length out"
  shows "\<exists>n ys s'. mp_pop_batch core False out max_count s = Some (of_nat n, ys @ drop n out, s') \<and> mp_wf s' \<and> n \<le> unat max_count
    \<and> length ys = n \<and> mp_items s = mset ys + mp_items s' \<and> (n = 0 \<longleftrightarrow> max_count = 0 \<or> mp_items s = {#})"
proof -
  let ?ls = "lanes s" and ?o = "mp_lane_order core (length (lanes s))" and ?f = "\<lambda>l. mset (lane_contents l)"
  have wf: "list_all lane_wf ?ls" "pow2_cap (length ?ls)" using assms by (auto simp: mp_wf_def)
  note o = mp_lane_order_all [OF wf(2), of core]
  from mp_pop_batch_lanes_spec [OF wf(1) equalityD1 [OF o(1)] assms(2)]
  show ?thesis
  proof (elim disjE exE conjE)
    fix i l n
    assume i: "i \<in> set ?o" "0 < n" "n = min (lane_fill (?ls ! i)) (unat max_count)"
      "mp_pop_batch_lanes ?o False out max_count ?ls = Some (of_nat n, take n (lane_contents (?ls ! i)) @ drop n out, ?ls[i := l])" "lane_wf l"
      "lane_contents l = drop n (lane_contents (?ls ! i))"
    have lt: "i < length ?ls" using i(1) o(1) by auto
    obtain R where R: "sum_list (map ?f ?ls) = ?f (?ls ! i) + R" "\<And>l. sum_list (map ?f (?ls[i := l])) = ?f l + R"
      using sum_mset_split [OF lt, of ?f] by blast
    let ?ys = "take n (lane_contents (?ls ! i))"
    have "mset ?ys + mset (drop n (lane_contents (?ls ! i))) = ?f (?ls ! i)" by (metis append_take_drop_id mset_append)
    then have items: "mp_items s = mset ?ys + mp_items (s\<lparr>lanes := ?ls[i := l]\<rparr>)" using i(6) R by (simp add: mp_items_def flip: union_assoc)
    have len: "length ?ys = n" "max_count \<noteq> 0" using i(2,3) by auto
    then have "?ys \<noteq> []" using i(2) by (metis length_0_conv less_irrefl)
    then have "mp_items s \<noteq> {#}" using items by simp
    then have "n = 0 \<longleftrightarrow> max_count = 0 \<or> mp_items s = {#}" using i(2) len(2) by simp
    moreover have "mp_pop_batch core False out max_count s = Some (of_nat n, ?ys @ drop n out, s\<lparr>lanes := ?ls[i := l]\<rparr>)"
      using i(4) by (simp add: mp_pop_batch_def)
    moreover have "n \<le> unat max_count" using i(3) by simp
    ultimately show ?thesis using items len(1) mp_wf_update [OF assms(1) lt i(5)] by blast
  next
    assume e: "\<forall>i\<in>set ?o. max_count = 0 \<or> lane_contents (?ls ! i) = []" "mp_pop_batch_lanes ?o False out max_count ?ls = Some (0, out, ?ls)"
    then have "max_count = 0 \<or> mp_items s = {#}" unfolding o(1) mp_items_def using sum_mset_empty [of ?ls ?f] by (auto simp: all_lanes)
    with e(2) assms(1) show ?thesis
      by (intro exI [of _ 0] exI [of _ "[]"] exI [of _ s]) (auto simp: mp_pop_batch_def)
  qed
qed

subsection \<open>Properties\<close>

text \<open>
  (C12) Single pushes and pops on the whole conduit, used by one thread, when its lanes have at least
  two slots each (a requested size above the number of lanes, itself a power of two): a push fails exactly if every lane is full, and
  otherwise adds its item; a pop fails exactly if the conduit is empty, and otherwise removes one
  item that was in it. The search over the lanes never spins.
\<close>

theorem mp_try_push_pop_bag:
  assumes "mp_wf s"
  shows "(\<exists>ok s'. mp_try_push core x s = Some (ok, s') \<and> mp_wf s' \<and> (ok \<longleftrightarrow> (\<exists>l\<in>set (lanes s). lane_fill l < lane_cap l))
      \<and> mp_items s' = (if ok then add_mset x (mp_items s) else mp_items s))
    \<and> (\<exists>v s'. mp_try_pop core s = Some (v, s') \<and> mp_wf s' \<and> (v = None \<longleftrightarrow> mp_items s = {#})
      \<and> mp_items s = (case v of None \<Rightarrow> mp_items s' | Some y \<Rightarrow> add_mset y (mp_items s')))"
  using mp_try_push_spec [OF assms] mp_try_pop_spec [OF assms] by blast

definition mp_example :: "nat mpmc_state" where
  "mp_example = \<lparr>lanes = replicate 2 (lane_new 2 0), aphasic_fn = 0, agnosia_ctx = 0\<rparr>"

lemma mp_example_wf: "mp_wf mp_example" "mp_items mp_example = {#}" "\<And>l. l \<in> set (lanes mp_example) \<Longrightarrow> lane_fill l = 0 \<and> lane_cap l = 2"
proof -
  have c: "pow2_cap 2" using pow2_cap_of [of 1] by simp
  have l: "lane_wf (lane_new 2 (0::nat))" "lane_contents (lane_new 2 (0::nat)) = []" "lane_cap (lane_new 2 (0::nat)) = 2"
    using lane_new_wf [OF c, of "0::nat"] by simp_all
  then show "mp_wf mp_example" using c by (simp add: mp_wf_def mp_example_def list_all_iff)
  show "mp_items mp_example = {#}" unfolding mp_items_def by (rule sum_mset_empty) (simp add: mp_example_def l)
  show "\<And>l. l \<in> set (lanes mp_example) \<Longrightarrow> lane_fill l = 0 \<and> lane_cap l = 2"
    using l by (auto simp: mp_example_def lane_contents_Nil)
qed

theorem mp_try_push_pop_bag_witness:
  "\<exists>s'. mp_try_push 7 (5::nat) mp_example = Some (True, s') \<and> mp_items s' = {#5#}"
proof -
  have "\<exists>l\<in>set (lanes mp_example). lane_fill l < lane_cap l"
    using mp_example_wf(3) [of "lane_new 2 0"] by (auto simp: mp_example_def)
  with mp_try_push_pop_bag [OF mp_example_wf(1), of 7 5] mp_example_wf(2) show ?thesis by auto
qed

text \<open>
  Batches of items that are not 8 bytes wide: a batch push appends the first \<open>n\<close> items of the
  batch, in order, to one lane, and stops short only at that lane's room; a batch pop delivers the
  \<open>n\<close> oldest items of one lane, in order, to the front of the output array and leaves the rest of it.
\<close>

theorem mp_batch_narrow:
  assumes "mp_wf s" and "unat max_count \<le> length out"
  shows "(\<exists>n s'. mp_push_batch core False mem max_count s = Some (of_nat n, s') \<and> mp_wf s' \<and> n \<le> unat max_count
      \<and> mp_items s' = mp_items s + mset (map mem [0..<n])
      \<and> (n = 0 \<longleftrightarrow> max_count = 0 \<or> (\<forall>l\<in>set (lanes s). lane_fill l = lane_cap l)))
    \<and> (\<exists>n ys s'. mp_pop_batch core False out max_count s = Some (of_nat n, ys @ drop n out, s') \<and> mp_wf s' \<and> n \<le> unat max_count
      \<and> length ys = n \<and> mp_items s = mset ys + mp_items s' \<and> (n = 0 \<longleftrightarrow> max_count = 0 \<or> mp_items s = {#}))"
  using mp_push_batch_spec [OF assms(1), of core mem max_count] mp_pop_batch_spec [OF assms, of core] by (rule conjI)

theorem mp_batch_narrow_witness:
  "\<exists>n s'. mp_push_batch 3 False (\<lambda>k. k + 5) 2 mp_example = Some (of_nat n, s') \<and> n \<noteq> 0 \<and> mp_items s' = mset (map (\<lambda>k. k + 5) [0..<n])"
proof -
  have "\<exists>l\<in>set (lanes mp_example). lane_fill l \<noteq> lane_cap l"
    using mp_example_wf(3) [of "lane_new 2 0"] by (auto simp: mp_example_def)
  moreover have "unat (2 :: u64) \<le> length [0 :: nat, 0]" by simp
  ultimately show ?thesis
    using mp_batch_narrow [OF mp_example_wf(1), of 2 "[0, 0]" 3 "\<lambda>k. k + 5"] mp_example_wf(2) by auto
qed

text \<open>A full-looking lane of 8 slots: items 1 to 7 in the slots 1 to 7, and slot 0 free for position 8.\<close>

definition seven_items :: "nat mpmc_lane" where
  "seven_items = \<lparr>sequences = [8, 2, 3, 4, 5, 6, 7, 8], lane_data = [0, 1, 2, 3, 4, 5, 6, 7], ingress_gate = 8, egress_gate = 1\<rparr>"

definition one_item :: "nat mpmc_lane" where
  "one_item = (lane_new 8 0)\<lparr>sequences := [1, 1, 2, 3, 4, 5, 6, 7], lane_data := [9, 0, 0, 0, 0, 0, 0, 0], ingress_gate := 1\<rparr>"

lemma all_less_8: "(\<forall>i<8. P (i :: nat)) \<longleftrightarrow> P 0 \<and> P 1 \<and> P 2 \<and> P 3 \<and> P 4 \<and> P 5 \<and> P 6 \<and> P 7"
proof -
  have "{..<8 :: nat} = {0, 1, 2, 3, 4, 5, 6, 7}" by auto
  then show ?thesis by (metis insert_iff lessThan_iff singletonD)
qed

lemma seven_items_wf: "lane_wf seven_items" "lane_contents seven_items = [1, 2, 3, 4, 5, 6, 7]"
proof -
  have c: "lane_cap seven_items = 8" by (simp add: lane_cap_def seven_items_def)
  have "pow2_cap 8" using pow2_cap_of [of 3] by simp
  then show "lane_wf seven_items"
    unfolding lane_wf_def c all_less_8 by (simp add: lane_fill_def seven_items_def slot_def)
  show "lane_contents seven_items = [1, 2, 3, 4, 5, 6, 7]"
    by (simp add: lane_contents_def lane_fill_def seven_items_def cells_def slot_def upt_rec)
qed

text \<open>
  Batches of 8-byte items lose data. The vector path stores 8 items however short the last
  sub-batch is: pushing one item into a lane that holds seven replaces all seven by whatever lies
  in memory behind the pushed item. Popping one item writes seven more behind the caller's array.
\<close>

theorem mp_wide_batch_clobbers:
  "lane_wf seven_items \<and> lane_contents seven_items = [1, 2, 3, 4, 5, 6, 7]
   \<and> map_option (\<lambda>(n, l). (n, lane_contents l)) (lane_push_batch True mem 1 seven_items) =
       Some (1, [mem 1, mem 2, mem 3, mem 4, mem 5, mem 6, mem 7, mem 0])
   \<and> map_option (\<lambda>(n, out, l). (n, out)) (lane_pop_batch True (replicate 9 x) 1 one_item) =
       Some (1, [9, 0, 0, 0, 0, 0, 0, 0, x])"
proof -
  have "map_option (\<lambda>(n, l). (n, lane_contents l)) (lane_push_batch True mem 1 seven_items) =
      Some (1, [mem 1, mem 2, mem 3, mem 4, mem 5, mem 6, mem 7, mem 0])"
    by code_simp
  moreover have "map_option (\<lambda>(n, out, l). (n, out)) (lane_pop_batch True (replicate 9 x) 1 one_item) =
      Some (1, [9, 0, 0, 0, 0, 0, 0, 0, x])"
    by code_simp
  ultimately show ?thesis using seven_items_wf by blast
qed

text \<open>
  A conduit whose requested size does not exceed its number of lanes has lanes of one slot, and
  these lose items: the ticket after a push is already the next position, so that a second push
  succeeds and overwrites the item that was never popped.
\<close>

theorem mp_single_slot_lane_overwrites:
  assumes "requested \<le> num_lanes" and "num_lanes = 2 ^ Suc k"
  shows "mp_lane_capacity requested num_lanes = 1
    \<and> (\<exists>l1 l2. lane_try_push x (lane_new 1 d) = Some (True, l1) \<and> lane_try_push y l1 = Some (True, l2)
        \<and> lane_data l2 = [y] \<and> ingress_gate l2 = 2 \<and> egress_gate l2 = 0)"
proof
  obtain j where j: "bit_ceil requested = 2 ^ j" "j = 0 \<or> 2 ^ j < 2 * requested" using bit_ceil_pow2 by blast
  have "bit_ceil requested \<le> num_lanes"
  proof (cases "j = 0")
    case False
    then have "(2 :: nat) ^ j < 2 ^ Suc (Suc k)" using j(2) assms by simp
    then have "j < Suc (Suc k)" by (rule power_less_imp_less_exp [rotated]) simp
    then show ?thesis unfolding j(1) assms(2) by (intro power_increasing) auto
  qed (use j assms(2) in simp)
  moreover have "2 \<le> num_lanes" using assms(2) by simp
  ultimately have "mp_total_size requested num_lanes = num_lanes" by (simp add: mp_total_size_def Let_def)
  then show "mp_lane_capacity requested num_lanes = 1" using assms(2) by (simp add: mp_lane_capacity_def)
  let ?l1 = "(lane_new 1 d)\<lparr>ingress_gate := 1, lane_data := [x], sequences := [1]\<rparr>"
  let ?l2 = "?l1\<lparr>ingress_gate := 2, lane_data := [y], sequences := [2]\<rparr>"
  have "lane_try_push x (lane_new 1 d) = Some (True, ?l1)" "lane_try_push y ?l1 = Some (True, ?l2)"
    by (simp_all add: lane_try_push_def lane_new_def lane_cap_def slot_def)
  then show "\<exists>l1 l2. lane_try_push x (lane_new 1 d) = Some (True, l1) \<and> lane_try_push y l1 = Some (True, l2)
      \<and> lane_data l2 = [y] \<and> ingress_gate l2 = 2 \<and> egress_gate l2 = 0"
    by (intro exI [of _ ?l1] exI [of _ ?l2]) (simp add: lane_new_def)
qed

theorem mp_single_slot_lane_overwrites_witness:
  "mp_lane_capacity 8 8 = 1 \<and> (\<exists>l1 l2. lane_try_push (1::nat) (lane_new 1 0) = Some (True, l1) \<and> lane_try_push 2 l1 = Some (True, l2)
     \<and> lane_data l2 = [2] \<and> ingress_gate l2 = 2 \<and> egress_gate l2 = 0)"
  by (rule mp_single_slot_lane_overwrites [of 8 8 2]) simp_all

end
