(* ===== verification/Mpmc_Counting.thy ===== *)
theory Mpmc_Counting
  imports Mpmc_Conduit
begin

section \<open>One lane of \<^verbatim>\<open>mpmc_conduit\<close> with unbounded positions\<close>

text \<open>
  The state of a lane that many threads use at once, for any type \<open>'p\<close> of positions, and the
  lane's algorithm with natural numbers as positions. It is the specification the 64-bit
  algorithm of the code is shown to refine, as long as the positions stay below \<open>2 ^ 63\<close>.

  \<open>in_past\<close> and \<open>out_past\<close> list the values the two gates have held. The history variable \<open>claimed\<close>
  lists the items in the order of their claims, so that position \<open>p\<close> was claimed for item
  \<open>claimed ! p\<close>; \<open>taken\<close> collects the completed pops with their positions; \<open>cur\<close> is the position a
  slot currently serves. The invariant gives, for every interleaving, that no item is lost,
  duplicated or torn: the pop at position \<open>p\<close> delivers the item of the push at position \<open>p\<close>.
\<close>

datatype ('p, 'a) thread_pc =
    T_Idle
  | P_Pos 'p 'a | P_Ticket 'p 'a | P_Claimed 'p 'a | P_Stored 'p 'a
  | C_Pos 'p | C_Ticket 'p | C_Claimed 'p | C_Loaded 'p 'a

record ('p, 't, 'a) lane_sys =
  tickets :: "'p list"
  cell :: "'a list"
  in_gate :: 'p
  out_gate :: 'p
  pc :: "'t \<Rightarrow> ('p, 'a) thread_pc"
  in_past :: "'p list"
  out_past :: "'p list"
  cur :: "nat \<Rightarrow> 'p"
  claimed :: "'a list"
  taken :: "('p \<times> 'a) list"

definition sys_cap :: "('p, 't, 'a) lane_sys \<Rightarrow> nat" where
  "sys_cap s = length (cell s)"

definition count_new :: "nat \<Rightarrow> 'a \<Rightarrow> (nat, 't, 'a) lane_sys" where
  "count_new cap d = \<lparr>tickets = [0..<cap], cell = replicate cap d, in_gate = 0, out_gate = 0, pc = (\<lambda>_. T_Idle),
     in_past = [0], out_past = [0],
     cur = (\<lambda>k. k), claimed = [], taken = []\<rparr>"

abbreviation at_pc :: "'t \<Rightarrow> ('p, 'a) thread_pc \<Rightarrow> ('p, 't, 'a) lane_sys \<Rightarrow> ('p, 't, 'a) lane_sys" where
  "at_pc t p s \<equiv> s\<lparr>pc := (pc s)(t := p)\<rparr>"

inductive count_step :: "(nat, 't, 'a) lane_sys \<Rightarrow> (nat, 't, 'a) lane_sys \<Rightarrow> bool" where
  push_load: "pc s t = T_Idle \<Longrightarrow> q \<le> in_gate s \<Longrightarrow> count_step s (at_pc t (P_Pos q x) s)"
| push_match: "pc s t = P_Pos p x \<Longrightarrow> tickets s ! (p mod sys_cap s) = p \<Longrightarrow> count_step s (at_pc t (P_Ticket p x) s)"
| push_full: "pc s t = P_Pos p x \<Longrightarrow> tickets s ! (p mod sys_cap s) < p \<Longrightarrow> count_step s (at_pc t T_Idle s)"
| push_reload: "pc s t = P_Pos p x \<Longrightarrow> p < tickets s ! (p mod sys_cap s) \<Longrightarrow> q \<le> in_gate s \<Longrightarrow> count_step s (at_pc t (P_Pos q x) s)"
| push_cas: "pc s t = P_Ticket p x \<Longrightarrow> in_gate s = p \<Longrightarrow>
    count_step s (at_pc t (P_Claimed p x) (s\<lparr>in_gate := p + 1, in_past := (p + 1) # in_past s, claimed := claimed s @ [x]\<rparr>))"
| push_cas_fail: "pc s t = P_Ticket p x \<Longrightarrow> in_gate s \<noteq> p \<Longrightarrow> count_step s (at_pc t (P_Pos (in_gate s) x) s)"
| push_store: "pc s t = P_Claimed p x \<Longrightarrow>
    count_step s (at_pc t (P_Stored p x) (s\<lparr>cell := (cell s)[p mod sys_cap s := x]\<rparr>))"
| push_release: "pc s t = P_Stored p x \<Longrightarrow>
    count_step s (at_pc t T_Idle (s\<lparr>tickets := (tickets s)[p mod sys_cap s := p + 1]\<rparr>))"
| pop_load: "pc s t = T_Idle \<Longrightarrow> q \<le> out_gate s \<Longrightarrow> count_step s (at_pc t (C_Pos q) s)"
| pop_match: "pc s t = C_Pos p \<Longrightarrow> tickets s ! (p mod sys_cap s) = p + 1 \<Longrightarrow> count_step s (at_pc t (C_Ticket p) s)"
| pop_empty: "pc s t = C_Pos p \<Longrightarrow> tickets s ! (p mod sys_cap s) < p + 1 \<Longrightarrow> count_step s (at_pc t T_Idle s)"
| pop_reload: "pc s t = C_Pos p \<Longrightarrow> p + 1 < tickets s ! (p mod sys_cap s) \<Longrightarrow> q \<le> out_gate s \<Longrightarrow> count_step s (at_pc t (C_Pos q) s)"
| pop_cas: "pc s t = C_Ticket p \<Longrightarrow> out_gate s = p \<Longrightarrow> count_step s (at_pc t (C_Claimed p) (s\<lparr>out_gate := p + 1, out_past := (p + 1) # out_past s\<rparr>))"
| pop_cas_fail: "pc s t = C_Ticket p \<Longrightarrow> out_gate s \<noteq> p \<Longrightarrow> count_step s (at_pc t (C_Pos (out_gate s)) s)"
| pop_read: "pc s t = C_Claimed p \<Longrightarrow> count_step s (at_pc t (C_Loaded p (cell s ! (p mod sys_cap s))) s)"
| pop_release: "pc s t = C_Loaded p v \<Longrightarrow>
    count_step s (at_pc t T_Idle (s\<lparr>tickets := (tickets s)[p mod sys_cap s := p + sys_cap s],
      cur := (cur s)(p mod sys_cap s := p + sys_cap s), taken := taken s @ [(p, v)]\<rparr>))"

subsection \<open>The invariant\<close>

text \<open>The position a thread holds exclusively as a producer or as a consumer.\<close>

fun push_claim :: "('p, 'a) thread_pc \<Rightarrow> 'p option" where
  "push_claim (P_Claimed p x) = Some p" | "push_claim (P_Stored p x) = Some p" | "push_claim _ = None"

fun pop_claim :: "('p, 'a) thread_pc \<Rightarrow> 'p option" where
  "pop_claim (C_Claimed p) = Some p" | "pop_claim (C_Loaded p v) = Some p" | "pop_claim _ = None"

definition slot_free :: "(nat, 't, 'a) lane_sys \<Rightarrow> nat \<Rightarrow> bool" where
  "slot_free s p \<longleftrightarrow> cur s (p mod sys_cap s) = p \<and> tickets s ! (p mod sys_cap s) = p"

definition slot_full :: "(nat, 't, 'a) lane_sys \<Rightarrow> nat \<Rightarrow> bool" where
  "slot_full s p \<longleftrightarrow> cur s (p mod sys_cap s) = p \<and> tickets s ! (p mod sys_cap s) = p + 1"

fun thread_ok :: "(nat, 't, 'a) lane_sys \<Rightarrow> (nat, 'a) thread_pc \<Rightarrow> bool" where
  "thread_ok s T_Idle \<longleftrightarrow> True"
| "thread_ok s (P_Pos p x) \<longleftrightarrow> p \<le> in_gate s"
| "thread_ok s (P_Ticket p x) \<longleftrightarrow> p < in_gate s \<or> p = in_gate s \<and> slot_free s p"
| "thread_ok s (P_Claimed p x) \<longleftrightarrow> p < in_gate s \<and> slot_free s p \<and> claimed s ! p = x"
| "thread_ok s (P_Stored p x) \<longleftrightarrow> p < in_gate s \<and> slot_free s p \<and> claimed s ! p = x \<and> cell s ! (p mod sys_cap s) = x"
| "thread_ok s (C_Pos p) \<longleftrightarrow> p \<le> out_gate s"
| "thread_ok s (C_Ticket p) \<longleftrightarrow> p < out_gate s \<or> p = out_gate s \<and> slot_full s p"
| "thread_ok s (C_Claimed p) \<longleftrightarrow> p < out_gate s \<and> slot_full s p"
| "thread_ok s (C_Loaded p v) \<longleftrightarrow> p < out_gate s \<and> slot_full s p \<and> claimed s ! p = v"

text \<open>What a slot says about the position it serves.\<close>

definition slot_ok :: "(nat, 't, 'a) lane_sys \<Rightarrow> nat \<Rightarrow> bool" where
  "slot_ok s k \<longleftrightarrow> cur s k mod sys_cap s = k \<and> in_gate s \<le> cur s k + sys_cap s
     \<and> (tickets s ! k = cur s k \<and> out_gate s \<le> cur s k
        \<or> tickets s ! k = cur s k + 1 \<and> cur s k < in_gate s \<and> cell s ! k = claimed s ! cur s k)"

definition taken_ok :: "(nat, 't, 'a) lane_sys \<Rightarrow> bool" where
  "taken_ok s \<longleftrightarrow> distinct (map fst (taken s))
     \<and> (\<forall>(p, v)\<in>set (taken s). p < out_gate s \<and> claimed s ! p = v \<and> p < cur s (p mod sys_cap s))"

definition lane_inv :: "(nat, 't, 'a) lane_sys \<Rightarrow> bool" where
  "lane_inv s \<longleftrightarrow> 2 \<le> sys_cap s \<and> length (tickets s) = sys_cap s \<and> length (claimed s) = in_gate s \<and> out_gate s \<le> in_gate s
     \<and> (\<forall>k. k < sys_cap s \<longrightarrow> slot_ok s k) \<and> (\<forall>t. thread_ok s (pc s t))
     \<and> (\<forall>t u p. push_claim (pc s t) = Some p \<longrightarrow> push_claim (pc s u) = Some p \<longrightarrow> t = u)
     \<and> (\<forall>t u p. pop_claim (pc s t) = Some p \<longrightarrow> pop_claim (pc s u) = Some p \<longrightarrow> t = u)
     \<and> taken_ok s"

lemma count_new_inv: "2 \<le> cap \<Longrightarrow> lane_inv (count_new cap d)"
  by (simp add: lane_inv_def count_new_def sys_cap_def slot_ok_def taken_ok_def)

lemma mod_Suc_neq: "2 \<le> c \<Longrightarrow> Suc p mod c \<noteq> p mod (c :: nat)"
  by (auto simp: mod_Suc)

lemma lane_invD:
  assumes "lane_inv s"
  shows "2 \<le> sys_cap s" "length (tickets s) = sys_cap s" "length (claimed s) = in_gate s" "out_gate s \<le> in_gate s"
    "k < sys_cap s \<Longrightarrow> slot_ok s k" "thread_ok s (pc s t)"
    "push_claim (pc s t) = Some p \<Longrightarrow> push_claim (pc s u) = Some p \<Longrightarrow> t = u"
    "pop_claim (pc s t) = Some p \<Longrightarrow> pop_claim (pc s u) = Some p \<Longrightarrow> t = u" "taken_ok s"
  using assms by (auto simp: lane_inv_def)

text \<open>The ticket a thread waits for can only be that of its own position.\<close>

lemma ticket_free:
  assumes "lane_inv s" "tickets s ! (p mod sys_cap s) = p"
  shows "slot_free s p"
proof -
  have k: "p mod sys_cap s < sys_cap s" using lane_invD(1) [OF assms(1)] by simp
  have "cur s (p mod sys_cap s) = p"
  proof (rule ccontr)
    assume "cur s (p mod sys_cap s) \<noteq> p"
    then have "p = Suc (cur s (p mod sys_cap s))" "cur s (p mod sys_cap s) mod sys_cap s = p mod sys_cap s"
      using lane_invD(5) [OF assms(1) k] assms(2) by (auto simp: slot_ok_def)
    then show False using mod_Suc_neq [OF lane_invD(1) [OF assms(1)]] by metis
  qed
  then show ?thesis using assms(2) by (simp add: slot_free_def)
qed

lemma ticket_full:
  assumes "lane_inv s" "tickets s ! (p mod sys_cap s) = p + 1"
  shows "slot_full s p"
proof -
  have k: "p mod sys_cap s < sys_cap s" using lane_invD(1) [OF assms(1)] by simp
  have "cur s (p mod sys_cap s) = p"
  proof (rule ccontr)
    assume "cur s (p mod sys_cap s) \<noteq> p"
    then have "cur s (p mod sys_cap s) = Suc p" "cur s (p mod sys_cap s) mod sys_cap s = p mod sys_cap s"
      using lane_invD(5) [OF assms(1) k] assms(2) by (auto simp: slot_ok_def)
    then show False using mod_Suc_neq [OF lane_invD(1) [OF assms(1)]] by metis
  qed
  then show ?thesis using assms(2) by (simp add: slot_full_def)
qed

lemma sys_cap_upd [simp]:
  "sys_cap (s\<lparr>in_gate := i\<rparr>) = sys_cap s" "sys_cap (s\<lparr>out_gate := i\<rparr>) = sys_cap s" "sys_cap (s\<lparr>claimed := xs\<rparr>) = sys_cap s"
  "sys_cap (s\<lparr>tickets := ts\<rparr>) = sys_cap s" "sys_cap (s\<lparr>cur := cs\<rparr>) = sys_cap s" "sys_cap (s\<lparr>taken := tk\<rparr>) = sys_cap s"
  "sys_cap (s\<lparr>pc := f\<rparr>) = sys_cap s" "sys_cap (s\<lparr>in_past := ps\<rparr>) = sys_cap s" "sys_cap (s\<lparr>out_past := ps\<rparr>) = sys_cap s"
  "sys_cap (s\<lparr>cell := (cell s)[k := x]\<rparr>) = sys_cap s"
  by (simp_all add: sys_cap_def)

lemma slot_state_upd [simp]:
  "slot_free (s\<lparr>in_gate := i\<rparr>) p = slot_free s p" "slot_full (s\<lparr>in_gate := i\<rparr>) p = slot_full s p"
  "slot_free (s\<lparr>out_gate := i\<rparr>) p = slot_free s p" "slot_full (s\<lparr>out_gate := i\<rparr>) p = slot_full s p"
  "slot_free (s\<lparr>claimed := xs\<rparr>) p = slot_free s p" "slot_full (s\<lparr>claimed := xs\<rparr>) p = slot_full s p"
  "slot_free (s\<lparr>in_past := ps\<rparr>) p = slot_free s p" "slot_full (s\<lparr>in_past := ps\<rparr>) p = slot_full s p"
  "slot_free (s\<lparr>out_past := ps\<rparr>) p = slot_free s p" "slot_full (s\<lparr>out_past := ps\<rparr>) p = slot_full s p"
  "slot_free (s\<lparr>cell := (cell s)[k := x]\<rparr>) p = slot_free s p" "slot_full (s\<lparr>cell := (cell s)[k := x]\<rparr>) p = slot_full s p"
  by (simp_all add: slot_free_def slot_full_def)

lemma pc_irrelevant [simp]:
  "slot_ok (s\<lparr>pc := f\<rparr>) k = slot_ok s k" "thread_ok (s\<lparr>pc := f\<rparr>) q = thread_ok s q"
  "taken_ok (s\<lparr>pc := f\<rparr>) = taken_ok s" "slot_free (s\<lparr>pc := f\<rparr>) p = slot_free s p" "slot_full (s\<lparr>pc := f\<rparr>) p = slot_full s p"
  by (cases q; simp add: sys_cap_def slot_ok_def taken_ok_def slot_free_def slot_full_def)+

text \<open>A step that changes the lane to \<open>s'\<close>: what is left to show of the invariant.\<close>

lemma inv_step:
  assumes inv: "lane_inv s" and pcs: "pc s' = pc s" and g: "sys_cap s' = sys_cap s" "length (tickets s') = sys_cap s"
      "length (claimed s') = in_gate s'" "out_gate s' \<le> in_gate s'"
    and slots: "\<And>k. k < sys_cap s \<Longrightarrow> slot_ok s k \<Longrightarrow> slot_ok s' k"
    and others: "\<And>u. u \<noteq> t \<Longrightarrow> thread_ok s (pc s u) \<Longrightarrow> thread_ok s' (pc s u)" and own: "thread_ok s' q"
    and push: "\<And>u p. u \<noteq> t \<Longrightarrow> push_claim q = Some p \<Longrightarrow> push_claim (pc s u) \<noteq> Some p"
    and pop: "\<And>u p. u \<noteq> t \<Longrightarrow> pop_claim q = Some p \<Longrightarrow> pop_claim (pc s u) \<noteq> Some p"
    and tk: "taken_ok s'"
  shows "lane_inv (at_pc t q s')"
proof -
  note i = lane_invD [OF inv]
  have th: "thread_ok s' (pc (at_pc t q s') u)" for u using others own i(6) [of u] by (simp add: pcs)
  show ?thesis
    unfolding lane_inv_def
  proof (intro conjI allI impI)
    show "u = w" if "push_claim (pc (at_pc t q s') u) = Some p" "push_claim (pc (at_pc t q s') w) = Some p" for u w p
      using that i(7) [of u p w] push [of w p] push [of u p] by (auto simp: pcs split: if_splits)
    show "u = w" if "pop_claim (pc (at_pc t q s') u) = Some p" "pop_claim (pc (at_pc t q s') w) = Some p" for u w p
      using that i(8) [of u p w] pop [of w p] pop [of u p] by (auto simp: pcs split: if_splits)
    show "slot_ok (at_pc t q s') k" if "k < sys_cap (at_pc t q s')" for k using slots i(5) that g(1) by simp
    show "thread_ok (at_pc t q s') (pc (at_pc t q s') u)" for u using th by simp
  qed (use i(1) g tk in simp_all)
qed

text \<open>A step that changes nothing but the place of its thread.\<close>

lemma inv_move:
  assumes inv: "lane_inv s" and "thread_ok s q" "push_claim q = None \<or> push_claim q = push_claim (pc s t)"
    "pop_claim q = None \<or> pop_claim q = pop_claim (pc s t)"
  shows "lane_inv (at_pc t q s)"
proof -
  note i = lane_invD [OF inv]
  have a: "push_claim (pc s u) \<noteq> Some p" if "u \<noteq> t" "push_claim q = Some p" for u p
    using i(7) [of u p t] that(1) assms(3) by (metis option.distinct(1) that(2))
  have b: "pop_claim (pc s u) \<noteq> Some p" if "u \<noteq> t" "pop_claim q = Some p" for u p
    using i(8) [of u p t] that(1) assms(4) by (metis option.distinct(1) that(2))
  show ?thesis by (rule inv_step [OF inv refl refl i(2,3,4) _ _ assms(2) a b i(9)])
qed

lemma inv_push_cas:
  assumes inv: "lane_inv s" and pc: "pc s t = P_Ticket p x" "in_gate s = p"
  shows "lane_inv (at_pc t (P_Claimed p x) (s\<lparr>in_gate := p + 1, in_past := (p + 1) # in_past s, claimed := claimed s @ [x]\<rparr>))" (is "lane_inv (at_pc t _ ?s')")
proof (rule inv_step [OF inv])
  note i = lane_invD [OF inv]
  have free: "slot_free s p" using i(6) [of t] pc by simp
  have nth: "(claimed s @ [x]) ! r = claimed s ! r" if "r < p" for r using that i(3) pc by (simp add: nth_append)
  show "sys_cap ?s' = sys_cap s" "length (tickets ?s') = sys_cap s" using i by simp_all
  show "slot_ok ?s' k" if "k < sys_cap s" "slot_ok s k" for k
  proof -
    have "p \<noteq> cur s k + sys_cap s" using free that i(1) by (auto simp: slot_free_def slot_ok_def)
    then show ?thesis using that pc nth by (auto simp: slot_ok_def)
  qed
  show "thread_ok ?s' (pc s u)" if "u \<noteq> t" "thread_ok s (pc s u)" for u
    using that pc i(4) nth by (cases "pc s u") auto
  show "thread_ok ?s' (P_Claimed p x)" using free i(3) pc by (auto simp: nth_append)
  show "push_claim (pc s u) \<noteq> Some r" if "push_claim (P_Claimed p x) = Some r" for u r
    using i(6) [of u] that pc by (cases "pc s u") auto
  show "taken_ok ?s'" using i(4,9) pc nth by (fastforce simp: taken_ok_def)
qed (use lane_invD(1,2,3,4) [OF inv] pc in auto)

lemma inv_push_store:
  assumes inv: "lane_inv s" and pc: "pc s t = P_Claimed p x"
  shows "lane_inv (at_pc t (P_Stored p x) (s\<lparr>cell := (cell s)[p mod sys_cap s := x]\<rparr>))" (is "lane_inv (at_pc t _ ?s')")
proof (rule inv_step [OF inv])
  note i = lane_invD [OF inv]
  have own: "p < in_gate s" "slot_free s p" "claimed s ! p = x" using i(6) [of t] pc by simp_all
  have k0: "p mod sys_cap s < length (cell s)" using i(1) unfolding sys_cap_def by (intro mod_less_divisor) linarith
  show "sys_cap ?s' = sys_cap s" "length (tickets ?s') = sys_cap s" using i by simp_all
  show "slot_ok ?s' k" if "k < sys_cap s" "slot_ok s k" for k
    using that own(2) by (cases "k = p mod sys_cap s") (auto simp: slot_ok_def slot_free_def)
  show "thread_ok ?s' (pc s u)" if u: "u \<noteq> t" "thread_ok s (pc s u)" for u
  proof (cases "pc s u")
    case (P_Stored r y)
    then have "slot_free s r" "r \<noteq> p" using u i(7) [of u p t] pc by auto
    then have "p mod sys_cap s \<noteq> r mod sys_cap s" using own(2) by (auto simp: slot_free_def)
    then show ?thesis using u P_Stored by simp
  qed (use u in \<open>auto\<close>)
  show "thread_ok ?s' (P_Stored p x)" using own k0 by simp
  show "push_claim (pc s u) \<noteq> Some r" if "u \<noteq> t" "push_claim (P_Stored p x) = Some r" for u r
    using i(7) [of u r t] that pc by auto
  show "taken_ok ?s'" using i(9) by (simp add: taken_ok_def)
qed (use lane_invD(1,2,3,4) [OF inv] in auto)

lemma inv_push_release:
  assumes inv: "lane_inv s" and pc: "pc s t = P_Stored p x"
  shows "lane_inv (at_pc t T_Idle (s\<lparr>tickets := (tickets s)[p mod sys_cap s := p + 1]\<rparr>))" (is "lane_inv (at_pc t _ ?s')")
proof (rule inv_step [OF inv])
  note i = lane_invD [OF inv]
  have own: "p < in_gate s" "slot_free s p" "claimed s ! p = x" "cell s ! (p mod sys_cap s) = x" using i(6) [of t] pc by simp_all
  have k0: "p mod sys_cap s < length (tickets s)" using i(1,2) by simp
  have fr: "slot_free s r \<Longrightarrow> r \<noteq> p \<Longrightarrow> slot_free ?s' r" "slot_full s r \<Longrightarrow> slot_full ?s' r" for r
    using own(2) by (cases "r mod sys_cap s = p mod sys_cap s"; auto simp: slot_free_def slot_full_def)+
  show "sys_cap ?s' = sys_cap s" "length (tickets ?s') = sys_cap s" using i by simp_all
  show "slot_ok ?s' k" if "k < sys_cap s" "slot_ok s k" for k
    using that own k0 by (cases "k = p mod sys_cap s") (auto simp: slot_ok_def slot_free_def)
  show "thread_ok ?s' (pc s u)" if u: "u \<noteq> t" "thread_ok s (pc s u)" for u
    using u i(7) [of u p t] pc own(1) fr by (cases "pc s u") auto
  show "taken_ok ?s'" using i(9) by (simp add: taken_ok_def)
qed (use lane_invD(1,2,3,4) [OF inv] in auto)

lemma inv_pop_cas:
  assumes inv: "lane_inv s" and pc: "pc s t = C_Ticket p" "out_gate s = p"
  shows "lane_inv (at_pc t (C_Claimed p) (s\<lparr>out_gate := p + 1, out_past := (p + 1) # out_past s\<rparr>))" (is "lane_inv (at_pc t _ ?s')")
proof (rule inv_step [OF inv])
  note i = lane_invD [OF inv]
  have full: "slot_full s p" using i(6) [of t] pc by simp
  have "p mod sys_cap s < sys_cap s" using i(1) by simp
  from i(5) [OF this] full have lt: "p < in_gate s" by (auto simp: slot_ok_def slot_full_def)
  show "sys_cap ?s' = sys_cap s" "length (tickets ?s') = sys_cap s" "out_gate ?s' \<le> in_gate ?s'" using i lt by simp_all
  show "slot_ok ?s' k" if "k < sys_cap s" "slot_ok s k" for k
  proof -
    have "\<not> (tickets s ! k = cur s k \<and> cur s k = p)" using full that by (auto simp: slot_full_def slot_ok_def)
    then show ?thesis using that pc by (auto simp: slot_ok_def)
  qed
  show "thread_ok ?s' (pc s u)" if "u \<noteq> t" "thread_ok s (pc s u)" for u
    using that pc by (cases "pc s u") auto
  show "thread_ok ?s' (C_Claimed p)" using full by simp
  show "pop_claim (pc s u) \<noteq> Some r" if "pop_claim (C_Claimed p) = Some r" for u r
    using i(6) [of u] that pc by (cases "pc s u") auto
  show "taken_ok ?s'" using i(9) pc by (fastforce simp: taken_ok_def)
qed (use lane_invD(1,2,3,4) [OF inv] in auto)

lemma inv_pop_release:
  assumes inv: "lane_inv s" and pc: "pc s t = C_Loaded p v"
  shows "lane_inv (at_pc t T_Idle (s\<lparr>tickets := (tickets s)[p mod sys_cap s := p + sys_cap s],
      cur := (cur s)(p mod sys_cap s := p + sys_cap s), taken := taken s @ [(p, v)]\<rparr>))" (is "lane_inv (at_pc t _ ?s')")
proof (rule inv_step [OF inv])
  note i = lane_invD [OF inv]
  have own: "p < out_gate s" "slot_full s p" "claimed s ! p = v" using i(6) [of t] pc by simp_all
  have k0: "p mod sys_cap s < length (tickets s)" "p mod sys_cap s < sys_cap s" using i(1,2) by simp_all
  have room: "in_gate s \<le> p + sys_cap s" using i(5) [OF k0(2)] own(2) by (simp add: slot_ok_def slot_full_def)
  have fr: "slot_free s r \<Longrightarrow> slot_free ?s' r" "slot_full s r \<Longrightarrow> r \<noteq> p \<Longrightarrow> slot_full ?s' r" for r
    using own(2) by (cases "r mod sys_cap s = p mod sys_cap s"; auto simp: slot_free_def slot_full_def)+
  show "sys_cap ?s' = sys_cap s" "length (tickets ?s') = sys_cap s" using i by simp_all
  show "slot_ok ?s' k" if "k < sys_cap s" "slot_ok s k" for k
    using that k0 room i(4) by (cases "k = p mod sys_cap s") (auto simp: slot_ok_def)
  show "thread_ok ?s' (pc s u)" if u: "u \<noteq> t" "thread_ok s (pc s u)" for u
    using u i(8) [of u p t] pc own(1) fr by (cases "pc s u") auto
  have old: "q < out_gate s" "claimed s ! q = w" "q < cur s (q mod sys_cap s)" if "(q, w) \<in> set (taken s)" for q w
    using i(9) that by (auto simp: taken_ok_def)
  have "p \<notin> fst ` set (taken s)" using old own(2) by (force simp: slot_full_def)
  moreover have "q < (if q mod sys_cap s = p mod sys_cap s then p + sys_cap s else cur s (q mod sys_cap s))" if "(q, w) \<in> set (taken s)" for q w
    using old(3) [OF that] own(2) by (auto simp: slot_full_def)
  ultimately show "taken_ok ?s'" using i(1,9) own old by (auto simp: taken_ok_def)
qed (use lane_invD(1,2,3,4) [OF inv] in auto)

lemma count_step_inv: "count_step s s' \<Longrightarrow> lane_inv s \<Longrightarrow> lane_inv s'"
proof (induction rule: count_step.induct)
  case (push_cas s t p x)
  then show ?case by (intro inv_push_cas)
next
  case (push_store s t p x)
  then show ?case by (intro inv_push_store)
next
  case (push_release s t p x)
  then show ?case by (intro inv_push_release)
next
  case (pop_cas s t p)
  then show ?case by (intro inv_pop_cas)
next
  case (pop_release s t p v)
  then show ?case by (intro inv_pop_release)
next
  case (push_match s t p x)
  then show ?case using ticket_free [of s p] lane_invD(6) [of s t] by (intro inv_move) auto
next
  case (pop_match s t p)
  then show ?case using ticket_full [of s p] lane_invD(6) [of s t] by (intro inv_move) auto
next
  case (pop_read s t p)
  then have full: "p < out_gate s" "slot_full s p" using lane_invD(6) [of s t] by auto
  have "slot_ok s (p mod sys_cap s)" using pop_read.prems lane_invD(1,5) [of s] by simp
  then have "cell s ! (p mod sys_cap s) = claimed s ! p" using full by (auto simp: slot_ok_def slot_full_def)
  with full pop_read show ?case by (intro inv_move) auto
qed (auto intro!: inv_move)

lemma lane_reachable_inv: "count_step\<^sup>*\<^sup>* s s' \<Longrightarrow> lane_inv s \<Longrightarrow> lane_inv s'"
  by (induction rule: rtranclp_induct) (auto intro: count_step_inv)

subsection \<open>No position is lost\<close>

text \<open>Every claimed position is accounted for: delivered, in the hands of a thread, or in its slot.\<close>

definition accounted :: "(nat, 't, 'a) lane_sys \<Rightarrow> bool" where
  "accounted s \<longleftrightarrow> (\<forall>p < out_gate s. p \<in> fst ` set (taken s) \<or> (\<exists>t. pop_claim (pc s t) = Some p))
     \<and> (\<forall>p < in_gate s. p < out_gate s \<or> slot_full s p \<or> (\<exists>t. push_claim (pc s t) = Some p))"

lemma accounted_move:
  assumes "accounted s" "push_claim q = push_claim (pc s t)" "pop_claim q = pop_claim (pc s t)"
  shows "accounted (at_pc t q s)"
  using assms by (fastforce simp: accounted_def)

lemma accounted_popD: "accounted s \<Longrightarrow> p < out_gate s \<Longrightarrow> p \<in> fst ` set (taken s) \<or> (\<exists>t. pop_claim (pc s t) = Some p)"
  and accounted_pushD: "accounted s \<Longrightarrow> p < in_gate s \<Longrightarrow> p < out_gate s \<or> slot_full s p \<or> (\<exists>t. push_claim (pc s t) = Some p)"
  by (auto simp: accounted_def)

lemma accounted_push_release:
  assumes inv: "lane_inv s" and acc: "accounted s" and pc: "pc s t = P_Stored p x"
  shows "accounted (at_pc t T_Idle (s\<lparr>tickets := (tickets s)[p mod sys_cap s := p + 1]\<rparr>))" (is "accounted (at_pc t _ ?s')")
proof -
  note i = lane_invD [OF inv]
  have own: "slot_free s p" using i(6) [of t] pc by simp
  have k0: "p mod sys_cap s < length (tickets s)" using i(1,2) by simp
  have full: "slot_full ?s' p" using own k0 by (simp add: slot_free_def slot_full_def)
  have keep: "slot_full s r \<Longrightarrow> slot_full ?s' r" for r
    using own by (cases "r mod sys_cap s = p mod sys_cap s") (auto simp: slot_free_def slot_full_def)
  have "\<exists>u. pop_claim (((pc s)(t := T_Idle)) u) = Some r" if "pop_claim (pc s w) = Some r" for r w
    by (rule exI [of _ w]) (use that pc in auto)
  moreover have "r = p \<or> (\<exists>u. push_claim (((pc s)(t := T_Idle)) u) = Some r)" if "push_claim (pc s w) = Some r" for r w
    by (cases "w = t") (use that pc in \<open>auto intro: exI [of _ w]\<close>)
  ultimately show ?thesis using accounted_popD [OF acc] accounted_pushD [OF acc] keep full
    unfolding accounted_def by (simp del: fun_upd_apply) metis
qed

lemma accounted_pop_release:
  assumes inv: "lane_inv s" and acc: "accounted s" and pc: "pc s t = C_Loaded p v"
  shows "accounted (at_pc t T_Idle (s\<lparr>tickets := (tickets s)[p mod sys_cap s := p + sys_cap s],
      cur := (cur s)(p mod sys_cap s := p + sys_cap s), taken := taken s @ [(p, v)]\<rparr>))" (is "accounted (at_pc t _ ?s')")
proof -
  note i = lane_invD [OF inv]
  have own: "slot_full s p" "p < out_gate s" using i(6) [of t] pc by simp_all
  have keep: "slot_full s r \<Longrightarrow> r \<noteq> p \<Longrightarrow> slot_full ?s' r" for r
    using own by (cases "r mod sys_cap s = p mod sys_cap s") (auto simp: slot_full_def)
  have "r = p \<or> (\<exists>u. pop_claim (((pc s)(t := T_Idle)) u) = Some r)" if "pop_claim (pc s w) = Some r" for r w
    by (cases "w = t") (use that pc in \<open>auto intro: exI [of _ w]\<close>)
  moreover have "\<exists>u. push_claim (((pc s)(t := T_Idle)) u) = Some r" if "push_claim (pc s w) = Some r" for r w
    by (rule exI [of _ w]) (use that pc in auto)
  ultimately show ?thesis using accounted_popD [OF acc] accounted_pushD [OF acc] keep own(2)
    unfolding accounted_def by (simp del: fun_upd_apply) metis
qed

lemma accounted_cas:
  assumes acc: "accounted s"
  shows "pc s t = P_Ticket p x \<Longrightarrow> in_gate s = p \<Longrightarrow> accounted (at_pc t (P_Claimed p x) (s\<lparr>in_gate := p + 1, in_past := ps, claimed := xs\<rparr>))"
    and "pc s t = C_Ticket p \<Longrightarrow> out_gate s = p \<Longrightarrow> accounted (at_pc t (C_Claimed p) (s\<lparr>out_gate := p + 1, out_past := (p + 1) # out_past s\<rparr>))"
proof -
  have keep: "\<exists>u. f (((pc s)(t := q)) u) = Some r" if "f (pc s w) = Some r" "f (pc s t) = None" for f :: "(nat, 'b) thread_pc \<Rightarrow> nat option" and q r w
    by (rule exI [of _ w]) (use that in auto)
  have new: "\<exists>u. f (((pc s)(t := q)) u) = Some r" if "f q = Some r" for f :: "(nat, 'b) thread_pc \<Rightarrow> nat option" and q r
    by (rule exI [of _ t]) (use that in auto)
  show "accounted (at_pc t (P_Claimed p x) (s\<lparr>in_gate := p + 1, in_past := ps, claimed := xs\<rparr>))" if "pc s t = P_Ticket p x" "in_gate s = p"
    using that accounted_popD [OF acc] accounted_pushD [OF acc] keep [of pop_claim] keep [of push_claim] new [of push_claim]
    unfolding accounted_def by (simp del: fun_upd_apply add: less_Suc_eq) metis
  show "accounted (at_pc t (C_Claimed p) (s\<lparr>out_gate := p + 1, out_past := (p + 1) # out_past s\<rparr>))" if "pc s t = C_Ticket p" "out_gate s = p"
    using that accounted_popD [OF acc] accounted_pushD [OF acc] keep [of pop_claim] keep [of push_claim] new [of pop_claim]
    unfolding accounted_def by (simp del: fun_upd_apply add: less_Suc_eq) metis
qed

lemma accounted_cell [simp]: "accounted (s\<lparr>cell := (cell s)[k := x]\<rparr>) = accounted s"
  by (simp add: accounted_def)

lemma count_step_accounted: "count_step s s' \<Longrightarrow> lane_inv s \<Longrightarrow> accounted s \<Longrightarrow> accounted s'"
proof (induction rule: count_step.induct)
  case (push_store s t p x)
  then show ?case using accounted_move [of "s\<lparr>cell := (cell s)[p mod sys_cap s := x]\<rparr>" "P_Stored p x" t] by simp
next
  case (push_release s t p x)
  then show ?case by (intro accounted_push_release)
next
  case (pop_release s t p v)
  then show ?case by (intro accounted_pop_release)
next
  case (push_cas s t p x)
  then show ?case by (intro accounted_cas)
next
  case (pop_cas s t p)
  then show ?case by (intro accounted_cas)
qed (auto intro!: accounted_move)

lemma count_step_cap: "count_step s s' \<Longrightarrow> sys_cap s' = sys_cap s"
  by (induction rule: count_step.induct) simp_all

lemma count_steps_cap: "count_step\<^sup>*\<^sup>* s s' \<Longrightarrow> sys_cap s' = sys_cap s"
  by (induction rule: rtranclp_induct) (simp_all add: count_step_cap)

lemma lane_reachable:
  assumes "count_step\<^sup>*\<^sup>* (count_new cap d) s" "2 \<le> cap"
  shows "lane_inv s" "accounted s" "sys_cap s = cap"
proof -
  have *: "lane_inv s \<and> accounted s" using assms(1)
  proof (induction rule: rtranclp_induct)
    case base
    then show ?case using count_new_inv [OF assms(2)] by (simp add: accounted_def count_new_def)
  qed (auto intro: count_step_inv count_step_accounted)
  then show "lane_inv s" "accounted s" by auto
  show "sys_cap s = cap" using count_steps_cap [OF assms(1)] by (simp add: count_new_def sys_cap_def)
qed

subsection \<open>What every interleaving gives\<close>

lemma claims_distinct_slots:
  assumes inv: "lane_inv s" and "t \<noteq> u"
    and "push_claim (pc s t) = Some p \<or> pop_claim (pc s t) = Some p" "push_claim (pc s u) = Some q \<or> pop_claim (pc s u) = Some q"
  shows "p mod sys_cap s \<noteq> q mod sys_cap s"
proof
  assume eq: "p mod sys_cap s = q mod sys_cap s"
  have own: "(push_claim (pc s w) = Some r \<longrightarrow> slot_free s r) \<and> (pop_claim (pc s w) = Some r \<longrightarrow> slot_full s r)" for w r
    using lane_invD(6) [OF inv, of w] by (cases "pc s w") auto
  have "cur s (p mod sys_cap s) = p" "cur s (q mod sys_cap s) = q"
    using own [of t p] own [of u q] assms(3,4) by (auto simp: slot_free_def slot_full_def)
  then have "p = q" unfolding eq by (rule trans [OF sym])
  then show False using own [of t p] own [of u q] assms(2,3,4) lane_invD(7,8) [OF inv, of t p u]
    by (auto simp: slot_free_def slot_full_def)
qed

lemma idle_taken:
  assumes inv: "lane_inv s" and acc: "accounted s" and idle: "\<And>t. pc s t = T_Idle"
  shows "fst ` set (taken s) = {..<out_gate s}" "\<And>p. out_gate s \<le> p \<Longrightarrow> p < in_gate s \<Longrightarrow> slot_full s p"
  using accounted_popD [OF acc] accounted_pushD [OF acc] lane_invD(9) [OF inv] idle
  by (fastforce simp: taken_ok_def)+

lemma idle_contents:
  assumes inv: "lane_inv s" and acc: "accounted s" and idle: "\<And>t. pc s t = T_Idle"
  shows "mset (map snd (taken s)) + mset (map (\<lambda>p. cell s ! (p mod sys_cap s)) [out_gate s..<in_gate s]) = mset (claimed s)"
proof -
  note i = lane_invD [OF inv]
  have snds: "map snd (taken s) = map ((!) (claimed s)) (map fst (taken s))" using i(9) by (auto simp: taken_ok_def)
  have "mset (map fst (taken s)) = mset [0..<out_gate s]"
    using i(9) idle_taken(1) [OF inv acc idle] by (intro set_eq_iff_mset_eq_distinct [THEN iffD1]) (auto simp: taken_ok_def)
  then have front: "mset (map snd (taken s)) = mset (map ((!) (claimed s)) [0..<out_gate s])"
    unfolding snds by (metis mset_map)
  have "cell s ! (p mod sys_cap s) = claimed s ! p" if "out_gate s \<le> p" "p < in_gate s" for p
    using idle_taken(2) [OF inv acc idle that] i(1) i(5) [of "p mod sys_cap s"] by (auto simp: slot_full_def slot_ok_def)
  then have rest: "map (\<lambda>p. cell s ! (p mod sys_cap s)) [out_gate s..<in_gate s] = map ((!) (claimed s)) [out_gate s..<in_gate s]"
    by (intro map_cong) auto
  have "[0..<out_gate s] @ [out_gate s..<in_gate s] = [0..<in_gate s]"
    using i(4) by (metis le_add_diff_inverse upt_add_eq_append zero_le)
  then have "map ((!) (claimed s)) [0..<out_gate s] @ map ((!) (claimed s)) [out_gate s..<in_gate s] = claimed s"
    using i(3) by (metis map_append map_nth)
  then show ?thesis unfolding front rest by (metis mset_append)
qed

subsection \<open>How far the positions go\<close>

text \<open>Every position and ticket of a lane is at most its capacity beyond its ingress gate.\<close>

definition bounds_ok :: "(nat, 't, 'a) lane_sys \<Rightarrow> bool" where
  "bounds_ok s \<longleftrightarrow> (\<forall>k < sys_cap s. cur s k < out_gate s + sys_cap s)
     \<and> (\<forall>q \<in> set (in_past s). q \<le> in_gate s) \<and> (\<forall>q \<in> set (out_past s). q \<le> out_gate s)"

lemma count_step_bounds: "count_step s s' \<Longrightarrow> lane_inv s \<Longrightarrow> bounds_ok s \<Longrightarrow> bounds_ok s'"
proof (induction rule: count_step.induct)
  case (pop_release s t p v)
  then have "p < out_gate s" using lane_invD(6) [of s t] by simp
  then show ?case using pop_release by (simp add: bounds_ok_def)
qed (fastforce simp: bounds_ok_def)+

lemma count_reachable_bounds:
  assumes "count_step\<^sup>*\<^sup>* (count_new cap d) s" "2 \<le> cap"
  shows "bounds_ok s"
  using assms(1)
proof (induction rule: rtranclp_induct)
  case base
  then show ?case by (simp add: bounds_ok_def count_new_def sys_cap_def)
next
  case (step s s')
  then show ?case using lane_reachable(1) [OF step(1) assms(2)] by (blast intro: count_step_bounds)
qed

lemma ticket_bound:
  assumes "lane_inv s" "bounds_ok s"
  shows "tickets s ! (p mod sys_cap s) \<le> in_gate s + sys_cap s"
proof -
  note i = lane_invD [OF assms(1)]
  have k: "p mod sys_cap s < sys_cap s" using i(1) by simp
  have "cur s (p mod sys_cap s) < out_gate s + sys_cap s" using assms(2) k by (simp add: bounds_ok_def)
  then show ?thesis using i(5) [OF k] i(4) by (auto simp: slot_ok_def)
qed

text \<open>The positions a thread works on are at most the ingress gate.\<close>

lemma thread_bound:
  assumes "lane_inv s" "p \<in> set1_thread_pc (pc s t)"
  shows "p \<le> in_gate s"
  using lane_invD(6) [OF assms(1), of t] lane_invD(4) [OF assms(1)] assms(2) by (cases "pc s t") auto

end
