(* ===== verification/Mpmc_Interleaving.thy ===== *)
theory Mpmc_Interleaving
  imports Mpmc_Counting
begin

section \<open>Many threads on one lane of \<^verbatim>\<open>mpmc_conduit\<close>\<close>

text \<open>
  The accesses of \<^verbatim>\<open>try_push\<close> and \<^verbatim>\<open>try_pop\<close> on one lane, for any number of threads: load the
  gate, load the ticket, compare-and-swap the gate, move the item, store the ticket. Positions,
  gates and tickets are 64-bit words, as \<^verbatim>\<open>std::size_t\<close> is: a slot is found by masking the
  position, tickets are compared by their difference read as a signed number, and the sums wrap.
  The relaxed load of a gate may return any value the gate has held; the load of a ticket, an
  acquire load, returns the ticket the slot has.

  The lane refines its counting model as long as the items pushed and the capacity stay below
  \<open>2 ^ 63\<close> together: then no two positions in use are equal modulo \<open>2 ^ 64\<close> and no difference
  of two of them overflows. Beyond that, a thread that sleeps between its ticket load and its
  compare-and-swap could meet its position again.
\<close>

definition lane_sys_new :: "nat \<Rightarrow> 'a \<Rightarrow> (u64, 't, 'a) lane_sys" where
  "lane_sys_new cap d = \<lparr>tickets = map of_nat [0..<cap], cell = replicate cap d, in_gate = 0, out_gate = 0, pc = (\<lambda>_. T_Idle),
     in_past = [0], out_past = [0], cur = (\<lambda>k. of_nat k), claimed = [], taken = []\<rparr>"

abbreviation ticket_at :: "(u64, 't, 'a) lane_sys \<Rightarrow> u64 \<Rightarrow> u64" where
  "ticket_at s p \<equiv> tickets s ! slot (sys_cap s) p"

inductive lane_step :: "(u64, 't, 'a) lane_sys \<Rightarrow> (u64, 't, 'a) lane_sys \<Rightarrow> bool" where
  push_load: "pc s t = T_Idle \<Longrightarrow> q \<in> set (in_past s) \<Longrightarrow> lane_step s (at_pc t (P_Pos q x) s)"
| push_match: "pc s t = P_Pos p x \<Longrightarrow> ticket_at s p = p \<Longrightarrow> lane_step s (at_pc t (P_Ticket p x) s)"
| push_full: "pc s t = P_Pos p x \<Longrightarrow> ticket_at s p \<noteq> p \<Longrightarrow> sint (ticket_at s p - p) < 0 \<Longrightarrow> lane_step s (at_pc t T_Idle s)"
| push_reload: "pc s t = P_Pos p x \<Longrightarrow> ticket_at s p \<noteq> p \<Longrightarrow> \<not> sint (ticket_at s p - p) < 0 \<Longrightarrow> q \<in> set (in_past s) \<Longrightarrow>
    lane_step s (at_pc t (P_Pos q x) s)"
| push_cas: "pc s t = P_Ticket p x \<Longrightarrow> in_gate s = p \<Longrightarrow>
    lane_step s (at_pc t (P_Claimed p x) (s\<lparr>in_gate := p + 1, in_past := (p + 1) # in_past s, claimed := claimed s @ [x]\<rparr>))"
| push_cas_fail: "pc s t = P_Ticket p x \<Longrightarrow> in_gate s \<noteq> p \<Longrightarrow> lane_step s (at_pc t (P_Pos (in_gate s) x) s)"
| push_store: "pc s t = P_Claimed p x \<Longrightarrow>
    lane_step s (at_pc t (P_Stored p x) (s\<lparr>cell := (cell s)[slot (sys_cap s) p := x]\<rparr>))"
| push_release: "pc s t = P_Stored p x \<Longrightarrow>
    lane_step s (at_pc t T_Idle (s\<lparr>tickets := (tickets s)[slot (sys_cap s) p := p + 1]\<rparr>))"
| pop_load: "pc s t = T_Idle \<Longrightarrow> q \<in> set (out_past s) \<Longrightarrow> lane_step s (at_pc t (C_Pos q) s)"
| pop_match: "pc s t = C_Pos p \<Longrightarrow> ticket_at s p = p + 1 \<Longrightarrow> lane_step s (at_pc t (C_Ticket p) s)"
| pop_empty: "pc s t = C_Pos p \<Longrightarrow> ticket_at s p \<noteq> p + 1 \<Longrightarrow> sint (ticket_at s p - (p + 1)) < 0 \<Longrightarrow> lane_step s (at_pc t T_Idle s)"
| pop_reload: "pc s t = C_Pos p \<Longrightarrow> ticket_at s p \<noteq> p + 1 \<Longrightarrow> \<not> sint (ticket_at s p - (p + 1)) < 0 \<Longrightarrow> q \<in> set (out_past s) \<Longrightarrow>
    lane_step s (at_pc t (C_Pos q) s)"
| pop_cas: "pc s t = C_Ticket p \<Longrightarrow> out_gate s = p \<Longrightarrow>
    lane_step s (at_pc t (C_Claimed p) (s\<lparr>out_gate := p + 1, out_past := (p + 1) # out_past s\<rparr>))"
| pop_cas_fail: "pc s t = C_Ticket p \<Longrightarrow> out_gate s \<noteq> p \<Longrightarrow> lane_step s (at_pc t (C_Pos (out_gate s)) s)"
| pop_read: "pc s t = C_Claimed p \<Longrightarrow> lane_step s (at_pc t (C_Loaded p (cell s ! slot (sys_cap s) p)) s)"
| pop_release: "pc s t = C_Loaded p v \<Longrightarrow>
    lane_step s (at_pc t T_Idle (s\<lparr>tickets := (tickets s)[slot (sys_cap s) p := p + of_nat (sys_cap s)],
      cur := (cur s)(slot (sys_cap s) p := p + of_nat (sys_cap s)), taken := taken s @ [(p, v)]\<rparr>))"

subsection \<open>The words of a counting lane\<close>

abbreviation pc_words :: "(nat, 'a) thread_pc \<Rightarrow> (u64, 'a) thread_pc" where
  "pc_words \<equiv> map_thread_pc of_nat (\<lambda>x. x)"

definition words_of :: "(nat, 't, 'a) lane_sys \<Rightarrow> (u64, 't, 'a) lane_sys" where
  "words_of s = \<lparr>tickets = map of_nat (tickets s), cell = cell s, in_gate = of_nat (in_gate s), out_gate = of_nat (out_gate s),
     pc = (\<lambda>t. pc_words (pc s t)), in_past = map of_nat (in_past s), out_past = map of_nat (out_past s),
     cur = (\<lambda>k. of_nat (cur s k)), claimed = claimed s, taken = map (\<lambda>(p, v). (of_nat p, v)) (taken s)\<rparr>"

lemma words_of_new: "words_of (count_new cap d) = lane_sys_new cap d"
  by (simp add: words_of_def count_new_def lane_sys_new_def)

lemma words_of_sel [simp]:
  "tickets (words_of s) = map of_nat (tickets s)" "cell (words_of s) = cell s" "in_gate (words_of s) = of_nat (in_gate s)"
  "out_gate (words_of s) = of_nat (out_gate s)" "pc (words_of s) t = pc_words (pc s t)" "claimed (words_of s) = claimed s"
  "in_past (words_of s) = map of_nat (in_past s)" "out_past (words_of s) = map of_nat (out_past s)"
  "taken (words_of s) = map (\<lambda>(p, v). (of_nat p, v)) (taken s)" "sys_cap (words_of s) = sys_cap s"
  by (simp_all add: words_of_def sys_cap_def)

lemma at_pc_words: "at_pc t (pc_words q) (words_of s) = words_of (at_pc t q s)"
  by (simp add: words_of_def fun_eq_iff)

lemma slot_words: "pow2_cap cap \<Longrightarrow> slot cap (of_nat p) = p mod cap"
  using slot_add [of cap 0 p] by simp

lemma word_eq_small: "a < 2 ^ 63 \<Longrightarrow> b < 2 ^ 63 \<Longrightarrow> (of_nat a :: u64) = of_nat b \<longleftrightarrow> a = b"
  by (auto dest!: arg_cong [of _ _ unat] simp: unat_of_nat take_bit_nat_def)

lemma word_diff_small:
  assumes "a < 2 ^ 63" "b < 2 ^ 63"
  shows "sint (of_nat a - of_nat b :: u64) < 0 \<longleftrightarrow> a < b"
proof -
  have "sint (of_nat a - of_nat b :: u64) = sint (word_of_int (int a - int b) :: u64)" by simp
  also have "\<dots> = int a - int b" using assms by (simp only: signed_of_int) (auto simp: signed_take_bit_int_eq_self)
  finally show ?thesis by simp
qed

lemma pc_words_eq:
  "pc_words q = T_Idle \<longleftrightarrow> q = T_Idle"
  "pc_words q = P_Pos p x \<longleftrightarrow> (\<exists>r. q = P_Pos r x \<and> p = of_nat r)"
  "pc_words q = P_Ticket p x \<longleftrightarrow> (\<exists>r. q = P_Ticket r x \<and> p = of_nat r)"
  "pc_words q = P_Claimed p x \<longleftrightarrow> (\<exists>r. q = P_Claimed r x \<and> p = of_nat r)"
  "pc_words q = P_Stored p x \<longleftrightarrow> (\<exists>r. q = P_Stored r x \<and> p = of_nat r)"
  "pc_words q = C_Pos p \<longleftrightarrow> (\<exists>r. q = C_Pos r \<and> p = of_nat r)"
  "pc_words q = C_Ticket p \<longleftrightarrow> (\<exists>r. q = C_Ticket r \<and> p = of_nat r)"
  "pc_words q = C_Claimed p \<longleftrightarrow> (\<exists>r. q = C_Claimed r \<and> p = of_nat r)"
  "pc_words q = C_Loaded p x \<longleftrightarrow> (\<exists>r. q = C_Loaded r x \<and> p = of_nat r)"
  by (cases q; auto)+

lemma at_pc_wordsI: "count_step s (at_pc t q s) \<Longrightarrow> c = at_pc t (pc_words q) (words_of s) \<Longrightarrow> \<exists>s'. count_step s s' \<and> c = words_of s'"
  using at_pc_words [where s = s and t = t and q = q] by auto

text \<open>Every step of the 64-bit lane whose positions are small is a step of the counting lane.\<close>

lemma words_compare:
  assumes inv: "lane_inv s" and bounds: "bounds_ok s" and pow2: "pow2_cap (sys_cap s)" and small: "in_gate s + sys_cap s < 2 ^ 63"
    and p: "p \<in> set1_thread_pc (pc s t)"
  shows "ticket_at (words_of s) (of_nat p) = of_nat p \<longleftrightarrow> tickets s ! (p mod sys_cap s) = p"
    "sint (ticket_at (words_of s) (of_nat p) - of_nat p) < 0 \<longleftrightarrow> tickets s ! (p mod sys_cap s) < p"
    "ticket_at (words_of s) (of_nat p) = of_nat p + 1 \<longleftrightarrow> tickets s ! (p mod sys_cap s) = p + 1"
    "sint (ticket_at (words_of s) (of_nat p) - (of_nat p + 1)) < 0 \<longleftrightarrow> tickets s ! (p mod sys_cap s) < p + 1"
    "in_gate (words_of s) = of_nat p \<longleftrightarrow> in_gate s = p" "out_gate (words_of s) = of_nat p \<longleftrightarrow> out_gate s = p"
proof -
  note i = lane_invD [OF inv]
  have b: "tickets s ! (p mod sys_cap s) < 2 ^ 63" "p < 2 ^ 63" "p + 1 < 2 ^ 63" "in_gate s < 2 ^ 63" "out_gate s < 2 ^ 63"
    using ticket_bound [OF inv bounds, of p] thread_bound [OF inv p] small i(1,4) by simp_all
  have tk: "ticket_at (words_of s) (of_nat p) = of_nat (tickets s ! (p mod sys_cap s))"
    using i(1,2) by (simp add: slot_words [OF pow2])
  show "ticket_at (words_of s) (of_nat p) = of_nat p \<longleftrightarrow> tickets s ! (p mod sys_cap s) = p"
    "sint (ticket_at (words_of s) (of_nat p) - of_nat p) < 0 \<longleftrightarrow> tickets s ! (p mod sys_cap s) < p"
    unfolding tk using word_eq_small [OF b(1,2)] word_diff_small [OF b(1,2)] by simp_all
  show "ticket_at (words_of s) (of_nat p) = of_nat p + 1 \<longleftrightarrow> tickets s ! (p mod sys_cap s) = p + 1"
    "sint (ticket_at (words_of s) (of_nat p) - (of_nat p + 1)) < 0 \<longleftrightarrow> tickets s ! (p mod sys_cap s) < p + 1"
    unfolding tk using word_eq_small [OF b(1,3)] word_diff_small [OF b(1,3)] by (simp_all add: add.commute)
  show "in_gate (words_of s) = of_nat p \<longleftrightarrow> in_gate s = p" "out_gate (words_of s) = of_nat p \<longleftrightarrow> out_gate s = p"
    using word_eq_small [OF b(4,2)] word_eq_small [OF b(5,2)] by simp_all
qed

text \<open>The steps that change the lane, on words and on numbers.\<close>

lemma words_of_push:
  "at_pc t (P_Claimed (of_nat r) x) ((words_of s)\<lparr>in_gate := of_nat r + 1, in_past := (of_nat r + 1) # in_past (words_of s),
      claimed := claimed (words_of s) @ [x]\<rparr>)
   = words_of (at_pc t (P_Claimed r x) (s\<lparr>in_gate := r + 1, in_past := (r + 1) # in_past s, claimed := claimed s @ [x]\<rparr>))"
  "at_pc t (P_Stored (of_nat r) x) ((words_of s)\<lparr>cell := (cell (words_of s))[k := x]\<rparr>)
   = words_of (at_pc t (P_Stored r x) (s\<lparr>cell := (cell s)[k := x]\<rparr>))"
  "at_pc t T_Idle ((words_of s)\<lparr>tickets := (tickets (words_of s))[k := of_nat r + 1]\<rparr>)
   = words_of (at_pc t T_Idle (s\<lparr>tickets := (tickets s)[k := r + 1]\<rparr>))"
  by (simp_all add: words_of_def fun_eq_iff map_update add.commute)

lemma words_of_pop:
  "at_pc t (C_Claimed (of_nat r)) ((words_of s)\<lparr>out_gate := of_nat r + 1, out_past := (of_nat r + 1) # out_past (words_of s)\<rparr>)
   = words_of (at_pc t (C_Claimed r) (s\<lparr>out_gate := r + 1, out_past := (r + 1) # out_past s\<rparr>))"
  "at_pc t T_Idle ((words_of s)\<lparr>tickets := (tickets (words_of s))[k := of_nat r + of_nat c],
      cur := (cur (words_of s))(k := of_nat r + of_nat c), taken := taken (words_of s) @ [(of_nat r, v)]\<rparr>)
   = words_of (at_pc t T_Idle (s\<lparr>tickets := (tickets s)[k := r + c], cur := (cur s)(k := r + c), taken := taken s @ [(r, v)]\<rparr>))"
  by (simp_all add: words_of_def fun_eq_iff map_update add.commute)

lemma lane_step_counts:
  assumes step: "lane_step (words_of s) c" and inv: "lane_inv s" and bounds: "bounds_ok s"
    and pow2: "pow2_cap (sys_cap s)" and small: "in_gate s + sys_cap s < 2 ^ 63"
  shows "\<exists>s'. count_step s s' \<and> c = words_of s'"
proof -
  note cmp = words_compare [OF inv bounds pow2 small]
  have past: "q \<in> set (in_past s) \<Longrightarrow> q \<le> in_gate s" "q \<in> set (out_past s) \<Longrightarrow> q \<le> out_gate s" for q
    using bounds by (auto simp: bounds_ok_def)
  show ?thesis
    using step
  proof cases
    case (push_load t q x)
    then obtain r where "q = of_nat r" "r \<in> set (in_past s)" "pc s t = T_Idle" by (auto simp: pc_words_eq)
    then show ?thesis using past push_load(1) by (intro at_pc_wordsI [OF count_step.push_load [of s t r x]]) auto
  next
    case (push_match t p x)
    then obtain r where r: "pc s t = P_Pos r x" "p = of_nat r" by (auto simp: pc_words_eq)
    then show ?thesis using push_match cmp(1) [of r t] by (intro at_pc_wordsI [OF count_step.push_match [of s t r x]]) auto
  next
    case (push_full t p x)
    then obtain r where r: "pc s t = P_Pos r x" "p = of_nat r" by (auto simp: pc_words_eq)
    then show ?thesis using push_full cmp(2) [of r t] by (intro at_pc_wordsI [OF count_step.push_full [of s t r x]]) auto
  next
    case (push_reload t p x q)
    then obtain r q' where r: "pc s t = P_Pos r x" "p = of_nat r" "q = of_nat q'" "q' \<in> set (in_past s)" by (auto simp: pc_words_eq)
    then show ?thesis using push_reload cmp(1,2) [of r t] past
      by (intro at_pc_wordsI [OF count_step.push_reload [of s t r x q']]) auto
  next
    case (push_cas_fail t p x)
    then obtain r where r: "pc s t = P_Ticket r x" "p = of_nat r" by (auto simp: pc_words_eq)
    then show ?thesis using push_cas_fail cmp(5) [of r t] by (intro at_pc_wordsI [OF count_step.push_cas_fail [of s t r x]]) auto
  next
    case (pop_load t q)
    then obtain r where "q = of_nat r" "r \<in> set (out_past s)" "pc s t = T_Idle" by (auto simp: pc_words_eq)
    then show ?thesis using past pop_load(1) by (intro at_pc_wordsI [OF count_step.pop_load [of s t r]]) auto
  next
    case (pop_match t p)
    then obtain r where r: "pc s t = C_Pos r" "p = of_nat r" by (auto simp: pc_words_eq)
    then show ?thesis using pop_match cmp(3) [of r t] by (intro at_pc_wordsI [OF count_step.pop_match [of s t r]]) auto
  next
    case (pop_empty t p)
    then obtain r where r: "pc s t = C_Pos r" "p = of_nat r" by (auto simp: pc_words_eq)
    then show ?thesis using pop_empty cmp(4) [of r t] by (intro at_pc_wordsI [OF count_step.pop_empty [of s t r]]) auto
  next
    case (pop_reload t p q)
    then obtain r q' where r: "pc s t = C_Pos r" "p = of_nat r" "q = of_nat q'" "q' \<in> set (out_past s)" by (auto simp: pc_words_eq)
    then show ?thesis using pop_reload cmp(3,4) [of r t] past
      by (intro at_pc_wordsI [OF count_step.pop_reload [of s t r q']]) auto
  next
    case (pop_cas_fail t p)
    then obtain r where r: "pc s t = C_Ticket r" "p = of_nat r" by (auto simp: pc_words_eq)
    then show ?thesis using pop_cas_fail cmp(6) [of r t] by (intro at_pc_wordsI [OF count_step.pop_cas_fail [of s t r]]) auto
  next
    case (pop_read t p)
    then obtain r where r: "pc s t = C_Claimed r" "p = of_nat r" by (auto simp: pc_words_eq)
    then show ?thesis using pop_read by (intro at_pc_wordsI [OF count_step.pop_read [of s t r]]) (auto simp: slot_words [OF pow2])
  next
    case (push_cas t p x)
    then obtain r where r: "pc s t = P_Ticket r x" "p = of_nat r" by (auto simp: pc_words_eq)
    then show ?thesis using push_cas cmp(5) [of r t] count_step.push_cas [of s t r x] words_of_push(1) [where s = s and t = t and r = r and x = x] by auto
  next
    case (push_store t p x)
    then obtain r where r: "pc s t = P_Claimed r x" "p = of_nat r" by (auto simp: pc_words_eq)
    then show ?thesis using push_store count_step.push_store [of s t r x] words_of_push(2) [where s = s and t = t and r = r and x = x]
      by (auto simp: slot_words [OF pow2])
  next
    case (push_release t p x)
    then obtain r where r: "pc s t = P_Stored r x" "p = of_nat r" by (auto simp: pc_words_eq)
    then show ?thesis using push_release count_step.push_release [of s t r x] words_of_push(3) [where s = s and t = t and r = r]
      by (auto simp: slot_words [OF pow2])
  next
    case (pop_cas t p)
    then obtain r where r: "pc s t = C_Ticket r" "p = of_nat r" by (auto simp: pc_words_eq)
    then show ?thesis using pop_cas cmp(6) [of r t] count_step.pop_cas [of s t r] words_of_pop(1) [where s = s and t = t and r = r] by auto
  next
    case (pop_release t p v)
    then obtain r where r: "pc s t = C_Loaded r v" "p = of_nat r" by (auto simp: pc_words_eq)
    then show ?thesis using pop_release count_step.pop_release [of s t r v] words_of_pop(2) [where s = s and t = t and r = r and v = v]
      by (auto simp: slot_words [OF pow2])
  qed
qed

text \<open>Every run of the 64-bit lane with fewer than \<open>2 ^ 63\<close> items is a run of the counting lane.\<close>

lemma lane_step_claimed: "lane_step s s' \<Longrightarrow> length (claimed s) \<le> length (claimed s')"
  by (induction rule: lane_step.induct) simp_all

lemma lane_run_counts:
  assumes "lane_step\<^sup>*\<^sup>* (lane_sys_new cap d) c" "pow2_cap cap" "2 \<le> cap" "length (claimed c) + cap < 2 ^ 63"
  shows "\<exists>s. count_step\<^sup>*\<^sup>* (count_new cap d) s \<and> c = words_of s"
  using assms(1,4)
proof (induction rule: rtranclp_induct)
  case base
  then show ?case using words_of_new [of cap d] by (metis rtranclp.rtrancl_refl)
next
  case (step c c')
  have "length (claimed c) + cap < 2 ^ 63" using lane_step_claimed [OF step.hyps(2)] step.prems by simp
  then obtain s where s: "count_step\<^sup>*\<^sup>* (count_new cap d) s" "c = words_of s" "length (claimed s) + cap < 2 ^ 63"
    using step.IH by auto
  note r = lane_reachable [OF s(1) assms(3)] count_reachable_bounds [OF s(1) assms(3)]
  have "\<exists>s'. count_step s s' \<and> c' = words_of s'"
    by (rule lane_step_counts) (use step.hyps(2) s r assms(2) lane_invD(3) [OF r(1)] in simp_all)
  then obtain s' where "count_step s s'" "c' = words_of s'" by blast
  then show ?case using s(1) rtranclp.rtrancl_into_rtrancl by (intro exI [of _ s']) auto
qed

text \<open>The state a bounded run ends in, seen as counts.\<close>

lemma lane_run_state:
  assumes "lane_step\<^sup>*\<^sup>* (lane_sys_new cap d) c" "pow2_cap cap" "2 \<le> cap" "length (claimed c) + cap < 2 ^ 63"
  obtains s where "lane_inv s" "accounted s" "sys_cap s = cap" "c = words_of s" "in_gate s < 2 ^ 63"
  using lane_run_counts [OF assms] lane_reachable [OF _ assms(3)] lane_invD(3) assms(4) by fastforce

lemma unat_of_nat_small: "a < 2 ^ 63 \<Longrightarrow> unat (of_nat a :: u64) = a"
  by (simp add: unat_of_nat take_bit_nat_def)

lemma claims_words:
  "push_claim (pc_words q) = Some p \<longleftrightarrow> (\<exists>r. push_claim q = Some r \<and> p = of_nat r)"
  "pop_claim (pc_words q) = Some p \<longleftrightarrow> (\<exists>r. pop_claim q = Some r \<and> p = of_nat r)"
  by (cases q; auto)+

text \<open>A thread that runs alone from a free slot completes its push, and one at a full slot its pop.\<close>

definition push_claimed :: "'t \<Rightarrow> 'a \<Rightarrow> (u64, 't, 'a) lane_sys \<Rightarrow> (u64, 't, 'a) lane_sys" where
  "push_claimed t x s = at_pc t (P_Claimed (in_gate s) x) (s\<lparr>in_gate := in_gate s + 1, in_past := (in_gate s + 1) # in_past s, claimed := claimed s @ [x]\<rparr>)"

definition push_done :: "'a \<Rightarrow> (u64, 't, 'a) lane_sys \<Rightarrow> (u64, 't, 'a) lane_sys" where
  "push_done x s = s\<lparr>in_gate := in_gate s + 1, in_past := (in_gate s + 1) # in_past s, claimed := claimed s @ [x], cell := (cell s)[slot (sys_cap s) (in_gate s) := x],
     tickets := (tickets s)[slot (sys_cap s) (in_gate s) := in_gate s + 1]\<rparr>"

definition pop_done :: "(u64, 't, 'a) lane_sys \<Rightarrow> (u64, 't, 'a) lane_sys" where
  "pop_done s = s\<lparr>out_gate := out_gate s + 1, out_past := (out_gate s + 1) # out_past s,
     tickets := (tickets s)[slot (sys_cap s) (out_gate s) := out_gate s + of_nat (sys_cap s)],
     cur := (cur s)(slot (sys_cap s) (out_gate s) := out_gate s + of_nat (sys_cap s)),
     taken := taken s @ [(out_gate s, cell s ! (slot (sys_cap s) (out_gate s)))]\<rparr>"

lemma claim_alone:
  assumes idle: "pc s t = T_Idle" and "ticket_at s (in_gate s) = in_gate s" and "in_gate s \<in> set (in_past s)"
  shows "lane_step\<^sup>*\<^sup>* s (push_claimed t x s)"
proof -
  let ?p = "in_gate s"
  have "lane_step s (at_pc t (P_Pos ?p x) s)" using idle assms(3) by (rule push_load)
  moreover have "lane_step (at_pc t (P_Pos ?p x) s) (at_pc t (P_Ticket ?p x) s)"
    using push_match [of "at_pc t (P_Pos ?p x) s" t ?p x] assms(2) by simp
  moreover have "lane_step (at_pc t (P_Ticket ?p x) s) (push_claimed t x s)"
    using push_cas [of "at_pc t (P_Ticket ?p x) s" t ?p x] by (cases s) (simp add: push_claimed_def)
  ultimately show ?thesis by (meson r_into_rtranclp rtranclp_trans)
qed

lemma push_alone:
  assumes idle: "pc s t = T_Idle" and "ticket_at s (in_gate s) = in_gate s" and "in_gate s \<in> set (in_past s)"
  shows "lane_step\<^sup>*\<^sup>* s (push_done x s)"
proof -
  let ?p = "in_gate s"
  let ?d = "s\<lparr>in_gate := in_gate s + 1, in_past := (in_gate s + 1) # in_past s, claimed := claimed s @ [x], cell := (cell s)[slot (sys_cap s) ?p := x]\<rparr>"
  have "lane_step (push_claimed t x s) (at_pc t (P_Stored ?p x) ?d)"
    using push_store [of "push_claimed t x s" t ?p x] by (cases s) (simp add: sys_cap_def push_claimed_def)
  moreover have "lane_step (at_pc t (P_Stored ?p x) ?d) (push_done x s)"
    using push_release [of "at_pc t (P_Stored ?p x) ?d" t ?p x] idle
    by (cases s) (auto simp: sys_cap_def push_done_def fun_upd_idem)
  ultimately show ?thesis using claim_alone [OF assms, of x] by (meson rtranclp.rtrancl_into_rtrancl)
qed

lemma pop_alone:
  assumes idle: "pc s t = T_Idle" and "ticket_at s (out_gate s) = out_gate s + 1" and "out_gate s \<in> set (out_past s)"
  shows "lane_step\<^sup>*\<^sup>* s (pop_done s)"
proof -
  let ?p = "out_gate s" and ?c = "s\<lparr>out_gate := out_gate s + 1, out_past := (out_gate s + 1) # out_past s\<rparr>" and ?v = "cell s ! (slot (sys_cap s) (out_gate s))"
  have "lane_step s (at_pc t (C_Pos ?p) s)" using idle assms(3) by (rule pop_load)
  moreover have "lane_step (at_pc t (C_Pos ?p) s) (at_pc t (C_Ticket ?p) s)"
    using pop_match [of "at_pc t (C_Pos ?p) s" t ?p] assms(2) by simp
  moreover have "lane_step (at_pc t (C_Ticket ?p) s) (at_pc t (C_Claimed ?p) ?c)"
    using pop_cas [of "at_pc t (C_Ticket ?p) s" t ?p] by (cases s) simp
  moreover have "lane_step (at_pc t (C_Claimed ?p) ?c) (at_pc t (C_Loaded ?p ?v) ?c)"
    using pop_read [of "at_pc t (C_Claimed ?p) ?c" t ?p] by (cases s) (simp add: sys_cap_def)
  moreover have "lane_step (at_pc t (C_Loaded ?p ?v) ?c) (pop_done s)"
    using pop_release [of "at_pc t (C_Loaded ?p ?v) ?c" t ?p ?v] idle
    by (cases s) (auto simp: sys_cap_def pop_done_def fun_upd_idem)
  ultimately show ?thesis by (meson r_into_rtranclp rtranclp_trans)
qed

lemma pow2_cap_2: "pow2_cap 2"
  using pow2_cap_of [of 1] by simp

lemmas example_eval = lane_sys_new_def sys_cap_def push_done_def pop_done_def push_claimed_def slot_def upt_rec

lemma example_run: "lane_step\<^sup>*\<^sup>* (lane_sys_new 2 (0::nat)) (pop_done (push_done 8 (push_done 7 (lane_sys_new 2 0))) :: (u64, bool, nat) lane_sys)"
proof -
  let ?a = "lane_sys_new 2 0 :: (u64, bool, nat) lane_sys"
  have "lane_step\<^sup>*\<^sup>* ?a (push_done 7 ?a)"
    by (rule push_alone [of _ True]) (simp_all add: example_eval)
  moreover have "lane_step\<^sup>*\<^sup>* (push_done 7 ?a) (push_done 8 (push_done 7 ?a))"
    by (rule push_alone [of _ False]) (simp_all add: example_eval)
  moreover have "lane_step\<^sup>*\<^sup>* (push_done 8 (push_done 7 ?a)) (pop_done (push_done 8 (push_done 7 ?a)))"
    by (rule pop_alone [of _ True]) (simp_all add: example_eval)
  ultimately show ?thesis by (meson rtranclp_trans)
qed

lemma example_claims:
  "lane_step\<^sup>*\<^sup>* (lane_sys_new 2 (0::nat)) (push_claimed False 8 (push_claimed True 7 (lane_sys_new 2 0)))"
proof -
  let ?a = "lane_sys_new 2 0 :: (u64, bool, nat) lane_sys"
  have "lane_step\<^sup>*\<^sup>* ?a (push_claimed True 7 ?a)"
    by (rule claim_alone) (simp_all add: example_eval)
  moreover have "lane_step\<^sup>*\<^sup>* (push_claimed True 7 ?a) (push_claimed False 8 (push_claimed True 7 ?a))"
    by (rule claim_alone) (simp_all add: example_eval)
  ultimately show ?thesis by (meson rtranclp_trans)
qed

subsection \<open>Properties\<close>

text \<open>(C7) For every interleaving of any number of threads running \<^verbatim>\<open>try_push\<close> and \<^verbatim>\<open>try_pop\<close> on a
  lane of at least two slots (a power of two), with 64-bit positions and tickets, as long as the
  items pushed and the capacity stay below \<open>2 ^ 63\<close> together: no position is delivered twice, and
  the item delivered for a position is the one the push that claimed it was called with.\<close>

theorem mpmc_interleaved_delivery:
  assumes "lane_step\<^sup>*\<^sup>* (lane_sys_new cap d) s" "pow2_cap cap" "2 \<le> cap" "length (claimed s) + cap < 2 ^ 63"
  shows "distinct (map fst (taken s)) \<and> (\<forall>(p, v) \<in> set (taken s). unat p < length (claimed s) \<and> v = claimed s ! unat p)"
proof -
  obtain n where n: "lane_inv n" "s = words_of n" "in_gate n < 2 ^ 63" using lane_run_state [OF assms] by blast
  have d: "distinct (map fst (taken n))" using lane_invD(9) [OF n(1)] by (simp add: taken_ok_def)
  have tk: "p < in_gate n \<and> v = claimed n ! p" if "(p, v) \<in> set (taken n)" for p v
    using lane_invD(4,9) [OF n(1)] that by (auto simp: taken_ok_def)
  have "map fst (taken s) = map of_nat (map fst (taken n))" using n(2) by auto
  moreover have "inj_on (of_nat :: nat \<Rightarrow> u64) (set (map fst (taken n)))"
    using tk n(3) by (fastforce intro!: inj_onI dest!: word_eq_small [THEN iffD1, rotated 2])
  ultimately have "distinct (map fst (taken s))" using d by (metis distinct_map)
  then show ?thesis using tk n lane_invD(3) [OF n(1)] by (fastforce simp: unat_of_nat_small)
qed

theorem mpmc_interleaved_delivery_witness:
  "distinct (map fst (taken (pop_done (push_done 8 (push_done 7 (lane_sys_new 2 0))) :: (u64, bool, nat) lane_sys)))
   \<and> taken (pop_done (push_done 8 (push_done 7 (lane_sys_new 2 0))) :: (u64, bool, nat) lane_sys) = [(0, 7)]"
  using mpmc_interleaved_delivery [OF example_run pow2_cap_2] by (simp add: example_eval)

text \<open>(C8) On a lane of at least two slots (a power of two), as long as the items pushed and the
  capacity stay below \<open>2 ^ 63\<close> together: two threads that both hold a claim, as producers, as
  consumers or one as each, hold it on different slots, so that no slot is ever written twice at
  once nor read while written.\<close>

theorem mpmc_exclusive_slots:
  assumes "lane_step\<^sup>*\<^sup>* (lane_sys_new cap d) s" "pow2_cap cap" "2 \<le> cap" "length (claimed s) + cap < 2 ^ 63" "t \<noteq> u"
    "push_claim (pc s t) = Some p \<or> pop_claim (pc s t) = Some p" "push_claim (pc s u) = Some q \<or> pop_claim (pc s u) = Some q"
  shows "slot cap p \<noteq> slot cap q"
proof -
  obtain n where n: "lane_inv n" "s = words_of n" "sys_cap n = cap" using lane_run_state [OF assms(1-4)] by blast
  obtain p' q' where "p = of_nat p'" "push_claim (pc n t) = Some p' \<or> pop_claim (pc n t) = Some p'"
    and "q = of_nat q'" "push_claim (pc n u) = Some q' \<or> pop_claim (pc n u) = Some q'"
    using assms(6,7) n(2) by (auto simp: claims_words)
  then show ?thesis using claims_distinct_slots [OF n(1) assms(5), of p' q'] n(3) by (simp add: slot_words [OF assms(2)])
qed

theorem mpmc_exclusive_slots_witness:
  "push_claim (pc (push_claimed False 8 (push_claimed True (7::nat) (lane_sys_new 2 0))) True) = Some 0
   \<and> push_claim (pc (push_claimed False 8 (push_claimed True (7::nat) (lane_sys_new 2 0))) False) = Some 1
   \<and> slot 2 0 \<noteq> slot 2 1"
  using mpmc_exclusive_slots [OF example_claims pow2_cap_2, of True False 0 1] by (simp add: example_eval)

text \<open>(C9) On a lane of at least two slots (a power of two), as long as the items pushed and the
  capacity stay below \<open>2 ^ 63\<close> together: once every thread is idle again, the items delivered and
  the items still in the slots between the gates are together exactly the items pushed.\<close>

theorem mpmc_nothing_lost:
  assumes "lane_step\<^sup>*\<^sup>* (lane_sys_new cap d) s" "pow2_cap cap" "2 \<le> cap" "length (claimed s) + cap < 2 ^ 63" "\<And>t. pc s t = T_Idle"
  shows "mset (map snd (taken s)) + mset (map (\<lambda>p. cell s ! (p mod cap)) [unat (out_gate s)..<unat (in_gate s)]) = mset (claimed s)"
proof -
  obtain n where n: "lane_inv n" "accounted n" "s = words_of n" "sys_cap n = cap" "in_gate n < 2 ^ 63"
    using lane_run_state [OF assms(1-4)] by blast
  have "pc n t = T_Idle" for t using assms(5) [of t] n(3) by (simp add: pc_words_eq)
  then show ?thesis using idle_contents [OF n(1,2)] n lane_invD(4) [OF n(1)]
    by (simp add: unat_of_nat_small comp_def case_prod_beta)
qed

theorem mpmc_nothing_lost_witness:
  "let s = pop_done (push_done 8 (push_done 7 (lane_sys_new 2 0))) :: (u64, bool, nat) lane_sys
   in mset (map snd (taken s)) + {#cell s ! 1#} = {#7, 8#}"
  using mpmc_nothing_lost [OF example_run pow2_cap_2] by (simp add: example_eval numeral_2_eq_2)

end
