(* ===== verification/Timer_Spec.thy ===== *)
theory Timer_Spec
  imports Prelude
begin

section \<open>What a timer service promises\<close>

text \<open>
  The contract of a timer service: it keeps for every timer the tick it is due, and a clock tick
  hands out exactly the timers due now. The clients' lemmas follow from the contract alone: over a
  run of ticks every timer is handed out at its tick, once, and never again.
\<close>

fun run_ticks :: "('s \<Rightarrow> ('i list \<times> 's) option) \<Rightarrow> nat \<Rightarrow> 's \<Rightarrow> ('i list list \<times> 's) option" where
  "run_ticks advance 0 s = Some ([], s)"
| "run_ticks advance (Suc n) s = (case advance s of None \<Rightarrow> None
     | Some (xs, s1) \<Rightarrow> case run_ticks advance n s1 of None \<Rightarrow> None | Some (fs, s2) \<Rightarrow> Some (xs # fs, s2))"

locale clock_service =
  fixes inv :: "'s \<Rightarrow> bool" and now :: "'s \<Rightarrow> u64" and due :: "'s \<Rightarrow> 'i \<Rightarrow> u64 option"
    and advance :: "'s \<Rightarrow> ('i list \<times> 's) option" and horizon :: nat
  assumes advance_law: "inv s \<Longrightarrow> unat (now s) + 1 < horizon \<Longrightarrow>
      \<exists>xs s'. advance s = Some (xs, s') \<and> inv s' \<and> unat (now s') = unat (now s) + 1 \<and> distinct xs
        \<and> set xs = {i. due s i = Some (now s)} \<and> due s' = (\<lambda>i. if due s i = Some (now s) then None else due s i)"
begin

lemma run_ticks_fire:
  assumes "inv s" "unat (now s) + n < horizon"
  shows "\<exists>fs s'. run_ticks advance n s = Some (fs, s') \<and> inv s' \<and> length fs = n \<and> unat (now s') = unat (now s) + n
    \<and> (\<forall>k<n. distinct (fs ! k) \<and> set (fs ! k) = {i. map_option unat (due s i) = Some (unat (now s) + k)})
    \<and> (\<forall>i. (\<forall>k<n. i \<notin> set (fs ! k)) \<longrightarrow> due s' i = due s i)"
  using assms
proof (induction n arbitrary: s)
  case (Suc n)
  obtain xs s1 where s1: "advance s = Some (xs, s1)" "inv s1" "unat (now s1) = unat (now s) + 1" "distinct xs"
    "set xs = {i. due s i = Some (now s)}" "due s1 = (\<lambda>i. if due s i = Some (now s) then None else due s i)"
    using advance_law [of s] Suc.prems by auto
  obtain fs s2 where s2: "run_ticks advance n s1 = Some (fs, s2)" "inv s2" "length fs = n" "unat (now s2) = unat (now s1) + n"
    "\<And>k. k < n \<Longrightarrow> distinct (fs ! k) \<and> set (fs ! k) = {i. map_option unat (due s1 i) = Some (unat (now s1) + k)}"
    "\<And>i. \<forall>k<n. i \<notin> set (fs ! k) \<Longrightarrow> due s2 i = due s1 i"
    using Suc.IH [OF s1(2)] Suc.prems(2) s1(3) by auto
  have "distinct ((xs # fs) ! k) \<and> set ((xs # fs) ! k) = {i. map_option unat (due s i) = Some (unat (now s) + k)}" if "k < Suc n" for k
  proof (cases k)
    case 0
    have "{i. due s i = Some (now s)} = {i. map_option unat (due s i) = Some (unat (now s))}"
      by (auto simp: word_unat_eq_iff)
    then show ?thesis using 0 s1(4,5) by simp
  next
    case (Suc j)
    have "map_option unat (due s1 i) = Some (unat (now s1) + j) \<longleftrightarrow> map_option unat (due s i) = Some (unat (now s) + k)" for i
      using s1(3,6) Suc by (auto simp: word_unat_eq_iff)
    then show ?thesis using s2(5) [of j] Suc that by simp
  qed
  moreover have "due s2 i = due s i" if "\<forall>k<Suc n. i \<notin> set ((xs # fs) ! k)" for i
  proof -
    have "i \<notin> set xs" using that [THEN spec, of 0] by simp
    moreover have "\<forall>k<n. i \<notin> set (fs ! k)" using that by fastforce
    ultimately show ?thesis using s2(6) s1(5,6) by simp
  qed
  ultimately show ?case using s1(1,3) s2(1,2,3,4) by auto
qed simp

end

text \<open>A service whose timers can be set and dropped.\<close>

locale timer_service = clock_service inv now due advance horizon
  for inv :: "'s \<Rightarrow> bool" and now :: "'s \<Rightarrow> u64" and due :: "'s \<Rightarrow> 'i \<Rightarrow> u64 option"
    and advance :: "'s \<Rightarrow> ('i list \<times> 's) option" and horizon :: nat +
  fixes known :: "'s \<Rightarrow> 'i \<Rightarrow> bool" and sched :: "'i \<Rightarrow> u64 \<Rightarrow> 's \<Rightarrow> 's option" and drop_timer :: "'i \<Rightarrow> 's \<Rightarrow> 's option"
  assumes due_future: "inv s \<Longrightarrow> due s i = Some e \<Longrightarrow> unat (now s) \<le> unat e"
    and sched_law: "inv s \<Longrightarrow> known s i \<Longrightarrow> unat (now s) \<le> unat e \<Longrightarrow>
      \<exists>s'. sched i e s = Some s' \<and> inv s' \<and> due s' = (due s)(i \<mapsto> e) \<and> now s' = now s"
    and drop_law: "inv s \<Longrightarrow> \<exists>s'. drop_timer i s = Some s' \<and> inv s' \<and> due s' = (due s)(i := None) \<and> now s' = now s"
begin

text \<open>A timer set now is handed out exactly at its tick, and only there.\<close>

lemma fires_on_time:
  assumes "inv s" "known s i" "unat (now s) \<le> unat e" "unat (now s) + n < horizon"
  shows "\<exists>s1 fs s2. sched i e s = Some s1 \<and> run_ticks advance n s1 = Some (fs, s2) \<and> length fs = n
    \<and> (\<forall>k<n. i \<in> set (fs ! k) \<longleftrightarrow> k = unat e - unat (now s))"
proof -
  obtain s1 where s1: "sched i e s = Some s1" "inv s1" "due s1 = (due s)(i \<mapsto> e)" "now s1 = now s"
    using sched_law [OF assms(1-3)] by blast
  moreover obtain fs s2 where "run_ticks advance n s1 = Some (fs, s2)" "length fs = n"
    "\<forall>k<n. set (fs ! k) = {i. map_option unat (due s1 i) = Some (unat (now s1) + k)}"
    using run_ticks_fire [OF s1(2), of n] s1(4) assms(4) by auto
  ultimately show ?thesis using assms(3) by auto
qed

text \<open>A cancelled timer is not handed out.\<close>

lemma dropped_silent:
  assumes "inv s" "unat (now s) + n < horizon"
  shows "\<exists>s1 fs s2. drop_timer i s = Some s1 \<and> run_ticks advance n s1 = Some (fs, s2) \<and> length fs = n \<and> (\<forall>k<n. i \<notin> set (fs ! k))"
proof -
  obtain s1 where s1: "drop_timer i s = Some s1" "inv s1" "due s1 = (due s)(i := None)" "now s1 = now s"
    using drop_law [OF assms(1)] by blast
  moreover obtain fs s2 where "run_ticks advance n s1 = Some (fs, s2)" "length fs = n"
    "\<forall>k<n. set (fs ! k) = {i. map_option unat (due s1 i) = Some (unat (now s1) + k)}"
    using run_ticks_fire [OF s1(2), of n] s1(4) assms(2) by auto
  ultimately show ?thesis by auto
qed

end

end
