(* ===== verification/Timing_Wheel.thy ===== *)
theory Timing_Wheel
  imports Timer_Spec "HOL-Library.Monad_Syntax"
begin

section \<open>The hierarchical timing wheel: \<^verbatim>\<open>core/timing_wheel.hpp\<close>\<close>

text \<open>
  The wheel keeps intrusive timer nodes in 512 doubly linked lists: 256 lists of one tick each, and
  four levels of 64 lists whose ticks are 64 times coarser from level to level. The node pool is
  the template parameter \<^verbatim>\<open>SlabAllocator\<close>; \<open>pool\<close> is its \<^verbatim>\<open>get_by_index\<close>, which resolves an
  index to a node or to null. Every operation returns \<open>None\<close> where the code would follow a null
  pointer, index \<^verbatim>\<open>buckets_\<close> out of range, or loop forever in a cyclic list.
\<close>

subsection \<open>Nodes and the wheel\<close>

record timing_node =
  expires_tick :: u64
  timer_next :: u32
  timer_prev :: u32
  wheel_bucket :: u32

record timing_wheel =
  buckets :: "u32 list"
  current_tick :: u64
  pool :: "u32 \<Rightarrow> timing_node option"

definition END_OF_LIST :: u32 where "END_OF_LIST = 0xFFFFFFFF"

definition timing_node_new :: timing_node where
  "timing_node_new = \<lparr>expires_tick = 0, timer_next = END_OF_LIST, timer_prev = END_OF_LIST, wheel_bucket = END_OF_LIST\<rparr>"

definition TVR_SIZE :: nat where "TVR_SIZE = 256"
definition TVN_SIZE :: nat where "TVN_SIZE = 64"
definition LVL_COUNT :: nat where "LVL_COUNT = 5"
definition TOTAL_BUCKETS :: nat where "TOTAL_BUCKETS = TVR_SIZE + TVN_SIZE * (LVL_COUNT - 1)"

definition wheel_new :: "(u32 \<Rightarrow> timing_node option) \<Rightarrow> timing_wheel" where
  "wheel_new p = \<lparr>buckets = replicate TOTAL_BUCKETS END_OF_LIST, current_tick = 0, pool = p\<rparr>"

text \<open>Access to a bucket and to a node through its pointer.\<close>

definition get_bucket :: "u32 \<Rightarrow> timing_wheel \<Rightarrow> u32 option" where
  "get_bucket b w = (if unat b < length (buckets w) then Some (buckets w ! unat b) else None)"

definition set_bucket :: "u32 \<Rightarrow> u32 \<Rightarrow> timing_wheel \<Rightarrow> timing_wheel option" where
  "set_bucket b h w = (if unat b < length (buckets w) then Some (w\<lparr>buckets := (buckets w)[unat b := h]\<rparr>) else None)"

definition set_node :: "u32 \<Rightarrow> (timing_node \<Rightarrow> timing_node) \<Rightarrow> timing_wheel \<Rightarrow> timing_wheel option" where
  "set_node i f w = (case pool w i of None \<Rightarrow> None | Some nd \<Rightarrow> Some (w\<lparr>pool := (pool w)(i \<mapsto> f nd)\<rparr>))"

subsection \<open>Cancellation and insertion\<close>

definition cancel :: "u32 \<Rightarrow> timing_wheel \<Rightarrow> timing_wheel option" where
  "cancel i w = (case pool w i of
      None \<Rightarrow> Some w
    | Some nd \<Rightarrow> if wheel_bucket nd = END_OF_LIST then Some w else do {
        let bucket = wheel_bucket nd;
        w1 \<leftarrow> (if timer_prev nd \<noteq> END_OF_LIST then set_node (timer_prev nd) (\<lambda>n. n\<lparr>timer_next := timer_next nd\<rparr>) w
               else set_bucket bucket (timer_next nd) w);
        nd1 \<leftarrow> pool w1 i;
        w2 \<leftarrow> (if timer_next nd1 \<noteq> END_OF_LIST then set_node (timer_next nd1) (\<lambda>n. n\<lparr>timer_prev := timer_prev nd1\<rparr>) w1
               else Some w1);
        set_node i (\<lambda>n. n\<lparr>wheel_bucket := END_OF_LIST, timer_next := END_OF_LIST, timer_prev := END_OF_LIST\<rparr>) w2
      })"

text \<open>\<^verbatim>\<open>64 - std::countl_zero(diff)\<close> is the number of significant bits. All quantities of the tier
  selection are below 64, so that \<^verbatim>\<open>uint32_t\<close> and natural number arithmetic agree on them.\<close>

fun bit_width :: "nat \<Rightarrow> nat" where
  "bit_width n = (if n = 0 then 0 else Suc (bit_width (n div 2)))"

declare bit_width.simps [simp del]

definition countl_zero :: "u64 \<Rightarrow> nat" where
  "countl_zero x = 64 - bit_width (unat x)"

definition wheel_level :: "u64 \<Rightarrow> nat" where
  "wheel_level diff = (let shift = 64 - countl_zero diff; level = (shift - 8 + 6 - 1) div 6 in min level (LVL_COUNT - 1))"

definition level_shift :: "nat \<Rightarrow> nat" where
  "level_shift level = 8 + (level - 1) * 6"

definition final_bucket :: "u64 \<Rightarrow> u64 \<Rightarrow> u32" where
  "final_bucket now expires =
     (let diff = expires - now
      in if diff < of_nat TVR_SIZE then ucast (expires AND 0xFF)
         else let level = wheel_level diff;
                  bucket_offset = TVR_SIZE + (level - 1) * TVN_SIZE;
                  idx = drop_bit (level_shift level) expires AND 0x3F
              in of_nat bucket_offset + ucast idx)"

definition insert_head :: "u32 \<Rightarrow> u64 \<Rightarrow> u32 \<Rightarrow> timing_wheel \<Rightarrow> timing_wheel option" where
  "insert_head i expires b w = do {
     head \<leftarrow> get_bucket b w;
     w1 \<leftarrow> set_node i (\<lambda>n. n\<lparr>timer_next := head, timer_prev := END_OF_LIST, wheel_bucket := b, expires_tick := expires\<rparr>) w;
     w2 \<leftarrow> (if head \<noteq> END_OF_LIST then set_node head (\<lambda>n. n\<lparr>timer_prev := i\<rparr>) w1 else Some w1);
     set_bucket b i w2
   }"

definition schedule :: "u32 \<Rightarrow> u64 \<Rightarrow> timing_wheel \<Rightarrow> timing_wheel option" where
  "schedule i expires w = (case pool w i of
      None \<Rightarrow> Some w
    | Some nd \<Rightarrow> do {
        w1 \<leftarrow> (if wheel_bucket nd \<noteq> END_OF_LIST then cancel i w else Some w);
        insert_head i expires (final_bucket (current_tick w1) expires) w1
      })"

subsection \<open>Clock advance\<close>

text \<open>The loop of \<^verbatim>\<open>cascade\<close> over a detached list.\<close>

partial_function (option) reschedule_list :: "u32 \<Rightarrow> timing_wheel \<Rightarrow> timing_wheel option" where
  "reschedule_list node_idx w =
     (if node_idx = END_OF_LIST then Some w
      else do {
        nd \<leftarrow> pool w node_idx;
        w1 \<leftarrow> set_node node_idx (\<lambda>n. n\<lparr>wheel_bucket := END_OF_LIST\<rparr>) w;
        w2 \<leftarrow> schedule node_idx (expires_tick nd) w1;
        reschedule_list (timer_next nd) w2
      })"

definition cascade :: "nat \<Rightarrow> nat \<Rightarrow> timing_wheel \<Rightarrow> timing_wheel option" where
  "cascade bucket_offset index w = do {
     let bucket = of_nat (bucket_offset + index);
     node_idx \<leftarrow> get_bucket bucket w;
     w1 \<leftarrow> set_bucket bucket END_OF_LIST w;
     reschedule_list node_idx w1
   }"

text \<open>The range loop of \<^verbatim>\<open>tick\<close> over \<^verbatim>\<open>intrusive_view\<close>.\<close>

partial_function (option) clear_markers :: "u32 \<Rightarrow> timing_wheel \<Rightarrow> timing_wheel option" where
  "clear_markers idx w =
     (if idx = END_OF_LIST then Some w
      else do {
        w1 \<leftarrow> set_node idx (\<lambda>n. n\<lparr>wheel_bucket := END_OF_LIST\<rparr>) w;
        nd \<leftarrow> pool w1 idx;
        clear_markers (timer_next nd) w1
      })"

text \<open>A full iteration of \<^verbatim>\<open>intrusive_view\<close>: the indices a caller of \<^verbatim>\<open>tick\<close> walks through.\<close>

partial_function (option) intrusive_view :: "u32 \<Rightarrow> timing_wheel \<Rightarrow> u32 list option" where
  "intrusive_view node_idx w =
     (if node_idx = END_OF_LIST then Some []
      else do {
        nd \<leftarrow> pool w node_idx;
        rest \<leftarrow> intrusive_view (timer_next nd) w;
        Some (node_idx # rest)
      })"

text \<open>The \<^verbatim>\<open>do ... while (++n < LVL_COUNT)\<close> loop of \<^verbatim>\<open>tick\<close>.\<close>

function cascade_levels :: "nat \<Rightarrow> timing_wheel \<Rightarrow> timing_wheel option" where
  "cascade_levels n w = do {
     let l_idx = unat (drop_bit (level_shift n) (current_tick w) AND 0x3F);
     w1 \<leftarrow> cascade (TVR_SIZE + (n - 1) * TVN_SIZE) l_idx w;
     if l_idx \<noteq> 0 then Some w1 else if n + 1 < LVL_COUNT then cascade_levels (n + 1) w1 else Some w1
   }"
  by pat_completeness auto
termination
  by (relation "measure (\<lambda>(n, w). LVL_COUNT - n)") auto

declare cascade_levels.simps [simp del]

definition tick :: "timing_wheel \<Rightarrow> (u32 \<times> timing_wheel) option" where
  "tick w = do {
     let current_bucket = ucast (current_tick w AND 0xFF);
     expired_head \<leftarrow> get_bucket current_bucket w;
     w1 \<leftarrow> (if expired_head \<noteq> END_OF_LIST
            then set_bucket current_bucket END_OF_LIST w \<bind> clear_markers expired_head
            else Some w);
     let w2 = w1\<lparr>current_tick := current_tick w1 + 1\<rparr>;
     let idx = current_tick w2 AND 0xFF;
     w3 \<leftarrow> (if idx = 0 then cascade_levels 1 w2 else Some w2);
     Some (expired_head, w3)
   }"

subsection \<open>Lists in the pool\<close>

text \<open>
  \<open>seg p b pr h xs l t\<close>: the nodes \<open>xs\<close> of bucket \<open>b\<close> are linked in this order; \<open>h\<close> is the first
  and \<open>t\<close> follows the last, \<open>pr\<close> precedes the first and \<open>l\<close> is the last.
\<close>

fun seg :: "(u32 \<Rightarrow> timing_node option) \<Rightarrow> u32 \<Rightarrow> u32 \<Rightarrow> u32 \<Rightarrow> u32 list \<Rightarrow> u32 \<Rightarrow> u32 \<Rightarrow> bool" where
  "seg p b pr h [] l t \<longleftrightarrow> h = t \<and> l = pr"
| "seg p b pr h (x # xs) l t \<longleftrightarrow> h = x \<and> x \<noteq> END_OF_LIST
     \<and> (\<exists>nd. p x = Some nd \<and> timer_prev nd = pr \<and> wheel_bucket nd = b \<and> seg p b x (timer_next nd) xs l t)"

lemma seg_append: "seg p b pr h (xs @ ys) l t \<longleftrightarrow> (\<exists>m n. seg p b pr h xs m n \<and> seg p b m n ys l t)"
  by (induction xs arbitrary: pr h) auto

lemma seg_frame: "i \<notin> set xs \<Longrightarrow> seg (p(i := v)) b pr h xs l t = seg p b pr h xs l t"
  by (induction xs arbitrary: pr h) auto

lemma seg_in: "seg p b pr h xs l t \<Longrightarrow> x \<in> set xs \<Longrightarrow> x \<noteq> END_OF_LIST \<and> (\<exists>nd. p x = Some nd \<and> wheel_bucket nd = b)"
  by (induction xs arbitrary: pr h) auto

lemma seg_set_next:
  assumes "seg p b pr h (xs @ [m]) l t" "distinct (xs @ [m])" "p m = Some nd"
  shows "seg (p(m \<mapsto> nd\<lparr>timer_next := n\<rparr>)) b pr h (xs @ [m]) l n"
  using assms by (auto simp: seg_append seg_frame)

lemma seg_set_prev:
  assumes "seg p b pr h (m # xs) l t" "distinct (m # xs)" "p m = Some nd"
  shows "seg (p(m \<mapsto> nd\<lparr>timer_prev := q\<rparr>)) b q h (m # xs) l t"
  using assms by (auto simp: seg_frame)

text \<open>The list of a bucket, and a detached list linked by \<^verbatim>\<open>timer_next\<close> alone.\<close>

definition dll :: "(u32 \<Rightarrow> timing_node option) \<Rightarrow> u32 \<Rightarrow> u32 \<Rightarrow> u32 list \<Rightarrow> bool" where
  "dll p b h xs \<longleftrightarrow> (\<exists>l. seg p b END_OF_LIST h xs l END_OF_LIST)"

fun chain :: "(u32 \<Rightarrow> timing_node option) \<Rightarrow> u32 \<Rightarrow> u32 list \<Rightarrow> bool" where
  "chain p h [] \<longleftrightarrow> h = END_OF_LIST"
| "chain p h (x # xs) \<longleftrightarrow> h = x \<and> x \<noteq> END_OF_LIST \<and> (\<exists>nd. p x = Some nd \<and> chain p (timer_next nd) xs)"

lemma seg_chain: "seg p b pr h xs l END_OF_LIST \<Longrightarrow> chain p h xs"
  by (induction xs arbitrary: pr h) auto

lemma dll_chain: "dll p b h xs \<Longrightarrow> chain p h xs"
  by (auto simp: dll_def seg_chain)

lemma chain_cong: "(\<And>x. x \<in> set xs \<Longrightarrow> map_option timer_next (p' x) = map_option timer_next (p x)) \<Longrightarrow> chain p' h xs = chain p h xs"
proof (induction xs arbitrary: h)
  case (Cons x xs)
  from Cons.prems [of x] have "(\<exists>nd. p' x = Some nd \<and> timer_next nd = n) \<longleftrightarrow> (\<exists>nd. p x = Some nd \<and> timer_next nd = n)" for n
    by (cases "p' x"; cases "p x") auto
  then show ?case using Cons by simp metis
qed simp

lemma dll_frame: "i \<notin> set xs \<Longrightarrow> dll (p(i := v)) b h xs = dll p b h xs"
  by (simp add: dll_def seg_frame)

lemma dll_in: "dll p b h xs \<Longrightarrow> x \<in> set xs \<Longrightarrow> x \<noteq> END_OF_LIST \<and> (\<exists>nd. p x = Some nd \<and> wheel_bucket nd = b)"
  by (auto simp: dll_def dest: seg_in)

lemma dll_Nil [simp]: "dll p b h [] \<longleftrightarrow> h = END_OF_LIST"
  by (simp add: dll_def)

lemma dll_push:
  assumes "dll p b h xs" "distinct xs" "i \<notin> set xs" "i \<noteq> END_OF_LIST"
    and "p' = p(i \<mapsto> nd)" "timer_next nd = h" "timer_prev nd = END_OF_LIST" "wheel_bucket nd = b"
  shows "xs = [] \<Longrightarrow> dll p' b i [i]"
    and "xs = y # ys \<Longrightarrow> p y = Some ny \<Longrightarrow> dll (p'(y \<mapsto> ny\<lparr>timer_prev := i\<rparr>)) b i (i # xs)"
  using assms by (auto simp: dll_def seg_frame)

lemma dll_unlink:
  assumes "dll p b h (xs @ i # ys)" "distinct (xs @ i # ys)" "p i = Some nd"
  shows "timer_prev nd = (if xs = [] then END_OF_LIST else last xs)" "timer_next nd = (if ys = [] then END_OF_LIST else hd ys)"
    and "p1 = (if xs = [] then p else p(last xs \<mapsto> (the (p (last xs)))\<lparr>timer_next := timer_next nd\<rparr>))
      \<Longrightarrow> p2 = (if ys = [] then p1 else p1(hd ys \<mapsto> (the (p (hd ys)))\<lparr>timer_prev := timer_prev nd\<rparr>))
      \<Longrightarrow> dll p2 b (if xs = [] then timer_next nd else h) (xs @ ys)"
proof -
  obtain m l where s: "seg p b END_OF_LIST h xs m i" "timer_prev nd = m" "seg p b i (timer_next nd) ys l END_OF_LIST"
    using assms(1,3) by (auto simp: dll_def seg_append)
  show prev: "timer_prev nd = (if xs = [] then END_OF_LIST else last xs)" using s(1,2) by (cases xs rule: rev_cases) (auto simp: seg_append)
  show nxt: "timer_next nd = (if ys = [] then END_OF_LIST else hd ys)" using s(3) by (cases ys) auto
  show "dll p2 b (if xs = [] then timer_next nd else h) (xs @ ys)"
    if "p1 = (if xs = [] then p else p(last xs \<mapsto> (the (p (last xs)))\<lparr>timer_next := timer_next nd\<rparr>))"
      "p2 = (if ys = [] then p1 else p1(hd ys \<mapsto> (the (p (hd ys)))\<lparr>timer_prev := timer_prev nd\<rparr>))"
  proof -
    note p12 = that
    have 1: "seg p1 b END_OF_LIST (if xs = [] then timer_next nd else h) xs m (timer_next nd)"
    proof (cases xs rule: rev_cases)
      case (snoc zs z)
      then obtain nz where "p z = Some nz" "m = z" using s(1) by (auto simp: seg_append)
      then show ?thesis using seg_set_next [of p b _ h zs z m i nz] s(1) snoc assms(2) p12(1) by simp
    qed (use s(1) p12(1) in simp)
    have 2: "seg p1 b i (timer_next nd) ys l END_OF_LIST"
      using s(3) p12(1) assms(2) by (cases xs rule: rev_cases) (auto simp: seg_frame)
    have 3: "seg p2 b m (timer_next nd) ys (if ys = [] then m else l) END_OF_LIST"
    proof (cases ys)
      case (Cons z zs)
      then obtain nz where "p z = Some nz" "p1 z = Some nz" using s(3) p12(1) assms(2) by (cases xs rule: rev_cases) auto
      then show ?thesis using seg_set_prev [of p1 b i _ z zs l _ nz m] 2 Cons assms(2) p12(2) s(2) by simp
    qed (use nxt in simp)
    have "seg p2 b END_OF_LIST (if xs = [] then timer_next nd else h) xs m (timer_next nd)"
      using 1 p12(2) assms(2) by (cases ys) (auto simp: seg_frame)
    with 3 show ?thesis unfolding dll_def seg_append by blast
  qed
qed

subsection \<open>The structure of the wheel\<close>

text \<open>What a node says of its timer: the bucket it is in and when it expires.\<close>

definition timer_view :: "timing_wheel \<Rightarrow> u32 \<Rightarrow> (u32 \<times> u64) option" where
  "timer_view w i = map_option (\<lambda>nd. (wheel_bucket nd, expires_tick nd)) (pool w i)"

text \<open>The buckets hold the lists \<open>ls\<close>; every node marked as scheduled is in the list of its bucket or
  in the detached list \<open>D\<close>.\<close>

definition wheel_lists :: "timing_wheel \<Rightarrow> (nat \<Rightarrow> u32 list) \<Rightarrow> u32 list \<Rightarrow> bool" where
  "wheel_lists w ls D \<longleftrightarrow> length (buckets w) = 512 \<and> pool w END_OF_LIST = None
     \<and> (\<forall>b < 512. dll (pool w) (of_nat b) (buckets w ! b) (ls b) \<and> distinct (ls b) \<and> set (ls b) \<inter> set D = {})
     \<and> (\<forall>i b e. timer_view w i = Some (b, e) \<longrightarrow> b \<noteq> END_OF_LIST \<longrightarrow> i \<notin> set D \<longrightarrow> unat b < 512 \<and> i \<in> set (ls (unat b)))"

lemma wheel_listsD:
  assumes "wheel_lists w ls D"
  shows "length (buckets w) = 512" "pool w END_OF_LIST = None"
    "b < 512 \<Longrightarrow> dll (pool w) (of_nat b) (buckets w ! b) (ls b)" "b < 512 \<Longrightarrow> distinct (ls b)"
    "b < 512 \<Longrightarrow> x \<in> set (ls b) \<Longrightarrow> x \<notin> set D"
    "timer_view w i = Some (c, e) \<Longrightarrow> c \<noteq> END_OF_LIST \<Longrightarrow> i \<notin> set D \<Longrightarrow> unat c < 512 \<and> i \<in> set (ls (unat c))"
  using assms unfolding wheel_lists_def by blast+

lemma unat_bucket: "b < 512 \<Longrightarrow> unat (of_nat b :: u32) = b"
  by (simp add: unat_of_nat take_bit_nat_def)

lemma bucket_not_end: "unat (b :: u32) < 512 \<Longrightarrow> b \<noteq> END_OF_LIST"
  by (auto simp: END_OF_LIST_def)

lemma bucket_eq_iff: "b < 512 \<Longrightarrow> c < 512 \<Longrightarrow> (of_nat b :: u32) = of_nat c \<longleftrightarrow> b = c"
  using unat_bucket by metis

lemma wheel_lists_view:
  assumes "wheel_lists w ls D" "b < 512" "x \<in> set (ls b)"
  shows "x \<noteq> END_OF_LIST \<and> (\<exists>e. timer_view w x = Some (of_nat b, e))"
  using dll_in [OF wheel_listsD(3) [OF assms(1,2)] assms(3)] by (auto simp: timer_view_def)

lemma wheel_lists_disjoint:
  assumes "wheel_lists w ls D" "b < 512" "c < 512" "x \<in> set (ls b)" "x \<in> set (ls c)"
  shows "b = c"
  using wheel_lists_view [OF assms(1,2,4)] wheel_lists_view [OF assms(1,3,5)] bucket_eq_iff [OF assms(2,3)] by auto

lemma insert_head_lists:
  assumes L: "wheel_lists w ls D" and i: "pool w i = Some nd" "wheel_bucket nd = END_OF_LIST" "i \<notin> set D" and b: "unat b < 512"
  obtains w' where "insert_head i e b w = Some w'" "wheel_lists w' (ls(unat b := i # ls (unat b))) D"
    "timer_view w' = (timer_view w)(i \<mapsto> (b, e))" "current_tick w' = current_tick w"
    "\<And>x. x \<noteq> i \<Longrightarrow> map_option timer_next (pool w' x) = map_option timer_next (pool w x)"
proof -
  note result = that
  let ?xs = "ls (unat b)" and ?h = "buckets w ! unat b"
  let ?nd = "nd\<lparr>timer_next := ?h, timer_prev := END_OF_LIST, wheel_bucket := b, expires_tick := e\<rparr>"
  have end_i: "i \<noteq> END_OF_LIST" using i wheel_listsD(2) [OF L] by auto
  have fresh: "i \<notin> set (ls c)" if "c < 512" for c
    using wheel_lists_view [OF L that, of i] i bucket_not_end [of "of_nat c"] that by (auto simp: timer_view_def unat_bucket)
  have of_b: "of_nat (unat b) = b" by simp
  have d: "dll (pool w) b ?h ?xs" using wheel_listsD(3) [OF L b] by simp
  have main: thesis
    if w': "insert_head i e b w = Some w'" "buckets w' = (buckets w)[unat b := i]" "current_tick w' = current_tick w"
      and p': "dll (pool w') b i (i # ?xs)" "\<And>c. c < 512 \<Longrightarrow> c \<noteq> unat b \<Longrightarrow> dll (pool w') (of_nat c) (buckets w ! c) (ls c)"
        "timer_view w' = (timer_view w)(i \<mapsto> (b, e))" "\<And>x. x \<noteq> i \<Longrightarrow> map_option timer_next (pool w' x) = map_option timer_next (pool w x)"
    for w'
  proof -
    have "pool w' END_OF_LIST = None" using p'(4) [of END_OF_LIST] end_i wheel_listsD(2) [OF L] by simp
    moreover have "dll (pool w') (of_nat c) (buckets w' ! c) ((ls(unat b := i # ?xs)) c) \<and> distinct ((ls(unat b := i # ?xs)) c)
        \<and> set ((ls(unat b := i # ?xs)) c) \<inter> set D = {}" if "c < 512" for c
      using p'(1,2) w'(2) that b fresh wheel_listsD(1) [OF L] wheel_listsD(4,5) [OF L that] i(3) of_b by (cases "c = unat b") auto
    moreover have "unat c < 512 \<and> x \<in> set ((ls(unat b := i # ?xs)) (unat c))"
      if "timer_view w' x = Some (c, f)" "c \<noteq> END_OF_LIST" "x \<notin> set D" for x c f
      using that wheel_listsD(6) [OF L, of x c f] p'(3) b by (auto split: if_splits)
    ultimately have "wheel_lists w' (ls(unat b := i # ?xs)) D" using w'(2) wheel_listsD(1) [OF L] by (auto simp: wheel_lists_def)
    then show thesis using result p'(3,4) w'(1,3) by blast
  qed
  show thesis
  proof (cases ?xs)
    case Nil
    then have h: "?h = END_OF_LIST" using d by simp
    let ?w = "w\<lparr>buckets := (buckets w)[unat b := i], pool := (pool w)(i \<mapsto> ?nd)\<rparr>"
    show thesis
    proof (rule main [of ?w])
      show "insert_head i e b w = Some ?w"
        using i b h wheel_listsD(1) [OF L] by (simp add: insert_head_def get_bucket_def set_bucket_def set_node_def)
      show "dll (pool ?w) b i (i # ?xs)" using dll_push(1) [OF d _ _ end_i refl, of ?nd] Nil by simp
      show "dll (pool ?w) (of_nat c) (buckets w ! c) (ls c)" if "c < 512" for c
        using wheel_listsD(3) [OF L that] fresh [OF that] by (simp add: dll_frame)
    qed (use i in \<open>auto simp: timer_view_def\<close>)
  next
    case (Cons y ys)
    then obtain ny where y: "pool w y = Some ny" "?h = y" "y \<noteq> END_OF_LIST" "wheel_bucket ny = b" "y \<noteq> i"
      using d dll_in [OF d, of y] fresh [OF b] by (auto simp: dll_def)
    let ?w = "w\<lparr>buckets := (buckets w)[unat b := i], pool := ((pool w)(i \<mapsto> ?nd))(y \<mapsto> ny\<lparr>timer_prev := i\<rparr>)\<rparr>"
    have other: "y \<notin> set (ls c)" if "c < 512" "c \<noteq> unat b" for c
      using wheel_lists_disjoint [OF L that(1) b, of y] that(2) Cons by auto
    show thesis
    proof (rule main [of ?w])
      show "insert_head i e b w = Some ?w"
        using i b y wheel_listsD(1) [OF L] by (simp add: insert_head_def get_bucket_def set_bucket_def set_node_def)
      show "dll (pool ?w) b i (i # ?xs)"
        using dll_push(2) [OF d _ _ end_i refl, of ?nd y ys ny] Cons fresh [OF b] wheel_listsD(4) [OF L b] y by simp
      show "dll (pool ?w) (of_nat c) (buckets w ! c) (ls c)" if "c < 512" "c \<noteq> unat b" for c
        using wheel_listsD(3) [OF L that(1)] fresh [OF that(1)] other [OF that] by (simp add: dll_frame)
    qed (use i y in \<open>auto simp: timer_view_def\<close>)
  qed
qed

lemma cancel_lists:
  assumes L: "wheel_lists w ls []" and i: "timer_view w i = Some (b, e)" "b \<noteq> END_OF_LIST"
  obtains w' where "cancel i w = Some w'" "wheel_lists w' (ls(unat b := remove1 i (ls (unat b)))) []"
    "timer_view w' = (timer_view w)(i \<mapsto> (END_OF_LIST, e))" "current_tick w' = current_tick w"
proof -
  note result = that
  have b: "unat b < 512" "i \<in> set (ls (unat b))" using wheel_listsD(6) [OF L i] by simp_all
  obtain nd where nd: "pool w i = Some nd" "wheel_bucket nd = b" "expires_tick nd = e" using i by (auto simp: timer_view_def)
  obtain xs ys where sp: "ls (unat b) = xs @ i # ys" using split_list [OF b(2)] by blast
  have dist: "distinct (xs @ i # ys)" using wheel_listsD(4) [OF L b(1)] sp by simp
  have d: "dll (pool w) b (buckets w ! unat b) (xs @ i # ys)" using wheel_listsD(3) [OF L b(1)] sp by simp
  note un = dll_unlink [OF d dist nd(1)]
  define p1 where "p1 = (if xs = [] then pool w else (pool w)(last xs \<mapsto> (the (pool w (last xs)))\<lparr>timer_next := timer_next nd\<rparr>))"
  define p2 where "p2 = (if ys = [] then p1 else p1(hd ys \<mapsto> (the (pool w (hd ys)))\<lparr>timer_prev := timer_prev nd\<rparr>))"
  define bk where "bk = (if xs = [] then (buckets w)[unat b := timer_next nd] else buckets w)"
  define w' where "w' = w\<lparr>buckets := bk, pool := p2(i \<mapsto> nd\<lparr>wheel_bucket := END_OF_LIST, timer_next := END_OF_LIST, timer_prev := END_OF_LIST\<rparr>)\<rparr>"
  have mem: "\<exists>n. pool w x = Some n \<and> wheel_bucket n = b \<and> x \<noteq> END_OF_LIST" if "x \<in> set xs \<union> set ys" for x
    using dll_in [OF d, of x] that by auto
  have lx: "\<exists>n. pool w (last xs) = Some n \<and> last xs \<noteq> END_OF_LIST \<and> last xs \<noteq> i \<and> last xs \<notin> set ys" if "xs \<noteq> []"
    using mem [of "last xs"] dist last_in_set [OF that] by (auto simp del: last_in_set)
  have hy: "\<exists>n. pool w (hd ys) = Some n \<and> hd ys \<noteq> END_OF_LIST \<and> hd ys \<noteq> i \<and> hd ys \<notin> set xs" if "ys \<noteq> []"
    using mem [of "hd ys"] dist hd_in_set [OF that] by (auto simp del: hd_in_set)
  have len: "length (buckets w) = 512" by (rule wheel_listsD(1) [OF L])
  have run: "cancel i w = Some w'"
  proof -
    have p1i: "p1 i = Some nd" using nd(1) lx by (auto simp: p1_def)
    have 1: "(if timer_prev nd \<noteq> END_OF_LIST then set_node (timer_prev nd) (\<lambda>n. n\<lparr>timer_next := timer_next nd\<rparr>) w
        else set_bucket b (timer_next nd) w) = Some (w\<lparr>buckets := bk, pool := p1\<rparr>)"
      using lx un(1) b(1) len by (cases w) (auto simp: p1_def bk_def set_node_def set_bucket_def)
    have 2: "(if timer_next nd \<noteq> END_OF_LIST then set_node (timer_next nd) (\<lambda>n. n\<lparr>timer_prev := timer_prev nd\<rparr>) (w\<lparr>buckets := bk, pool := p1\<rparr>)
        else Some (w\<lparr>buckets := bk, pool := p1\<rparr>)) = Some (w\<lparr>buckets := bk, pool := p2\<rparr>)"
      using hy un(2) lx by (cases w) (auto simp: p2_def p1_def set_node_def)
    have "p2 i = Some nd" using p1i hy by (auto simp: p2_def)
    then have 3: "set_node i (\<lambda>n. n\<lparr>wheel_bucket := END_OF_LIST, timer_next := END_OF_LIST, timer_prev := END_OF_LIST\<rparr>)
        (w\<lparr>buckets := bk, pool := p2\<rparr>) = Some w'"
      by (simp add: set_node_def w'_def)
    show ?thesis using i(2) nd(2) p1i 2 3 unfolding cancel_def by (simp add: nd(1) 1)
  qed
  have view: "timer_view w' = (timer_view w)(i \<mapsto> (END_OF_LIST, e))"
    using nd lx hy by (auto simp: timer_view_def w'_def p2_def p1_def fun_eq_iff)
  have rem: "remove1 i (ls (unat b)) = xs @ ys" using dist sp by (simp add: remove1_append)
  have own: "dll (pool w') b (bk ! unat b) (xs @ ys)"
    using un(3) [OF p1_def p2_def] dist b(1) len by (auto simp: w'_def dll_frame bk_def)
  have other: "dll (pool w') (of_nat c) (bk ! c) (ls c)" if "c < 512" "c \<noteq> unat b" for c
  proof -
    have "x \<notin> set (ls c)" if "x = i \<or> x \<in> set xs \<union> set ys" for x
      using wheel_lists_disjoint [OF L \<open>c < 512\<close> b(1), of x] that sp \<open>c \<noteq> unat b\<close> by auto
    moreover have "bk ! c = buckets w ! c" using that by (simp add: bk_def)
    ultimately show ?thesis using wheel_listsD(3) [OF L that(1)] by (simp add: w'_def p2_def p1_def dll_frame)
  qed
  have "wheel_lists w' (ls(unat b := xs @ ys)) []"
    unfolding wheel_lists_def
  proof (intro conjI allI impI)
    show "pool w' END_OF_LIST = None"
      using wheel_listsD(2) [OF L] nd(1) lx hy by (cases "xs = []"; cases "ys = []") (auto simp: w'_def p2_def p1_def)
    fix c :: nat assume c: "c < 512"
    show "dll (pool w') (of_nat c) (buckets w' ! c) ((ls(unat b := xs @ ys)) c)"
      using own other [OF c] by (auto simp: w'_def)
    show "distinct ((ls(unat b := xs @ ys)) c)" using dist wheel_listsD(4) [OF L c] by auto
  next
    fix x c f assume v: "timer_view w' x = Some (c, f)" "c \<noteq> END_OF_LIST"
    then have x: "x \<noteq> i" "timer_view w x = Some (c, f)" using view by (auto split: if_splits)
    then show "unat c < 512" "x \<in> set ((ls(unat b := xs @ ys)) (unat c))"
      using wheel_listsD(6) [OF L x(2) v(2)] sp by auto
  qed (use len in \<open>auto simp: w'_def bk_def\<close>)
  then show thesis using result [OF run _ view] rem by (simp add: w'_def)
qed

subsection \<open>Where a timer waits\<close>

text \<open>
  A timer in one of the first 256 lists expires within 256 ticks, in the tick the list stands for. A
  timer of a coarser level waits in the list that its expiry selects, and the clock has not yet
  reached its turn of that level. Levels from \<open>n\<close> on may lag behind the clock by one tick: this is
  the state between the clock's advance and the cascade of these levels. A timer whose expiry has
  passed when it is filed lies in one of the lists of the coarsest level, whatever its expiry.
\<close>

definition bucket_level :: "nat \<Rightarrow> nat" where
  "bucket_level b = (if b < 256 then 0 else (b - 256) div 64 + 1)"

definition placed :: "nat \<Rightarrow> nat \<Rightarrow> nat \<Rightarrow> nat \<Rightarrow> bool" where
  "placed n now b e \<longleftrightarrow>
     (if b < 256 then now \<le> e \<and> e < now + 256 \<and> b = e mod 256
      else let s = level_shift (bucket_level b); now' = (if n \<le> bucket_level b then now - 1 else now)
           in (b - 256) mod 64 = e div 2 ^ s mod 64 \<and> now' div 2 ^ s < e div 2 ^ s \<or> 448 \<le> b \<and> e < now)"

text \<open>What can be filed: a timer that is not overdue, and any timer as long as the clock is not within
  \<open>2 ^ 26\<close> ticks of its end.\<close>

definition fileable :: "nat \<Rightarrow> nat \<Rightarrow> bool" where
  "fileable now e \<longleftrightarrow> now \<le> e \<or> now + 2 ^ 26 \<le> 2 ^ 64"

lemma bit_width_bounds: "0 < n \<Longrightarrow> 2 ^ (bit_width n - 1) \<le> n \<and> n < 2 ^ bit_width n \<and> 0 < bit_width n"
proof (induction n rule: bit_width.induct)
  case (1 n)
  show ?case
  proof (cases "n div 2 = 0")
    case True
    then have "n = 1" using 1 by simp
    then show ?thesis by (simp add: bit_width.simps [of "Suc 0"] bit_width.simps [of 0])
  next
    case False
    then have ih: "2 ^ (bit_width (n div 2) - 1) \<le> n div 2" "n div 2 < 2 ^ bit_width (n div 2)" "0 < bit_width (n div 2)" using 1 by auto
    have w: "bit_width n = Suc (bit_width (n div 2))" using 1 by (simp add: bit_width.simps [of n])
    obtain k where k: "bit_width (n div 2) = Suc k" using ih(3) gr0_implies_Suc by blast
    show ?thesis using ih(1,2) unfolding w k by (simp, intro conjI; linarith)
  qed
qed

lemma bit_width_le: "n < 2 ^ 64 \<Longrightarrow> bit_width n \<le> 64"
proof (cases "n = 0")
  case False
  assume n: "n < 2 ^ 64"
  have "(2::nat) ^ (bit_width n - 1) < 2 ^ 64" using bit_width_bounds [of n] False n by linarith
  then have "bit_width n - 1 < 64" by (rule power_less_imp_less_exp [rotated]) simp
  then show ?thesis by simp
qed (simp add: bit_width.simps)

lemma wheel_level_bounds:
  assumes "256 \<le> unat diff"
  shows "1 \<le> wheel_level diff" "wheel_level diff \<le> 4" "2 ^ level_shift (wheel_level diff) \<le> unat diff"
proof -
  let ?w = "bit_width (unat diff)"
  note w = bit_width_bounds [of "unat diff"]
  have "(2::nat) ^ 8 < 2 ^ ?w" using w assms by simp
  then have w9: "9 \<le> ?w" using power_less_imp_less_exp [of "2::nat" 8 ?w] by simp
  have w64: "?w \<le> 64" by (rule bit_width_le) (rule unat_lt_u64)
  have l: "wheel_level diff = min ((?w - 3) div 6) 4"
    using w9 w64 by (simp add: wheel_level_def countl_zero_def LVL_COUNT_def Let_def)
  show "1 \<le> wheel_level diff" "wheel_level diff \<le> 4" using w9 unfolding l by simp_all
  have "6 * wheel_level diff \<le> ?w - 3" unfolding l by linarith
  then have "level_shift (wheel_level diff) \<le> ?w - 1" using \<open>1 \<le> wheel_level diff\<close> w9 by (simp add: level_shift_def algebra_simps)
  then have "(2::nat) ^ level_shift (wheel_level diff) \<le> 2 ^ (?w - 1)" by (rule power_increasing) simp
  then show "2 ^ level_shift (wheel_level diff) \<le> unat diff" using w assms by linarith
qed

lemma unat_and_mask: "unat (x AND 0xFF :: u64) = unat x mod 256" "unat (x AND 0x3F :: u64) = unat x mod 64"
proof -
  have "x AND 0xFF = take_bit 8 x" "x AND 0x3F = take_bit 6 x" by (simp_all add: take_bit_eq_mask mask_numeral)
  then show "unat (x AND 0xFF) = unat x mod 256" "unat (x AND 0x3F) = unat x mod 64"
    by (simp_all add: unsigned_take_bit_eq take_bit_nat_def)
qed

lemma unat_ucast_mask: "unat (ucast (x AND 0xFF :: u64) :: u32) = unat x mod 256" "unat (ucast (x AND 0x3F :: u64) :: u32) = unat x mod 64"
  by (simp_all add: unsigned_ucast_eq unat_and_mask take_bit_nat_def)

lemma unat_drop_bit_div: "unat (drop_bit n (x :: u64)) = unat x div 2 ^ n"
  by (simp only: unat_drop_bit_eq) (rule drop_bit_eq_div)

lemma final_bucket_overdue:
  assumes "unat e < unat now" "unat now + 2 ^ 26 \<le> 2 ^ 64"
  shows "448 \<le> unat (final_bucket now e) \<and> unat (final_bucket now e) < 512"
proof -
  let ?d = "e - now"
  have d: "2 ^ 26 \<le> unat ?d" using assms by (simp add: unat_sub_if_size word_size)
  then have "\<not> ?d < of_nat TVR_SIZE" by (simp add: word_less_nat_alt TVR_SIZE_def)
  moreover have "wheel_level ?d = 4"
  proof -
    have "unat ?d < 2 ^ bit_width (unat ?d)" using bit_width_bounds [of "unat ?d"] d by simp
    then have "(2::nat) ^ 26 < 2 ^ bit_width (unat ?d)" using d by (rule le_less_trans [rotated])
    then have "26 < bit_width (unat ?d)" by (rule power_less_imp_less_exp [rotated]) simp
    moreover have "bit_width (unat ?d) \<le> 64" by (rule bit_width_le) (rule unat_lt_u64)
    ultimately show ?thesis by (simp add: wheel_level_def countl_zero_def LVL_COUNT_def)
  qed
  moreover have "unat (ucast (drop_bit (level_shift 4) e AND 0x3F) :: u32) < 64" by (simp only: unat_ucast_mask)
  ultimately show ?thesis by (simp add: final_bucket_def Let_def TVR_SIZE_def TVN_SIZE_def unat_word_ariths)
qed

lemma final_bucket_future:
  assumes "unat now \<le> unat e"
  shows "unat (final_bucket now e) < 512" "placed n (unat now) (unat (final_bucket now e)) (unat e)"
proof -
  let ?d = "e - now"
  have d: "unat ?d = unat e - unat now" using assms by (simp add: unat_sub word_le_nat_alt)
  have lt: "?d < of_nat TVR_SIZE \<longleftrightarrow> unat ?d < 256" by (simp add: TVR_SIZE_def word_less_nat_alt)
  have "unat (final_bucket now e) < 512 \<and> placed n (unat now) (unat (final_bucket now e)) (unat e)"
  proof (cases "unat ?d < 256")
    case True
    then have "unat (final_bucket now e) = unat e mod 256"
      using lt by (simp add: final_bucket_def Let_def unat_ucast_mask)
    moreover have "unat e mod 256 < 256" by simp
    ultimately show ?thesis using True d assms by (auto simp: placed_def Let_def)
  next
    case False
    let ?l = "wheel_level ?d"
    let ?s = "level_shift ?l"
    note l = wheel_level_bounds [of ?d]
    let ?i = "unat e div 2 ^ ?s mod 64"
    have idx: "unat (ucast (drop_bit ?s e AND 0x3F) :: u32) = ?i"
      by (simp only: unat_ucast_mask unat_drop_bit_div)
    have l4: "?l = 1 \<or> ?l = 2 \<or> ?l = 3 \<or> ?l = 4" using l(1,2) False by linarith
    then have off: "unat (of_nat (TVR_SIZE + (?l - 1) * TVN_SIZE) :: u32) = 256 + (?l - 1) * 64"
      by (auto simp: TVR_SIZE_def TVN_SIZE_def)
    have i64: "?i < 64" by simp
    have small: "256 + (?l - 1) * 64 + ?i < 512" using l4 i64 by linarith
    have "unat (final_bucket now e) = 256 + (?l - 1) * 64 + ?i"
      using False lt small idx off by (simp add: final_bucket_def Let_def unat_word_ariths)
    moreover have "bucket_level (256 + (?l - 1) * 64 + ?i) = ?l" using l4 i64 by (auto simp: bucket_level_def)
    moreover have "(unat now) div 2 ^ ?s < unat e div 2 ^ ?s"
    proof -
      have "unat now + 2 ^ ?s \<le> unat e" using l(3) False d by linarith
      then have "(unat now + 2 ^ ?s) div 2 ^ ?s \<le> unat e div 2 ^ ?s" by (rule div_le_mono)
      moreover have "(unat now + 2 ^ ?s) div 2 ^ ?s = Suc (unat now div 2 ^ ?s)" by (rule div_add_self2 [THEN trans]) simp_all
      ultimately show ?thesis by simp
    qed
    moreover have "(unat now - 1) div 2 ^ ?s \<le> unat now div 2 ^ ?s" by (rule div_le_mono) simp
    ultimately show ?thesis using small by (auto simp: placed_def Let_def)
  qed
  then show "unat (final_bucket now e) < 512" "placed n (unat now) (unat (final_bucket now e)) (unat e)" by auto
qed

lemma final_bucket_placed:
  assumes "fileable (unat now) (unat e)"
  shows "unat (final_bucket now e) < 512" "placed n (unat now) (unat (final_bucket now e)) (unat e)"
proof -
  have "unat (final_bucket now e) < 512 \<and> placed n (unat now) (unat (final_bucket now e)) (unat e)"
  proof (cases "unat now \<le> unat e")
    case True
    then show ?thesis using final_bucket_future [OF True] by blast
  next
    case False
    then show ?thesis using final_bucket_overdue [of e now] assms by (simp add: fileable_def placed_def)
  qed
  then show "unat (final_bucket now e) < 512" "placed n (unat now) (unat (final_bucket now e)) (unat e)" by auto
qed

subsection \<open>The invariant and the operations\<close>

definition wheel_state :: "nat \<Rightarrow> timing_wheel \<Rightarrow> (nat \<Rightarrow> u32 list) \<Rightarrow> u32 list \<Rightarrow> bool" where
  "wheel_state n w ls D \<longleftrightarrow> wheel_lists w ls D
     \<and> (\<forall>i b e. timer_view w i = Some (b, e) \<longrightarrow> b \<noteq> END_OF_LIST \<longrightarrow> i \<notin> set D \<longrightarrow> placed n (unat (current_tick w)) (unat b) (unat e))"

text \<open>A wheel whose lists are in order.\<close>

definition wheel_ok :: "timing_wheel \<Rightarrow> bool" where
  "wheel_ok w \<longleftrightarrow> (\<exists>ls. wheel_state LVL_COUNT w ls [])"

text \<open>What the wheel means: when each scheduled timer is due.\<close>

definition deadlines :: "timing_wheel \<Rightarrow> u32 \<Rightarrow> u64 option" where
  "deadlines w i = (case timer_view w i of None \<Rightarrow> None | Some (b, e) \<Rightarrow> if b = END_OF_LIST then None else Some e)"

text \<open>All timers of the wheel can be filed again at its clock.\<close>

definition refileable :: "timing_wheel \<Rightarrow> bool" where
  "refileable w \<longleftrightarrow> (\<forall>i e. deadlines w i = Some e \<longrightarrow> fileable (unat (current_tick w)) (unat e))"

text \<open>A wheel in order without overdue timers.\<close>

definition wheel_inv :: "timing_wheel \<Rightarrow> bool" where
  "wheel_inv w \<longleftrightarrow> wheel_ok w \<and> (\<forall>i e. deadlines w i = Some e \<longrightarrow> unat (current_tick w) \<le> unat e)"

lemma timer_view_upd [simp]:
  "timer_view (w\<lparr>buckets := bs\<rparr>) = timer_view w" "timer_view (w\<lparr>current_tick := t\<rparr>) = timer_view w"
  "deadlines (w\<lparr>buckets := bs\<rparr>) = deadlines w" "deadlines (w\<lparr>current_tick := t\<rparr>) = deadlines w"
  by (simp_all add: timer_view_def deadlines_def fun_eq_iff)

lemma wheel_stateD:
  assumes "wheel_state n w ls D"
  shows "wheel_lists w ls D"
    "timer_view w i = Some (b, e) \<Longrightarrow> b \<noteq> END_OF_LIST \<Longrightarrow> i \<notin> set D \<Longrightarrow> placed n (unat (current_tick w)) (unat b) (unat e)"
  using assms unfolding wheel_state_def by blast+

lemma schedule_fresh:
  assumes S: "wheel_state n w ls D" and i: "pool w i = Some nd" "wheel_bucket nd = END_OF_LIST" "i \<notin> set D"
    and due: "fileable (unat (current_tick w)) (unat e)"
  obtains w' ls' b where "schedule i e w = Some w'" "wheel_state n w' ls' D" "timer_view w' = (timer_view w)(i \<mapsto> (b, e))" "b \<noteq> END_OF_LIST"
    "current_tick w' = current_tick w" "\<And>x. x \<noteq> i \<Longrightarrow> map_option timer_next (pool w' x) = map_option timer_next (pool w x)"
proof -
  let ?b = "final_bucket (current_tick w) e"
  note pl = final_bucket_placed [OF due]
  obtain w' where w': "insert_head i e ?b w = Some w'" "wheel_lists w' (ls(unat ?b := i # ls (unat ?b))) D"
    "timer_view w' = (timer_view w)(i \<mapsto> (?b, e))" "current_tick w' = current_tick w"
    "\<And>x. x \<noteq> i \<Longrightarrow> map_option timer_next (pool w' x) = map_option timer_next (pool w x)"
    using insert_head_lists [OF wheel_stateD(1) [OF S] i pl(1), where e = e] by metis
  have "schedule i e w = Some w'" using i w'(1) by (simp add: schedule_def)
  moreover have "wheel_state n w' (ls(unat ?b := i # ls (unat ?b))) D"
    using w'(2,3,4) wheel_stateD(2) [OF S] pl(2) [of n] unfolding wheel_state_def by (auto split: if_splits)
  ultimately show thesis using that w'(3,4,5) bucket_not_end [OF pl(1)] by blast
qed

lemma schedule_ok:
  assumes inv: "wheel_ok w" and i: "pool w i \<noteq> None" and due: "fileable (unat (current_tick w)) (unat e)"
  shows "\<exists>w'. schedule i e w = Some w' \<and> wheel_ok w' \<and> deadlines w' = (deadlines w)(i \<mapsto> e) \<and> current_tick w' = current_tick w"
proof -
  obtain ls where S: "wheel_state LVL_COUNT w ls []" using inv by (auto simp: wheel_ok_def)
  obtain nd where nd: "pool w i = Some nd" using i by auto
  have "\<exists>w1 ls1 nd1. (if wheel_bucket nd \<noteq> END_OF_LIST then cancel i w else Some w) = Some w1 \<and> wheel_state LVL_COUNT w1 ls1 []
      \<and> pool w1 i = Some nd1 \<and> wheel_bucket nd1 = END_OF_LIST \<and> current_tick w1 = current_tick w
      \<and> (\<forall>x. x \<noteq> i \<longrightarrow> timer_view w1 x = timer_view w x)"
  proof (cases "wheel_bucket nd = END_OF_LIST")
    case True
    then show ?thesis using S nd by auto
  next
    case False
    have v: "timer_view w i = Some (wheel_bucket nd, expires_tick nd)" by (simp add: timer_view_def nd)
    obtain w1 where w1: "cancel i w = Some w1" "wheel_lists w1 (ls(unat (wheel_bucket nd) := remove1 i (ls (unat (wheel_bucket nd))))) []"
      "timer_view w1 = (timer_view w)(i \<mapsto> (END_OF_LIST, expires_tick nd))" "current_tick w1 = current_tick w"
      using cancel_lists [OF wheel_stateD(1) [OF S] v False] by metis
    have "wheel_state LVL_COUNT w1 (ls(unat (wheel_bucket nd) := remove1 i (ls (unat (wheel_bucket nd))))) []"
      using w1(2,3,4) wheel_stateD(2) [OF S] unfolding wheel_state_def by (auto split: if_splits)
    moreover have "timer_view w1 i = Some (END_OF_LIST, expires_tick nd)" using w1(3) by simp
    then obtain nd1 where "pool w1 i = Some nd1" "wheel_bucket nd1 = END_OF_LIST" by (auto simp: timer_view_def)
    ultimately show ?thesis using w1 False by auto
  qed
  then obtain w1 ls1 nd1 where w1: "(if wheel_bucket nd \<noteq> END_OF_LIST then cancel i w else Some w) = Some w1" "wheel_state LVL_COUNT w1 ls1 []"
    "pool w1 i = Some nd1" "wheel_bucket nd1 = END_OF_LIST" "current_tick w1 = current_tick w" "\<And>x. x \<noteq> i \<Longrightarrow> timer_view w1 x = timer_view w x"
    by blast
  have "fileable (unat (current_tick w1)) (unat e)" using due w1(5) by simp
  then obtain w' ls' b where w': "schedule i e w1 = Some w'" "wheel_state LVL_COUNT w' ls' []"
    "timer_view w' = (timer_view w1)(i \<mapsto> (b, e))" "b \<noteq> END_OF_LIST" "current_tick w' = current_tick w1"
    using schedule_fresh [OF w1(2,3,4), of e] by (metis list.set(1) empty_iff)
  have "schedule i e w = Some w'" using w'(1) w1(1,3,4) by (simp add: schedule_def nd)
  moreover have "deadlines w' = (deadlines w)(i \<mapsto> e)" using w'(3,4) w1(6) by (auto simp: deadlines_def fun_eq_iff)
  moreover have "wheel_ok w'" using w'(2) by (auto simp: wheel_ok_def)
  ultimately show ?thesis using w'(5) w1(5) by auto
qed

lemma cancel_ok:
  assumes inv: "wheel_ok w"
  shows "\<exists>w'. cancel i w = Some w' \<and> wheel_ok w' \<and> deadlines w' = (deadlines w)(i := None) \<and> current_tick w' = current_tick w"
proof (cases "deadlines w i")
  case None
  then have "cancel i w = Some w"
    by (auto simp: cancel_def deadlines_def timer_view_def split: option.splits if_splits)
  then show ?thesis using inv None by auto
next
  case (Some e)
  then obtain b where v: "timer_view w i = Some (b, e)" "b \<noteq> END_OF_LIST" by (auto simp: deadlines_def split: option.splits if_splits)
  obtain ls where S: "wheel_state LVL_COUNT w ls []" using inv by (auto simp: wheel_ok_def)
  obtain w' where w': "cancel i w = Some w'" "wheel_lists w' (ls(unat b := remove1 i (ls (unat b)))) []"
    "timer_view w' = (timer_view w)(i \<mapsto> (END_OF_LIST, e))" "current_tick w' = current_tick w"
    using cancel_lists [OF wheel_stateD(1) [OF S] v] by metis
  have "wheel_state LVL_COUNT w' (ls(unat b := remove1 i (ls (unat b)))) []"
    using w'(2,3,4) wheel_stateD(2) [OF S] unfolding wheel_state_def by (auto split: if_splits)
  moreover have "deadlines w' = (deadlines w)(i := None)" using w'(3) by (auto simp: deadlines_def fun_eq_iff)
  ultimately show ?thesis using w'(1,4) by (auto simp: wheel_ok_def)
qed

lemma schedule_spec:
  assumes inv: "wheel_inv w" and i: "pool w i \<noteq> None" and due: "unat (current_tick w) \<le> unat e"
  shows "\<exists>w'. schedule i e w = Some w' \<and> wheel_inv w' \<and> deadlines w' = (deadlines w)(i \<mapsto> e) \<and> current_tick w' = current_tick w"
  using schedule_ok [of w i e] assms by (fastforce simp: wheel_inv_def fileable_def)

lemma cancel_spec:
  assumes inv: "wheel_inv w"
  shows "\<exists>w'. cancel i w = Some w' \<and> wheel_inv w' \<and> deadlines w' = (deadlines w)(i := None) \<and> current_tick w' = current_tick w"
  using cancel_ok [of w i] assms by (fastforce simp: wheel_inv_def)

subsection \<open>Detached lists\<close>

lemma mark_end:
  assumes S: "wheel_state n w ls (x # D)" and x: "timer_view w x = Some (b, e)" "x \<notin> set D"
  obtains w1 nd where "pool w x = Some nd" "expires_tick nd = e" "set_node x (\<lambda>n. n\<lparr>wheel_bucket := END_OF_LIST\<rparr>) w = Some w1"
    "wheel_state n w1 ls D" "timer_view w1 = (timer_view w)(x \<mapsto> (END_OF_LIST, e))" "current_tick w1 = current_tick w"
    "\<And>y. map_option timer_next (pool w1 y) = map_option timer_next (pool w y)"
proof -
  obtain nd where nd: "pool w x = Some nd" "expires_tick nd = e" using x by (auto simp: timer_view_def)
  let ?w = "w\<lparr>pool := (pool w)(x \<mapsto> nd\<lparr>wheel_bucket := END_OF_LIST\<rparr>)\<rparr>"
  note L = wheel_stateD(1) [OF S]
  have view: "timer_view ?w = (timer_view w)(x \<mapsto> (END_OF_LIST, e))" using nd by (auto simp: timer_view_def)
  have "x \<notin> set (ls c)" if "c < 512" for c using wheel_listsD(5) [OF L that, of x] by auto
  then have "wheel_lists ?w ls D"
    unfolding wheel_lists_def using wheel_listsD [OF L] view nd(1) by (auto simp: dll_frame split: if_splits)
  then have "wheel_state n ?w ls D"
    using wheel_stateD(2) [OF S] view unfolding wheel_state_def by (auto split: if_splits)
  then show thesis using that [OF nd, of ?w] view nd by (simp add: set_node_def)
qed

lemma detach:
  assumes S: "wheel_state n w ls []" and b: "b < 512"
  shows "set_bucket (of_nat b) END_OF_LIST w = Some (w\<lparr>buckets := (buckets w)[b := END_OF_LIST]\<rparr>)"
    "wheel_state n (w\<lparr>buckets := (buckets w)[b := END_OF_LIST]\<rparr>) (ls(b := [])) (ls b)"
proof -
  note L = wheel_stateD(1) [OF S]
  let ?w = "w\<lparr>buckets := (buckets w)[b := END_OF_LIST]\<rparr>"
  show "set_bucket (of_nat b) END_OF_LIST w = Some ?w" using b wheel_listsD(1) [OF L] by (simp add: set_bucket_def unat_bucket)
  have view: "timer_view ?w = timer_view w" by (simp add: timer_view_def fun_eq_iff)
  have "set (ls c) \<inter> set (ls b) = {}" if "c < 512" "c \<noteq> b" for c using wheel_lists_disjoint [OF L that(1) b] that(2) by blast
  moreover have "unat c < 512 \<and> i \<in> set ((ls(b := [])) (unat c))"
    if "timer_view w i = Some (c, e)" "c \<noteq> END_OF_LIST" "i \<notin> set (ls b)" for i c e
    using wheel_listsD(6) [OF L that(1,2)] that(3) by auto
  ultimately have "wheel_lists ?w (ls(b := [])) (ls b)"
    unfolding wheel_lists_def view using wheel_listsD(1-4) [OF L] b by (auto simp: nth_list_update)
  then show "wheel_state n ?w (ls(b := [])) (ls b)" using wheel_stateD(2) [OF S] unfolding wheel_state_def view by auto
qed

lemma detached_nodes:
  assumes S: "wheel_state n w ls []" and b: "b < 512"
  shows "chain (pool w) (buckets w ! b) (ls b)" "distinct (ls b)" "x \<in> set (ls b) \<Longrightarrow> \<exists>e. timer_view w x = Some (of_nat b, e)"
    "timer_view w x = Some (of_nat b, e) \<Longrightarrow> x \<in> set (ls b)"
  using wheel_listsD(3,4) [OF wheel_stateD(1) [OF S] b] wheel_lists_view [OF wheel_stateD(1) [OF S] b, of x]
    wheel_listsD(6) [OF wheel_stateD(1) [OF S], of x "of_nat b" e] bucket_not_end [of "of_nat b"] b
  by (auto simp: unat_bucket dest: dll_chain)

text \<open>The links of the nodes that are not scheduled stay as they are.\<close>

definition idle_links :: "timing_wheel \<Rightarrow> timing_wheel \<Rightarrow> bool" where
  "idle_links w w' \<longleftrightarrow> (\<forall>y. deadlines w y = None \<longrightarrow> map_option timer_next (pool w' y) = map_option timer_next (pool w y))"

lemma idle_links_refl [simp]: "idle_links w w"
  by (simp add: idle_links_def)

lemma idle_links_trans: "idle_links w w1 \<Longrightarrow> deadlines w1 = deadlines w \<Longrightarrow> idle_links w1 w2 \<Longrightarrow> idle_links w w2"
  by (simp add: idle_links_def)

lemma reschedule_list_spec:
  assumes "wheel_state n w ls D" "chain (pool w) h D" "distinct D"
    and "\<forall>x\<in>set D. \<exists>b e. timer_view w x = Some (b, e) \<and> b \<noteq> END_OF_LIST \<and> fileable (unat (current_tick w)) (unat e)"
  shows "\<exists>w' ls'. reschedule_list h w = Some w' \<and> wheel_state n w' ls' [] \<and> deadlines w' = deadlines w \<and> current_tick w' = current_tick w
    \<and> idle_links w w'"
  using assms
proof (induction D arbitrary: w ls h)
  case Nil
  then show ?case by (auto simp: reschedule_list.simps)
next
  case (Cons x D)
  obtain b e where v: "timer_view w x = Some (b, e)" "b \<noteq> END_OF_LIST" "fileable (unat (current_tick w)) (unat e)" using Cons.prems(4) by auto
  have xD: "x \<notin> set D" using Cons.prems(3) by simp
  obtain w1 nd where w1: "pool w x = Some nd" "expires_tick nd = e" "set_node x (\<lambda>n. n\<lparr>wheel_bucket := END_OF_LIST\<rparr>) w = Some w1"
    "wheel_state n w1 ls D" "timer_view w1 = (timer_view w)(x \<mapsto> (END_OF_LIST, e))" "current_tick w1 = current_tick w"
    "\<And>y. map_option timer_next (pool w1 y) = map_option timer_next (pool w y)"
    using mark_end [OF Cons.prems(1) v(1) xD] by metis
  have "timer_view w1 x = Some (END_OF_LIST, e)" using w1(5) by simp
  then obtain nd1 where nd1: "pool w1 x = Some nd1" "wheel_bucket nd1 = END_OF_LIST" by (auto simp: timer_view_def)
  have due: "fileable (unat (current_tick w1)) (unat e)" using v(3) w1(6) by simp
  obtain w2 ls2 c where w2: "schedule x e w1 = Some w2" "wheel_state n w2 ls2 D" "timer_view w2 = (timer_view w1)(x \<mapsto> (c, e))"
    "c \<noteq> END_OF_LIST" "current_tick w2 = current_tick w1"
    "\<And>y. y \<noteq> x \<Longrightarrow> map_option timer_next (pool w2 y) = map_option timer_next (pool w1 y)"
    using schedule_fresh [OF w1(4) nd1 xD due] by metis
  have h: "h = x" "x \<noteq> END_OF_LIST" "chain (pool w) (timer_next nd) D" using Cons.prems(2) w1(1) by auto
  have "chain (pool w2) (timer_next nd) D"
    using h(3) chain_cong [of D "pool w2" "pool w"] w2(6) w1(7) xD by metis
  moreover have "\<forall>y\<in>set D. \<exists>b e. timer_view w2 y = Some (b, e) \<and> b \<noteq> END_OF_LIST \<and> fileable (unat (current_tick w2)) (unat e)"
    using Cons.prems(4) w2(3,5) w1(5,6) xD by auto
  ultimately obtain w' ls' where w': "reschedule_list (timer_next nd) w2 = Some w'" "wheel_state n w' ls' []"
    "deadlines w' = deadlines w2" "current_tick w' = current_tick w2" "idle_links w2 w'"
    using Cons.IH [OF w2(2), of "timer_next nd"] Cons.prems(3) by auto
  have same: "deadlines w2 = deadlines w" using w2(3,4) w1(5) v by (auto simp: deadlines_def fun_eq_iff)
  have "deadlines w x \<noteq> None" using v by (simp add: deadlines_def)
  then have "idle_links w w2" using w2(6) w1(7) unfolding idle_links_def by metis
  then have "idle_links w w'" using idle_links_trans [OF _ same w'(5)] by simp
  moreover have "reschedule_list h w = Some w'" using h(1,2) w1(1,2,3) w2(1) w'(1) by (simp add: reschedule_list.simps [of x])
  ultimately show ?case using w' same w2(5) w1(6) by auto
qed

lemma clear_markers_spec:
  assumes "wheel_state n w ls D" "chain (pool w) h D" "distinct D" "\<forall>x\<in>set D. timer_view w x \<noteq> None"
  shows "\<exists>w'. clear_markers h w = Some w' \<and> wheel_state n w' ls [] \<and> current_tick w' = current_tick w
    \<and> (\<forall>y. map_option timer_next (pool w' y) = map_option timer_next (pool w y))
    \<and> timer_view w' = (\<lambda>x. if x \<in> set D then map_option (\<lambda>(b, e). (END_OF_LIST, e)) (timer_view w x) else timer_view w x)"
  using assms
proof (induction D arbitrary: w h)
  case Nil
  then show ?case by (auto simp: clear_markers.simps)
next
  case (Cons x D)
  obtain b e where v: "timer_view w x = Some (b, e)" using Cons.prems(4) by auto
  have xD: "x \<notin> set D" using Cons.prems(3) by simp
  obtain w1 nd where w1: "pool w x = Some nd" "expires_tick nd = e" "set_node x (\<lambda>n. n\<lparr>wheel_bucket := END_OF_LIST\<rparr>) w = Some w1"
    "wheel_state n w1 ls D" "timer_view w1 = (timer_view w)(x \<mapsto> (END_OF_LIST, e))" "current_tick w1 = current_tick w"
    "\<And>y. map_option timer_next (pool w1 y) = map_option timer_next (pool w y)"
    using mark_end [OF Cons.prems(1) v xD] by metis
  have h: "h = x" "x \<noteq> END_OF_LIST" "chain (pool w) (timer_next nd) D" using Cons.prems(2) w1(1) by auto
  obtain nd1 where nd1: "pool w1 x = Some nd1" "timer_next nd1 = timer_next nd" using w1(7) [of x] w1(1) by auto
  have "chain (pool w1) (timer_next nd) D" using h(3) chain_cong [of D "pool w1" "pool w"] w1(7) by metis
  moreover have "\<forall>y\<in>set D. timer_view w1 y \<noteq> None" using Cons.prems(4) w1(5) by auto
  ultimately obtain w' where w': "clear_markers (timer_next nd) w1 = Some w'" "wheel_state n w' ls []" "current_tick w' = current_tick w1"
    "\<forall>y. map_option timer_next (pool w' y) = map_option timer_next (pool w1 y)"
    "timer_view w' = (\<lambda>y. if y \<in> set D then map_option (\<lambda>(b, e). (END_OF_LIST, e)) (timer_view w1 y) else timer_view w1 y)"
    using Cons.IH [OF w1(4), of "timer_next nd"] Cons.prems(3) by auto
  have "clear_markers h w = Some w'" using h(1,2) w1(3) nd1 w'(1) by (simp add: clear_markers.simps [of x])
  moreover have "timer_view w' = (\<lambda>y. if y \<in> set (x # D) then map_option (\<lambda>(b, e). (END_OF_LIST, e)) (timer_view w y) else timer_view w y)"
    using w'(5) w1(5) v xD by (auto simp: fun_eq_iff)
  ultimately show ?case using w'(2,3,4) w1(6,7) by auto
qed

subsection \<open>Clock advance\<close>

lemma intrusive_view_chain: "chain (pool w) h xs \<Longrightarrow> intrusive_view h w = Some xs"
proof (induction xs arbitrary: h)
  case (Cons x xs)
  then obtain nd where "h = x" "x \<noteq> END_OF_LIST" "pool w x = Some nd" "intrusive_view (timer_next nd) w = Some xs" by auto
  then show ?case by (simp add: intrusive_view.simps [of x])
qed (simp add: intrusive_view.simps)

lemma no_lag:
  assumes "0 < T" "\<not> m dvd T"
  shows "(T - 1) div m = T div (m :: nat)"
proof -
  have m: "0 < T mod m" using assms by (simp add: mod_greater_zero_iff_not_dvd)
  have "T - 1 = (T mod m - 1) + T div m * m" using m div_mult_mod_eq [of T m] by linarith
  moreover have "(T mod m - 1 + T div m * m) div m = T div m"
  proof (cases "m = 0")
    case False
    then have "T mod m - 1 < m" using mod_less_divisor [of m T] by linarith
    then show ?thesis using False by simp
  qed (use assms in simp)
  ultimately show ?thesis by simp
qed

lemma placed_level: "bucket_level b \<noteq> n \<Longrightarrow> placed n T b e \<longleftrightarrow> placed (n + 1) T b e"
  by (auto simp: placed_def Let_def)

lemma level_step:
  assumes "2 ^ s dvd T" "0 < (T :: nat)"
  shows "T div 2 ^ s = (T - 1) div 2 ^ s + 1"
proof -
  obtain k where k: "T = 2 ^ s * k" using assms(1) by blast
  then obtain j where j: "k = Suc j" using assms(2) by (cases k) auto
  have "T - 1 = (2 ^ s - 1) + j * 2 ^ s" unfolding k j by (simp add: algebra_simps)
  moreover have "(2 ^ s - 1 + j * 2 ^ s) div 2 ^ s = j + (2 ^ s - 1) div (2 ^ s :: nat)" by (rule div_mult_self1) simp
  ultimately have "(T - 1) div 2 ^ s = j" by simp
  then show ?thesis unfolding k j by simp
qed

lemma level_buckets:
  assumes "b < 512" "bucket_level b = n" "1 \<le> n"
  shows "b = 256 + (n - 1) * 64 + (b - 256) mod 64" "\<not> b < 256"
  using assms by (auto simp: bucket_level_def split: if_splits)

lemma cascade_arith:
  assumes "1 \<le> n" "b < 512" "0 < T" "2 ^ level_shift n dvd T" "bucket_level b = n" "placed n T b e"
    "b \<noteq> 256 + (n - 1) * 64 + T div 2 ^ level_shift n mod 64"
  shows "placed (n + 1) T b e"
proof (cases "448 \<le> b \<and> e < T")
  case True
  then show ?thesis by (simp add: placed_def)
next
  case False
  let ?m = "2 ^ level_shift n :: nat"
  note b = level_buckets [OF assms(2,5,1)]
  have pl: "(b - 256) mod 64 = e div ?m mod 64" "(T - 1) div ?m < e div ?m"
    using assms(5,6) b(2) False by (auto simp: placed_def Let_def)
  note st = level_step [OF assms(4,3)]
  have "(b - 256) mod 64 \<noteq> T div ?m mod 64" using b(1) assms(7) by metis
  then have "e div ?m \<noteq> T div ?m" using pl(1) by metis
  then have "T div ?m < e div ?m" using pl(2) st by linarith
  then show ?thesis using pl(1) b(2) assms(5) by (simp add: placed_def Let_def)
qed

lemma cascade_spec:
  assumes S: "wheel_state n w ls []" and n: "1 \<le> n" "n \<le> 4" and T: "T = unat (current_tick w)" "0 < T" "2 ^ level_shift n dvd T"
    and files: "refileable w"
  shows "\<exists>w' ls'. cascade (TVR_SIZE + (n - 1) * TVN_SIZE) (T div 2 ^ level_shift n mod 64) w = Some w' \<and> wheel_state (n + 1) w' ls' []
    \<and> deadlines w' = deadlines w \<and> current_tick w' = current_tick w \<and> idle_links w w'"
proof -
  let ?b = "256 + (n - 1) * 64 + T div 2 ^ level_shift n mod 64"
  let ?w = "w\<lparr>buckets := (buckets w)[?b := END_OF_LIST]\<rparr>"
  have "T div 2 ^ level_shift n mod 64 < 64" by simp
  then have b: "?b < 512" "bucket_level ?b = n" using n by (auto simp: bucket_level_def)
  note d = detach [OF S b(1)] and nodes = detached_nodes [OF S b(1)]
  have view: "timer_view ?w = timer_view w" by (simp add: timer_view_def fun_eq_iff)
  have up: "placed (n + 1) T (unat c) (unat e)" if "timer_view w i = Some (c, e)" "c \<noteq> END_OF_LIST" "i \<notin> set (ls ?b)" for i c e
  proof -
    have c: "unat c < 512" "i \<in> set (ls (unat c))" using wheel_listsD(6) [OF wheel_stateD(1) [OF S] that(1,2)] by simp_all
    then have "unat c \<noteq> ?b" using that(3) by metis
    moreover have "placed n T (unat c) (unat e)" using wheel_stateD(2) [OF S that(1,2)] T(1) by simp
    ultimately show ?thesis
      using cascade_arith [OF n(1) c(1) T(2,3)] placed_level [of "unat c" n] by (cases "bucket_level (unat c) = n") auto
  qed
  have S1: "wheel_state (n + 1) ?w (ls(?b := [])) (ls ?b)"
    unfolding wheel_state_def view
  proof (intro conjI allI impI)
    show "wheel_lists ?w (ls(?b := [])) (ls ?b)" by (rule wheel_stateD(1) [OF d(2)])
    show "placed (n + 1) (unat (current_tick ?w)) (unat c) (unat e)"
      if "timer_view w i = Some (c, e)" "c \<noteq> END_OF_LIST" "i \<notin> set (ls ?b)" for i c e
      using up [OF that] T(1) by simp
  qed
  have "\<exists>c e. timer_view ?w x = Some (c, e) \<and> c \<noteq> END_OF_LIST \<and> fileable (unat (current_tick ?w)) (unat e)" if x: "x \<in> set (ls ?b)" for x
  proof -
    obtain e where e: "timer_view w x = Some (of_nat ?b, e)" using nodes(3) [OF x] by blast
    have ub: "unat (of_nat ?b :: u32) = ?b" by (rule unat_bucket [OF b(1)])
    then have ne: "(of_nat ?b :: u32) \<noteq> END_OF_LIST" using b(1) by (metis bucket_not_end)
    have "deadlines w x = Some e" using e ne by (simp add: deadlines_def)
    then show ?thesis using e ne files view by (auto simp: refileable_def)
  qed
  moreover have "chain (pool ?w) (buckets w ! ?b) (ls ?b)" using nodes(1) by simp
  ultimately obtain w' ls' where w': "reschedule_list (buckets w ! ?b) ?w = Some w'" "wheel_state (n + 1) w' ls' []"
    "deadlines w' = deadlines ?w" "current_tick w' = current_tick ?w" "idle_links ?w w'"
    using reschedule_list_spec [OF S1 _ nodes(2)] by blast
  have "get_bucket (of_nat ?b) w = Some (buckets w ! ?b)"
    using b(1) wheel_listsD(1) [OF wheel_stateD(1) [OF S]] by (simp only: get_bucket_def unat_bucket if_True)
  then have "cascade (TVR_SIZE + (n - 1) * TVN_SIZE) (T div 2 ^ level_shift n mod 64) w = Some w'"
    unfolding cascade_def TVR_SIZE_def TVN_SIZE_def Let_def using d(1) w'(1) by (simp del: of_nat_add)
  moreover have "deadlines ?w = deadlines w" by (rule timer_view_upd)
  moreover have "idle_links w w'" using w'(5) by (simp add: idle_links_def)
  ultimately show ?thesis using w'(2,3,4) by auto
qed

lemma placed_lag:
  assumes "placed n T b e" "b < 512" "0 < T" "\<And>m. n \<le> m \<Longrightarrow> m < LVL_COUNT \<Longrightarrow> \<not> 2 ^ level_shift m dvd T"
  shows "placed LVL_COUNT T b e"
proof (cases "n \<le> bucket_level b")
  case True
  have l: "bucket_level b < LVL_COUNT" using assms(2) by (auto simp: bucket_level_def LVL_COUNT_def)
  show ?thesis using assms(1) no_lag [OF assms(3) assms(4) [OF True l]] True l by (auto simp: placed_def Let_def)
next
  case False
  then show ?thesis using assms(1,2) by (auto simp: placed_def Let_def bucket_level_def LVL_COUNT_def)
qed

lemma wheel_state_lag:
  assumes S: "wheel_state n w ls []" and T: "T = unat (current_tick w)" "0 < T"
    and lag: "\<And>m. n \<le> m \<Longrightarrow> m < LVL_COUNT \<Longrightarrow> \<not> 2 ^ level_shift m dvd T"
  shows "wheel_ok w"
proof -
  have "placed LVL_COUNT T (unat b) (unat e)" if "timer_view w i = Some (b, e)" "b \<noteq> END_OF_LIST" for i b e
    using placed_lag [OF _ _ T(2) lag] wheel_stateD(2) [OF S that] wheel_listsD(6) [OF wheel_stateD(1) [OF S] that] T(1) by auto
  then show ?thesis using wheel_stateD(1) [OF S] T(1) unfolding wheel_ok_def wheel_state_def by auto
qed

lemma level_shift_dvd: "m \<le> n \<Longrightarrow> \<not> 2 ^ level_shift m dvd T \<Longrightarrow> \<not> 2 ^ level_shift n dvd (T :: nat)"
  using le_imp_power_dvd [of "level_shift m" "level_shift n" "2 :: nat"] dvd_trans by (fastforce simp: level_shift_def)

lemma level_shift_Suc: "1 \<le> n \<Longrightarrow> (2 :: nat) ^ level_shift (n + 1) = 2 ^ level_shift n * 64"
proof -
  assume "1 \<le> n"
  then have "level_shift (n + 1) = level_shift n + 6" by (simp add: level_shift_def algebra_simps)
  then show ?thesis by (simp add: power_add)
qed

lemma cascade_levels_spec:
  assumes "wheel_state n w ls []" "1 \<le> n" "n \<le> 4" "T = unat (current_tick w)" "0 < T" "2 ^ level_shift n dvd T" "refileable w"
  shows "\<exists>w'. cascade_levels n w = Some w' \<and> wheel_ok w' \<and> deadlines w' = deadlines w \<and> current_tick w' = current_tick w
    \<and> idle_links w w'"
  using assms
proof (induction n w arbitrary: ls rule: cascade_levels.induct)
  case (1 n w)
  let ?i = "T div 2 ^ level_shift n mod 64"
  have idx: "unat (drop_bit (level_shift n) (current_tick w) AND 0x3F) = ?i"
    using "1.prems"(4) by (simp add: unat_and_mask unat_drop_bit_div)
  obtain w1 ls1 where w1: "cascade (TVR_SIZE + (n - 1) * TVN_SIZE) ?i w = Some w1" "wheel_state (n + 1) w1 ls1 []"
    "deadlines w1 = deadlines w" "current_tick w1 = current_tick w" "idle_links w w1"
    using cascade_spec [OF "1.prems"] by blast
  have f1: "refileable w1" using "1.prems"(7) w1(3,4) by (simp add: refileable_def)
  have T1: "T = unat (current_tick w1)" using "1.prems"(4) w1(4) by simp
  have step: "cascade_levels n w = (if ?i \<noteq> 0 then Some w1 else if n + 1 < LVL_COUNT then cascade_levels (n + 1) w1 else Some w1)"
    using idx w1(1) by (simp add: cascade_levels.simps [of n w] Let_def)
  have dvd: "2 ^ level_shift (n + 1) dvd T \<longleftrightarrow> ?i = 0"
    unfolding level_shift_Suc [OF "1.prems"(2)] using "1.prems"(6) by (auto simp: dvd_eq_mod_eq_0 mod_mult2_eq)
  show ?case
  proof (cases "?i = 0 \<and> n + 1 < LVL_COUNT")
    case True
    then have n4: "n + 1 \<le> 4" by (simp add: LVL_COUNT_def)
    have "\<exists>w'. cascade_levels (n + 1) w1 = Some w' \<and> wheel_ok w' \<and> deadlines w' = deadlines w1 \<and> current_tick w' = current_tick w1
        \<and> idle_links w1 w'"
      using "1.IH" [OF refl, of w1] w1 idx True n4 T1 dvd f1 "1.prems"(5) by simp
    then show ?thesis using step True w1(3,4) idle_links_trans [OF w1(5,3)] by auto
  next
    case False
    have "wheel_ok w1"
    proof (rule wheel_state_lag [OF w1(2) T1 "1.prems"(5)])
      fix m assume "n + 1 \<le> m" "m < LVL_COUNT"
      then show "\<not> 2 ^ level_shift m dvd T" using False dvd by (intro level_shift_dvd [of "n + 1" m]) auto
    qed
    then show ?thesis using step False w1(3,4,5) by auto
  qed
qed

lemma mod_window:
  assumes "T \<le> e" "e < T + m" "T mod m = e mod (m :: nat)"
  shows "e = T"
proof (rule ccontr)
  assume "e \<noteq> T"
  moreover have "m dvd e - T" using assms(1,3) mod_eq_dvd_iff_nat [of T e m] by simp
  ultimately have "m \<le> e - T" using assms(1) by (intro dvd_imp_le) auto
  then show False using assms(1,2) by linarith
qed

abbreviation now_bucket :: "timing_wheel \<Rightarrow> nat" where
  "now_bucket w \<equiv> unat (current_tick w) mod 256"

lemma now_bucket_word: "(ucast (current_tick w AND 0xFF) :: u32) = of_nat (now_bucket w)"
proof -
  have "unat (ucast (current_tick w AND 0xFF) :: u32) = now_bucket w" by (rule unat_ucast_mask)
  moreover have "now_bucket w < 512" by (rule less_trans [of _ 256]) simp_all
  ultimately show ?thesis by (metis unat_bucket word_unat_eq_iff)
qed

text \<open>The list of the current bucket holds exactly the timers that are due now.\<close>

lemma bucket_fires:
  assumes S: "wheel_state LVL_COUNT w ls []"
  shows "set (ls (now_bucket w)) = {i. deadlines w i = Some (current_tick w)}"
proof (intro set_eqI iffI CollectI)
  let ?T = "unat (current_tick w)" and ?c = "now_bucket w"
  have c: "?c < 512" by (rule less_trans [of _ 256]) simp_all
  have ne: "(of_nat ?c :: u32) \<noteq> END_OF_LIST" using bucket_not_end [of "of_nat ?c"] c by (simp add: unat_bucket)
  note nodes = detached_nodes [OF S c]
  show "deadlines w i = Some (current_tick w)" if i: "i \<in> set (ls ?c)" for i
  proof -
    obtain e where e: "timer_view w i = Some (of_nat ?c, e)" using nodes(3) [OF i] by blast
    then have "placed LVL_COUNT ?T ?c (unat e)" using wheel_stateD(2) [OF S e ne] c by (simp add: unat_bucket)
    then have "?T \<le> unat e" "unat e < ?T + 256" "?c = unat e mod 256" by (simp_all add: placed_def split: if_splits)
    then have "unat e = ?T" by (rule mod_window)
    then show ?thesis using e ne by (simp add: deadlines_def word_unat_eq_iff)
  qed
  show "i \<in> set (ls ?c)" if i: "i \<in> {i. deadlines w i = Some (current_tick w)}" for i
  proof -
    obtain b where b: "timer_view w i = Some (b, current_tick w)" "b \<noteq> END_OF_LIST"
      using i by (auto simp: deadlines_def split: option.splits if_splits)
    have "placed LVL_COUNT ?T (unat b) ?T" using wheel_stateD(2) [OF S b] by simp
    moreover have "bucket_level (unat b) < LVL_COUNT"
      using wheel_listsD(6) [OF wheel_stateD(1) [OF S] b] by (auto simp: bucket_level_def LVL_COUNT_def)
    ultimately have "unat b = ?c" by (auto simp: placed_def Let_def split: if_splits)
    moreover have "of_nat (unat b) = b" by simp
    ultimately show ?thesis using nodes(4) b(1) by metis
  qed
qed

text \<open>The first half of \<^verbatim>\<open>tick\<close>: the current list is cut off and its nodes are unmarked.\<close>

lemma take_bucket:
  assumes S: "wheel_state n w ls []" and c: "c < 512" and h: "h = buckets w ! c"
  shows "\<exists>w1. (if h \<noteq> END_OF_LIST then set_bucket (of_nat c) END_OF_LIST w \<bind> clear_markers h else Some w) = Some w1
    \<and> wheel_state n w1 (ls(c := [])) [] \<and> current_tick w1 = current_tick w \<and> chain (pool w1) h (ls c)
    \<and> deadlines w1 = (\<lambda>i. if i \<in> set (ls c) then None else deadlines w i)"
proof (cases "h = END_OF_LIST")
  case True
  then have "ls c = []" using detached_nodes(1) [OF S c] h by (cases "ls c") auto
  then show ?thesis using True S by (auto simp: fun_upd_idem)
next
  case False
  note d = detach [OF S c] and nodes = detached_nodes [OF S c]
  let ?w = "w\<lparr>buckets := (buckets w)[c := END_OF_LIST]\<rparr>"
  have "\<forall>x\<in>set (ls c). timer_view ?w x \<noteq> None" using nodes(3) by fastforce
  moreover have "chain (pool ?w) h (ls c)" using nodes(1) h by simp
  ultimately obtain w1 where w1: "clear_markers h ?w = Some w1" "wheel_state n w1 (ls(c := [])) []"
    "current_tick w1 = current_tick ?w" "\<forall>y. map_option timer_next (pool w1 y) = map_option timer_next (pool ?w y)"
    "timer_view w1 = (\<lambda>x. if x \<in> set (ls c) then map_option (\<lambda>(b, e). (END_OF_LIST, e)) (timer_view ?w x) else timer_view ?w x)"
    using clear_markers_spec [OF d(2) _ nodes(2)] by blast
  have "chain (pool w1) h (ls c)" using nodes(1) chain_cong [of "ls c" "pool w1" "pool w"] w1(4) h by simp
  moreover have "deadlines w1 = (\<lambda>i. if i \<in> set (ls c) then None else deadlines w i)"
    using w1(5) by (auto simp: deadlines_def fun_eq_iff split: option.splits)
  ultimately show ?thesis using w1(1,2,3) d(1) False by simp
qed

text \<open>The clock moves on: only the coarser levels may now lag by one tick.\<close>

lemma advance_clock:
  assumes S: "wheel_state LVL_COUNT w ls []" "ls (now_bucket w) = []" and nowrap: "unat (current_tick w) + 1 < 2 ^ 64"
  shows "unat (current_tick w + 1) = unat (current_tick w) + 1" "wheel_state 1 (w\<lparr>current_tick := current_tick w + 1\<rparr>) ls []"
proof -
  let ?T = "unat (current_tick w)"
  show T: "unat (current_tick w + 1) = ?T + 1" using nowrap unat_inc [of "current_tick w"] by simp
  have "placed 1 (?T + 1) (unat b) (unat e)" if v: "timer_view w i = Some (b, e)" "b \<noteq> END_OF_LIST" for i b e
  proof -
    have pl: "placed LVL_COUNT ?T (unat b) (unat e)" using wheel_stateD(2) [OF S(1) v] by simp
    have ib: "unat b < 512" "i \<in> set (ls (unat b))" using wheel_listsD(6) [OF wheel_stateD(1) [OF S(1)] v] by simp_all
    then have "unat b \<noteq> now_bucket w" using S(2) by auto
    then have "unat b < 256 \<longrightarrow> unat e \<noteq> ?T" using pl by (auto simp: placed_def)
    moreover have "bucket_level (unat b) < LVL_COUNT" using ib(1) by (auto simp: bucket_level_def LVL_COUNT_def)
    ultimately show ?thesis using pl by (auto simp: placed_def Let_def bucket_level_def split: if_splits)
  qed
  then show "wheel_state 1 (w\<lparr>current_tick := current_tick w + 1\<rparr>) ls []"
    using wheel_stateD(1) [OF S(1)] T by (simp add: wheel_state_def wheel_lists_def)
qed

lemma roll_over:
  assumes S: "wheel_state 1 w ls []" and T: "T = unat (current_tick w)" "0 < T" and files: "refileable w"
  shows "\<exists>w'. (if current_tick w AND 0xFF = 0 then cascade_levels 1 w else Some w) = Some w' \<and> wheel_ok w'
    \<and> deadlines w' = deadlines w \<and> current_tick w' = current_tick w \<and> idle_links w w'"
proof (cases "current_tick w AND 0xFF = 0")
  case True
  then have "T mod 256 = 0" using unat_and_mask(1) [of "current_tick w"] T(1) by simp
  then have "2 ^ level_shift 1 dvd T" by (simp add: level_shift_def dvd_eq_mod_eq_0)
  then show ?thesis using cascade_levels_spec [OF S _ _ T _ files] True by simp
next
  case False
  then have "T mod 256 \<noteq> 0" using unat_and_mask(1) [of "current_tick w"] T(1) by (metis unat_eq_zero)
  then have "\<not> 2 ^ level_shift 1 dvd T" by (simp add: level_shift_def dvd_eq_mod_eq_0)
  then have "wheel_ok w" using wheel_state_lag [OF S T] level_shift_dvd by auto
  then show ?thesis using False by simp
qed

lemma tick_ok:
  assumes inv: "wheel_ok w" and nowrap: "unat (current_tick w) + 1 < 2 ^ 64"
    and files: "\<And>i e. deadlines w i = Some e \<Longrightarrow> e \<noteq> current_tick w \<Longrightarrow> fileable (unat (current_tick w) + 1) (unat e)"
  shows "\<exists>h w' xs. tick w = Some (h, w') \<and> wheel_ok w' \<and> unat (current_tick w') = unat (current_tick w) + 1
    \<and> intrusive_view h w' = Some xs \<and> distinct xs \<and> set xs = {i. deadlines w i = Some (current_tick w)}
    \<and> deadlines w' = (\<lambda>i. if deadlines w i = Some (current_tick w) then None else deadlines w i)"
proof -
  obtain ls where S: "wheel_state LVL_COUNT w ls []" using inv by (auto simp: wheel_ok_def)
  let ?c = "now_bucket w" and ?h = "buckets w ! now_bucket w"
  have c: "?c < 512" by (rule less_trans [of _ 256]) simp_all
  have get: "get_bucket (of_nat ?c) w = Some ?h"
    using c wheel_listsD(1) [OF wheel_stateD(1) [OF S]] by (simp add: get_bucket_def unat_bucket)
  note fired = bucket_fires [OF S]
  obtain w1 where w1: "(if ?h \<noteq> END_OF_LIST then set_bucket (of_nat ?c) END_OF_LIST w \<bind> clear_markers ?h else Some w) = Some w1"
    "wheel_state LVL_COUNT w1 (ls(?c := [])) []" "current_tick w1 = current_tick w" "chain (pool w1) ?h (ls ?c)"
    "deadlines w1 = (\<lambda>i. if i \<in> set (ls ?c) then None else deadlines w i)"
    using take_bucket [OF S c refl] by blast
  let ?w2 = "w1\<lparr>current_tick := current_tick w1 + 1\<rparr>"
  have T2: "unat (current_tick ?w2) = unat (current_tick w) + 1" and S2: "wheel_state 1 ?w2 (ls(?c := [])) []"
    using advance_clock [OF w1(2)] w1(3) nowrap by simp_all
  have "refileable ?w2" using files fired w1(5) T2 by (auto simp: refileable_def split: if_splits)
  moreover have pos: "0 < unat (current_tick w) + 1" by simp
  ultimately obtain w3 where w3: "(if current_tick ?w2 AND 0xFF = 0 then cascade_levels 1 ?w2 else Some ?w2) = Some w3" "wheel_ok w3"
    "deadlines w3 = deadlines ?w2" "current_tick w3 = current_tick ?w2" "idle_links ?w2 w3"
    using roll_over [OF S2 T2 [symmetric] pos] by blast
  have "tick w = Some (?h, w3)" unfolding tick_def now_bucket_word using get w1(1) w3(1) by (simp add: Let_def)
  moreover have "chain (pool w3) ?h (ls ?c)"
  proof -
    have "map_option timer_next (pool w3 x) = map_option timer_next (pool w1 x)" if "x \<in> set (ls ?c)" for x
      using w3(5) w1(5) that by (simp add: idle_links_def)
    then show ?thesis using w1(4) chain_cong [of "ls ?c" "pool w3" "pool w1"] by simp
  qed
  then have "intrusive_view ?h w3 = Some (ls ?c)" by (rule intrusive_view_chain)
  moreover have "deadlines w3 = (\<lambda>i. if deadlines w i = Some (current_tick w) then None else deadlines w i)"
    using w3(3) w1(5) fired by auto
  ultimately show ?thesis using w3(2,4) T2 detached_nodes(2) [OF S c] fired by auto
qed

lemma tick_spec:
  assumes inv: "wheel_inv w" and nowrap: "unat (current_tick w) + 1 < 2 ^ 64"
  shows "\<exists>h w' xs. tick w = Some (h, w') \<and> wheel_inv w' \<and> unat (current_tick w') = unat (current_tick w) + 1
    \<and> intrusive_view h w' = Some xs \<and> distinct xs \<and> set xs = {i. deadlines w i = Some (current_tick w)}
    \<and> deadlines w' = (\<lambda>i. if deadlines w i = Some (current_tick w) then None else deadlines w i)"
proof -
  have later: "unat (current_tick w) + 1 \<le> unat e" if "deadlines w i = Some e" "e \<noteq> current_tick w" for i e
    using inv that by (fastforce simp: wheel_inv_def word_unat_eq_iff Suc_le_eq order.strict_iff_order)
  obtain h w' xs where t: "tick w = Some (h, w')" "wheel_ok w'" "unat (current_tick w') = unat (current_tick w) + 1"
    "intrusive_view h w' = Some xs" "distinct xs" "set xs = {i. deadlines w i = Some (current_tick w)}"
    "deadlines w' = (\<lambda>i. if deadlines w i = Some (current_tick w) then None else deadlines w i)"
    using tick_ok [OF _ nowrap] inv later by (auto simp: wheel_inv_def fileable_def)
  moreover have "wheel_inv w'" using t(2,3,7) later by (auto simp: wheel_inv_def split: if_splits)
  ultimately show ?thesis by auto
qed

subsection \<open>The wheel as a timer service\<close>

definition tick_list :: "timing_wheel \<Rightarrow> (u32 list \<times> timing_wheel) option" where
  "tick_list w = do { (h, w') \<leftarrow> tick w; xs \<leftarrow> intrusive_view h w'; Some (xs, w') }"

interpretation wheel: timer_service wheel_inv current_tick deadlines tick_list "2 ^ 64" "\<lambda>w i. pool w i \<noteq> None" schedule cancel
proof
  show "\<exists>xs s'. tick_list s = Some (xs, s') \<and> wheel_inv s' \<and> unat (current_tick s') = unat (current_tick s) + 1 \<and> distinct xs
      \<and> set xs = {i. deadlines s i = Some (current_tick s)}
      \<and> deadlines s' = (\<lambda>i. if deadlines s i = Some (current_tick s) then None else deadlines s i)"
    if "wheel_inv s" "unat (current_tick s) + 1 < 2 ^ 64" for s
    using tick_spec [OF that] by (auto simp: tick_list_def)
qed (use schedule_spec cancel_spec in \<open>auto simp: wheel_inv_def\<close>)

text \<open>With overdue timers in it the wheel still keeps its clock: they are the ones it never hands out.\<close>

interpretation late_wheel: clock_service wheel_ok current_tick deadlines tick_list "2 ^ 64 - 2 ^ 26 + 1"
proof
  show "\<exists>xs s'. tick_list s = Some (xs, s') \<and> wheel_ok s' \<and> unat (current_tick s') = unat (current_tick s) + 1 \<and> distinct xs
      \<and> set xs = {i. deadlines s i = Some (current_tick s)}
      \<and> deadlines s' = (\<lambda>i. if deadlines s i = Some (current_tick s) then None else deadlines s i)"
    if "wheel_ok s" "unat (current_tick s) + 1 < 2 ^ 64 - 2 ^ 26 + 1" for s
    using tick_ok [OF that(1)] that(2) by (auto simp: tick_list_def fileable_def)
qed

lemma wheel_new_inv:
  assumes "p END_OF_LIST = None" "\<And>i nd. p i = Some nd \<Longrightarrow> wheel_bucket nd = END_OF_LIST"
  shows "wheel_inv (wheel_new p)" "deadlines (wheel_new p) = (\<lambda>_. None)"
proof -
  have no: "timer_view (wheel_new p) i = Some (b, e) \<Longrightarrow> b = END_OF_LIST" for i b e
    using assms(2) by (auto simp: timer_view_def wheel_new_def)
  then have "wheel_state LVL_COUNT (wheel_new p) (\<lambda>_. []) []"
    using assms(1) unfolding wheel_state_def wheel_lists_def
    by (auto simp: wheel_new_def TOTAL_BUCKETS_def TVR_SIZE_def TVN_SIZE_def LVL_COUNT_def)
  then have "wheel_ok (wheel_new p)" by (auto simp: wheel_ok_def)
  moreover show "deadlines (wheel_new p) = (\<lambda>_. None)" using no by (auto simp: deadlines_def fun_eq_iff split: option.splits)
  ultimately show "wheel_inv (wheel_new p)" by (simp add: wheel_inv_def)
qed

definition nodes16 :: "u32 \<Rightarrow> timing_node option" where
  "nodes16 i = (if i < 16 then Some timing_node_new else None)"

lemma nodes16_inv: "wheel_inv (wheel_new nodes16)" "current_tick (wheel_new nodes16) = 0" "pool (wheel_new nodes16) 3 \<noteq> None"
proof -
  have "nodes16 END_OF_LIST = None" by (simp add: nodes16_def END_OF_LIST_def)
  moreover have "nodes16 i = Some nd \<Longrightarrow> wheel_bucket nd = END_OF_LIST" for i nd
    by (auto simp: nodes16_def timing_node_new_def split: if_splits)
  ultimately show "wheel_inv (wheel_new nodes16)" by (rule wheel_new_inv)
qed (simp_all add: wheel_new_def nodes16_def)

text \<open>An empty wheel only moves its clock.\<close>

lemma empty_cascade:
  assumes "buckets w = replicate 512 END_OF_LIST" "b + i < 512"
  shows "cascade b i w = Some w"
proof -
  have u: "unat (of_nat (b + i) :: u32) = b + i" by (rule unat_bucket [OF assms(2)])
  have "w\<lparr>buckets := (buckets w)[b + i := END_OF_LIST]\<rparr> = w" using assms by (cases w) (simp add: list_update_same_conv)
  then show ?thesis using assms u unfolding cascade_def get_bucket_def set_bucket_def Let_def u by (simp add: reschedule_list.simps)
qed

lemma empty_cascade_levels: "buckets w = replicate 512 END_OF_LIST \<Longrightarrow> 1 \<le> n \<Longrightarrow> n \<le> 4 \<Longrightarrow> cascade_levels n w = Some w"
proof (induction n w rule: cascade_levels.induct)
  case (1 n w)
  let ?i = "unat (drop_bit (level_shift n) (current_tick w) AND 0x3F)"
  have "?i < 64" by (simp only: unat_and_mask)
  then have "TVR_SIZE + (n - 1) * TVN_SIZE + ?i < 512" using "1.prems"(2,3) by (auto simp: TVR_SIZE_def TVN_SIZE_def)
  then have c: "cascade (TVR_SIZE + (n - 1) * TVN_SIZE) ?i w = Some w" by (rule empty_cascade [OF "1.prems"(1)])
  show ?case using "1.IH" [OF refl, of w] c "1.prems" by (auto simp: cascade_levels.simps [of n w] Let_def LVL_COUNT_def)
qed

lemma empty_run: "buckets w = replicate 512 END_OF_LIST \<Longrightarrow> \<exists>fs. run_ticks tick_list n w = Some (fs, w\<lparr>current_tick := current_tick w + of_nat n\<rparr>)"
proof (induction n arbitrary: w)
  case (Suc n)
  have b: "now_bucket w < 512" by (rule less_trans [of _ 256]) simp_all
  then have "tick w = Some (END_OF_LIST, w\<lparr>current_tick := current_tick w + 1\<rparr>)"
    unfolding tick_def now_bucket_word using Suc.prems
    by (simp add: Let_def get_bucket_def unat_bucket empty_cascade_levels)
  then have "tick_list w = Some ([], w\<lparr>current_tick := current_tick w + 1\<rparr>)" by (simp add: tick_list_def intrusive_view.simps)
  then show ?case using Suc.IH [of "w\<lparr>current_tick := current_tick w + 1\<rparr>"] Suc.prems by (auto simp: add.assoc)
qed simp

subsection \<open>Properties\<close>

text \<open>(C13) The hierarchical wheel implements a map of deadlines. None of the operations follows a null
  pointer, indexes out of range or loops; scheduling a timer of the pool, also one that is already
  scheduled, for the current tick or a later one sets its deadline, cancelling removes it, and a tick hands out
  a finite list of exactly the timers due at this tick, whichever level they were filed under, and forgets them.\<close>

theorem wheel_refines_deadlines:
  assumes "wheel_inv w"
  shows "(pool w i \<noteq> None \<longrightarrow> unat (current_tick w) \<le> unat e \<longrightarrow>
      (\<exists>w'. schedule i e w = Some w' \<and> wheel_inv w' \<and> deadlines w' = (deadlines w)(i \<mapsto> e) \<and> current_tick w' = current_tick w))
    \<and> (\<exists>w'. cancel i w = Some w' \<and> wheel_inv w' \<and> deadlines w' = (deadlines w)(i := None) \<and> current_tick w' = current_tick w)
    \<and> (unat (current_tick w) + 1 < 2 ^ 64 \<longrightarrow> (\<exists>h w' xs. tick w = Some (h, w') \<and> wheel_inv w' \<and> current_tick w' = current_tick w + 1
      \<and> intrusive_view h w' = Some xs \<and> distinct xs \<and> set xs = {i. deadlines w i = Some (current_tick w)}
      \<and> deadlines w' = (\<lambda>i. if deadlines w i = Some (current_tick w) then None else deadlines w i)))"
proof (intro conjI impI)
  assume "unat (current_tick w) + 1 < 2 ^ 64"
  then obtain h w' xs where t: "tick w = Some (h, w')" "wheel_inv w'" "unat (current_tick w') = unat (current_tick w) + 1"
    "intrusive_view h w' = Some xs" "distinct xs" "set xs = {i. deadlines w i = Some (current_tick w)}"
    "deadlines w' = (\<lambda>i. if deadlines w i = Some (current_tick w) then None else deadlines w i)"
    using tick_spec [OF assms] by blast
  moreover have "current_tick w' = current_tick w + 1"
    using t(3) \<open>unat (current_tick w) + 1 < 2 ^ 64\<close> unat_inc [of "current_tick w"] by (simp add: word_unat_eq_iff)
  ultimately show "\<exists>h w' xs. tick w = Some (h, w') \<and> wheel_inv w' \<and> current_tick w' = current_tick w + 1
      \<and> intrusive_view h w' = Some xs \<and> distinct xs \<and> set xs = {i. deadlines w i = Some (current_tick w)}
      \<and> deadlines w' = (\<lambda>i. if deadlines w i = Some (current_tick w) then None else deadlines w i)"
    by blast
qed (use schedule_spec [OF assms] cancel_spec [OF assms] in auto)

theorem wheel_refines_deadlines_witness:
  "\<exists>w'. schedule 3 70000 (wheel_new nodes16) = Some w' \<and> deadlines w' 3 = Some 70000"
  using wheel_refines_deadlines [OF nodes16_inv(1), of 3 70000] nodes16_inv(2,3) by auto

text \<open>(C14) A timer fires on time: set at any distance, it is handed out by the tick of its deadline and
  by no other tick.\<close>

theorem wheel_fires_on_time:
  assumes "wheel_inv w" "pool w i \<noteq> None" "unat (current_tick w) \<le> unat e" "unat (current_tick w) + n < 2 ^ 64"
  shows "\<exists>w1 fs w2. schedule i e w = Some w1 \<and> run_ticks tick_list n w1 = Some (fs, w2) \<and> length fs = n
    \<and> (\<forall>k<n. i \<in> set (fs ! k) \<longleftrightarrow> k = unat e - unat (current_tick w))"
  using wheel.fires_on_time [OF assms] .

theorem wheel_fires_on_time_witness:
  "\<exists>w1 fs w2. schedule 3 70000 (wheel_new nodes16) = Some w1 \<and> run_ticks tick_list 80000 w1 = Some (fs, w2) \<and> length fs = 80000
    \<and> (\<forall>k<80000. 3 \<in> set (fs ! k) \<longleftrightarrow> k = 70000)"
  using wheel_fires_on_time [OF nodes16_inv(1,3), of 70000 80000] nodes16_inv(2) by simp

text \<open>(C15) A timer that is already overdue when it is set never fires: the difference wraps around, the
  timer is filed under the coarsest level, and each cascade of that level files it there again. For as
  many ticks as one likes, until the clock comes within \<open>2 ^ 26\<close> ticks of its end, no tick hands the
  timer out, and it stays scheduled.\<close>

theorem wheel_overdue_never_fires:
  assumes "wheel_inv w" "pool w i \<noteq> None" "unat e < unat (current_tick w)" "unat (current_tick w) + n + 2 ^ 26 \<le> 2 ^ 64"
  shows "\<exists>w1 fs w2. schedule i e w = Some w1 \<and> run_ticks tick_list n w1 = Some (fs, w2) \<and> length fs = n
    \<and> (\<forall>k<n. i \<notin> set (fs ! k)) \<and> deadlines w2 i = Some e"
proof -
  obtain w1 where w1: "schedule i e w = Some w1" "wheel_ok w1" "deadlines w1 = (deadlines w)(i \<mapsto> e)" "current_tick w1 = current_tick w"
    using schedule_ok [of w i e] assms by (auto simp: wheel_inv_def fileable_def)
  have "unat (current_tick w1) + n < 2 ^ 64 - 2 ^ 26 + 1" using assms(4) w1(4) by simp
  then obtain fs w2 where r: "run_ticks tick_list n w1 = Some (fs, w2)" "length fs = n"
    "\<forall>k<n. set (fs ! k) = {i. map_option unat (deadlines w1 i) = Some (unat (current_tick w1) + k)}"
    "\<forall>i. (\<forall>k<n. i \<notin> set (fs ! k)) \<longrightarrow> deadlines w2 i = deadlines w1 i"
    using late_wheel.run_ticks_fire [OF w1(2), of n] by auto
  have "\<forall>k<n. i \<notin> set (fs ! k)" using r(3) w1(3,4) assms(3) by auto
  then show ?thesis using w1(1,3) r(1,2,4) by auto
qed

text \<open>Once 300 ticks have passed, a timer set for tick 5 is not handed out by the next million.\<close>

theorem wheel_overdue_never_fires_witness:
  "\<exists>w w1 fs w2. run_ticks tick_list 300 (wheel_new nodes16) = Some w \<and> schedule 3 5 (snd w) = Some w1
    \<and> run_ticks tick_list 1000000 w1 = Some (fs, w2) \<and> length fs = 1000000 \<and> (\<forall>k<1000000. 3 \<notin> set (fs ! k)) \<and> deadlines w2 3 = Some 5"
proof -
  let ?w = "(wheel_new nodes16)\<lparr>current_tick := 300\<rparr>"
  have "buckets (wheel_new nodes16) = replicate 512 END_OF_LIST"
    by (simp add: wheel_new_def TOTAL_BUCKETS_def TVR_SIZE_def TVN_SIZE_def LVL_COUNT_def)
  then obtain fs where r: "run_ticks tick_list 300 (wheel_new nodes16) = Some (fs, ?w)"
    using empty_run [of "wheel_new nodes16" 300] nodes16_inv(2) by auto
  then have "wheel_inv ?w" using wheel.run_ticks_fire [OF nodes16_inv(1), of 300] nodes16_inv(2) by auto
  then show ?thesis using wheel_overdue_never_fires [of ?w 3 5 1000000] r nodes16_inv(3) by auto
qed

end
