(* ===== verification/Range_Mask.thy ===== *)
theory Range_Mask
  imports Prelude
begin

section \<open>Presence masks: sets of byte positions in arrays of 64-bit words\<close>

text \<open>
  The TCP out-of-order matrix and the IP defragmenters keep one bit per byte of a 64 KB window in an
  array of 1024 words, and test, set and clear ranges of it a word at a time. The code that does so
  is written out in each of them; it is translated here once, with the mask array as an argument,
  and shown to be the set operation it stands for. Indices stay below \<open>2 ^ 17\<close>, so that natural
  numbers stand for the \<^verbatim>\<open>uint32_t\<close> of the code.
\<close>

type_synonym mask = "u64 list"

definition mask_bit :: "mask \<Rightarrow> nat \<Rightarrow> bool" where
  "mask_bit m k = bit (m ! (k div 64)) (k mod 64)"

text \<open>The positions a mask holds.\<close>

definition present :: "mask \<Rightarrow> nat set" where
  "present m = {k. k < 64 * length m \<and> mask_bit m k}"

subsection \<open>The word operations of the code\<close>

definition span_mask :: "nat \<Rightarrow> nat \<Rightarrow> u64" where
  "span_mask len start_bit = (if len = 64 then NOT 0 else push_bit start_bit (push_bit len 1 - 1))"

definition head_mask :: "nat \<Rightarrow> u64" where
  "head_mask start_bit = (if start_bit = 0 then NOT 0 else push_bit start_bit (NOT 0))"

definition tail_mask :: "nat \<Rightarrow> u64" where
  "tail_mask end_bit = push_bit end_bit 1 - 1"

definition fill_words :: "u64 \<Rightarrow> nat list \<Rightarrow> mask \<Rightarrow> mask" where
  "fill_words v is m = fold (\<lambda>i m. m[i := v]) is m"

definition range_hits :: "nat \<Rightarrow> nat \<Rightarrow> mask \<Rightarrow> bool" where
  "range_hits off len m =
     (let start_word = off div 64; end_word = (off + len) div 64; start_bit = off mod 64; end_bit = (off + len) mod 64
      in if start_word = end_word then m ! start_word AND span_mask len start_bit \<noteq> 0
         else m ! start_word AND head_mask start_bit \<noteq> 0
           \<or> list_ex (\<lambda>i. m ! i \<noteq> 0) [start_word + 1..<end_word]
           \<or> (0 < end_bit \<and> m ! end_word AND tail_mask end_bit \<noteq> 0))"

definition range_set :: "nat \<Rightarrow> nat \<Rightarrow> mask \<Rightarrow> mask" where
  "range_set off len m =
     (let start_word = off div 64; end_word = (off + len) div 64; start_bit = off mod 64; end_bit = (off + len) mod 64
      in if start_word = end_word then m[start_word := m ! start_word OR span_mask len start_bit]
         else let m1 = m[start_word := m ! start_word OR head_mask start_bit];
                  m2 = fill_words (NOT 0) [start_word + 1..<end_word] m1
              in if 0 < end_bit then m2[end_word := m2 ! end_word OR tail_mask end_bit] else m2)"

definition range_clear :: "nat \<Rightarrow> nat \<Rightarrow> mask \<Rightarrow> mask" where
  "range_clear off len m =
     (let start_word = off div 64; end_word = (off + len) div 64; start_bit = off mod 64; end_bit = (off + len) mod 64
      in if start_word = end_word then m[start_word := m ! start_word AND NOT (span_mask len start_bit)]
         else let m1 = m[start_word := m ! start_word AND (if start_bit = 0 then 0 else NOT (push_bit start_bit (NOT 0)))];
                  m2 = fill_words 0 [start_word + 1..<end_word] m1
              in if 0 < end_bit then m2[end_word := m2 ! end_word AND NOT (tail_mask end_bit)] else m2)"

text \<open>The same on the first \<open>len\<close> positions, as the code does for a segment that leaves the window.\<close>

definition prefix_hits :: "nat \<Rightarrow> mask \<Rightarrow> bool" where
  "prefix_hits len m = (list_ex (\<lambda>i. m ! i \<noteq> 0) [0..<len div 64] \<or> (0 < len mod 64 \<and> m ! (len div 64) AND tail_mask (len mod 64) \<noteq> 0))"

definition prefix_set :: "nat \<Rightarrow> mask \<Rightarrow> mask" where
  "prefix_set len m =
     (let m1 = fill_words (NOT 0) [0..<len div 64] m
      in if 0 < len mod 64 then m1[len div 64 := m1 ! (len div 64) OR tail_mask (len mod 64)] else m1)"

definition prefix_clear :: "nat \<Rightarrow> mask \<Rightarrow> mask" where
  "prefix_clear len m =
     (let m1 = fill_words 0 [0..<len div 64] m
      in if 0 < len mod 64 then m1[len div 64 := m1 ! (len div 64) AND NOT (tail_mask (len mod 64))] else m1)"

text \<open>The shift of a whole mask towards position 0, in words and then in bits.\<close>

fun shift_bits :: "nat \<Rightarrow> mask \<Rightarrow> mask" where
  "shift_bits s [] = []"
| "shift_bits s [x] = [drop_bit s x]"
| "shift_bits s (x # y # ys) = (drop_bit s x OR push_bit (64 - s) y) # shift_bits s (y # ys)"

definition mask_shift :: "nat \<Rightarrow> mask \<Rightarrow> mask" where
  "mask_shift shift m =
     (let words = shift div 64; bits = shift mod 64;
          m1 = (if 0 < words then drop words m @ replicate words 0 else m)
      in if 0 < bits then shift_bits bits m1 else m1)"

subsection \<open>They are the set operations\<close>

lemma mask_bit_split: "j < 64 \<Longrightarrow> mask_bit m (64 * i + j) = bit (m ! i) j"
  by (simp add: mask_bit_def)

lemma present_iff: "k \<in> present m \<longleftrightarrow> k < 64 * length m \<and> bit (m ! (k div 64)) (k mod 64)"
  by (simp add: present_def mask_bit_def)

lemma present_zero [simp]: "present (replicate n 0) = {}"
  by (auto simp: present_iff)

lemma bit_tail_mask: "j < 64 \<Longrightarrow> bit (tail_mask e) j \<longleftrightarrow> j < e"
  by (simp add: tail_mask_def flip: mask_eq_exp_minus_1) (simp add: push_bit_eq_mult bit_mask_iff flip: mask_eq_exp_minus_1)

lemma bit_head_mask: "j < 64 \<Longrightarrow> bit (head_mask s) j \<longleftrightarrow> s \<le> j"
  by (auto simp: head_mask_def bit_push_bit_iff bit_not_iff bit_mask_iff)

lemma bit_span_mask: "j < 64 \<Longrightarrow> s + len < 64 \<Longrightarrow> bit (span_mask len s) j \<longleftrightarrow> s \<le> j \<and> j < s + len"
  using bit_tail_mask [of "j - s" len] by (auto simp: span_mask_def bit_push_bit_iff tail_mask_def)

lemma length_fill_words [simp]: "length (fill_words v is m) = length m"
  by (induction "is" arbitrary: m) (simp_all add: fill_words_def)

lemma nth_fill_words: "k < length m \<Longrightarrow> fill_words v is m ! k = (if k \<in> set is then v else m ! k)"
proof (induction "is" arbitrary: m)
  case (Cons i "is")
  then show ?case by (simp add: fill_words_def nth_list_update)
qed (simp add: fill_words_def)

text \<open>Every position lies in one word; the words of a range.\<close>

lemma range_in_word:
  assumes "k div 64 = i" "j = k mod 64"
  shows "off \<le> k \<and> k < off + len \<longleftrightarrow>
    (if off div 64 = (off + len) div 64 then i = off div 64 \<and> off mod 64 \<le> j \<and> j < off mod 64 + len
     else i = off div 64 \<and> off mod 64 \<le> j \<or> off div 64 < i \<and> i < (off + len) div 64
       \<or> i = (off + len) div 64 \<and> j < (off + len) mod (64 :: nat))"
proof -
  define a b c d where abcd: "a = off div 64" "b = off mod 64" "c = (off + len) div 64" "d = (off + len) mod 64"
  have k: "k = 64 * i + j" "j < 64" using assms mult_div_mod_eq [of 64 k] by simp_all
  have off: "off = 64 * a + b" "b < 64" "off + len = 64 * c + d" "d < 64" by (simp_all add: abcd)
  have "a \<le> c" using off by linarith
  then consider "a = c" | "a < c" by linarith
  then show ?thesis unfolding abcd [symmetric]
  proof cases
    case 1
    then have q: "b + len = d" using off by linarith
    consider "i < a" | "i = a" | "a < i" by linarith
    then show "off \<le> k \<and> k < off + len \<longleftrightarrow> (if a = c then i = a \<and> b \<le> j \<and> j < b + len
       else i = a \<and> b \<le> j \<or> a < i \<and> i < c \<or> i = c \<and> j < d)"
      by cases (use 1 k off q in auto)
  next
    case 2
    consider "i < a" | "i = a" | "a < i" "i < c" | "i = c" | "c < i" using 2 by linarith
    then show "off \<le> k \<and> k < off + len \<longleftrightarrow> (if a = c then i = a \<and> b \<le> j \<and> j < b + len
       else i = a \<and> b \<le> j \<or> a < i \<and> i < c \<or> i = c \<and> j < d)"
      by cases (use 2 k off in auto)
  qed
qed

text \<open>The word a range puts into word \<open>i\<close> of the mask.\<close>

lemma range_words:
  assumes "0 < len" "off + len \<le> 64 * length m"
  shows "off div 64 < length m" "off div 64 \<noteq> (off + len) div 64 \<Longrightarrow> 0 < (off + len) mod 64 \<Longrightarrow> (off + len) div 64 < length m"
    "(off + len) div 64 \<le> length m"
proof -
  have "off < 64 * length m" using assms by linarith
  then show "off div 64 < length m" by (simp add: less_mult_imp_div_less mult.commute)
  show le: "(off + len) div 64 \<le> length m" using div_le_mono [OF assms(2), of 64] by simp
  assume "0 < (off + len) mod 64"
  then have "off + len \<noteq> 64 * length m" by auto
  then show "(off + len) div 64 < length m" using assms(2) by (simp add: less_mult_imp_div_less mult.commute)
qed

lemma range_set_length [simp]: "length (range_set off len m) = length m"
  by (simp add: range_set_def Let_def)

lemma range_clear_length [simp]: "length (range_clear off len m) = length m"
  by (simp add: range_clear_def Let_def)

text \<open>Where a range lies, word by word: in one word, or in a head, whole words and a tail.\<close>

lemma range_one_word: "off div 64 = (off + len) div 64 \<Longrightarrow> off mod 64 + len < (64 :: nat)"
  using mult_div_mod_eq [of 64 off] mult_div_mod_eq [of 64 "off + len"] mod_less_divisor [of 64 "off + len"] by linarith

lemma range_many_words: "off div 64 \<noteq> (off + len) div (64 :: nat) \<Longrightarrow> off div 64 < (off + len) div 64"
  using div_le_mono [of off "off + len" 64] by simp

lemma bit_range_set:
  assumes "0 < len" "off + len \<le> 64 * length m" and k: "k < 64 * length m"
  shows "bit (range_set off len m ! (k div 64)) (k mod 64) \<longleftrightarrow> bit (m ! (k div 64)) (k mod 64) \<or> off \<le> k \<and> k < off + len"
proof -
  note w = range_words [OF assms(1,2)] and r = range_in_word [of k "k div 64" "k mod 64" off len]
  have i: "k div 64 < length m" "k mod 64 < 64" using k by (simp_all add: less_mult_imp_div_less mult.commute)
  show ?thesis
  proof (cases "off div 64 = (off + len) div 64")
    case True
    then show ?thesis using r i w(1) bit_span_mask [OF i(2) range_one_word [OF True]]
      by (auto simp: range_set_def Let_def nth_list_update bit_or_iff)
  next
    case False
    show ?thesis using False r range_many_words [OF False] i w bit_head_mask [OF i(2)] bit_tail_mask [OF i(2)]
      by (auto simp: range_set_def Let_def nth_list_update nth_fill_words bit_or_iff)
  qed
qed

lemma bit_range_clear:
  assumes "0 < len" "off + len \<le> 64 * length m" and k: "k < 64 * length m"
  shows "bit (range_clear off len m ! (k div 64)) (k mod 64) \<longleftrightarrow> bit (m ! (k div 64)) (k mod 64) \<and> \<not> (off \<le> k \<and> k < off + len)"
proof -
  note w = range_words [OF assms(1,2)] and r = range_in_word [of k "k div 64" "k mod 64" off len]
  have i: "k div 64 < length m" "k mod 64 < 64" using k by (simp_all add: less_mult_imp_div_less mult.commute)
  have head: "(if s = 0 then 0 else NOT (push_bit s (NOT 0))) = (NOT (head_mask s) :: u64)" for s :: nat
    by (simp add: head_mask_def)
  show ?thesis
  proof (cases "off div 64 = (off + len) div 64")
    case True
    then show ?thesis using r i w(1) bit_span_mask [OF i(2) range_one_word [OF True]]
      by (auto simp: range_clear_def Let_def nth_list_update bit_and_iff bit_not_iff)
  next
    case False
    show ?thesis using False r range_many_words [OF False] i w bit_head_mask [OF i(2)] bit_tail_mask [OF i(2)]
      unfolding range_clear_def head
      by (auto simp: Let_def nth_list_update nth_fill_words bit_and_iff bit_not_iff)
  qed
qed

lemma present_range_set:
  assumes "0 < len" "off + len \<le> 64 * length m"
  shows "present (range_set off len m) = present m \<union> {off..<off + len}"
  using bit_range_set [OF assms] assms(2) by (auto simp: present_iff)

lemma present_range_clear:
  assumes "0 < len" "off + len \<le> 64 * length m"
  shows "present (range_clear off len m) = present m - {off..<off + len}"
  using bit_range_clear [OF assms] assms(2) by (auto simp: present_iff)

text \<open>A word meets a mask exactly if they share a bit.\<close>

lemma and_nonzero_iff: "(x AND y :: u64) \<noteq> 0 \<longleftrightarrow> (\<exists>j<64. bit x j \<and> bit y j)"
proof -
  have "(x AND y) \<noteq> 0 \<longleftrightarrow> (\<exists>j. bit (x AND y) j)" by (metis bit_0_eq bot_apply bot_bool_def bit_eqI)
  also have "\<dots> \<longleftrightarrow> (\<exists>j<64. bit x j \<and> bit y j)" using bit_imp_le_length [of "x AND y"] by (auto simp: bit_and_iff)
  finally show ?thesis .
qed

lemma nonzero_iff: "(x :: u64) \<noteq> 0 \<longleftrightarrow> (\<exists>j<64. bit x j)"
  using and_nonzero_iff [of x x] by simp

lemma range_hits_iff:
  assumes "0 < len" "off + len \<le> 64 * length m"
  shows "range_hits off len m \<longleftrightarrow> present m \<inter> {off..<off + len} \<noteq> {}"
proof -
  have "present m \<inter> {off..<off + len} \<noteq> {} \<longleftrightarrow> (\<exists>i j. i < length m \<and> j < 64 \<and> bit (m ! i) j \<and> off \<le> 64 * i + j \<and> 64 * i + j < off + len)"
    (is "?l \<longleftrightarrow> ?r")
  proof
    assume ?l
    then obtain k where k: "k < 64 * length m" "bit (m ! (k div 64)) (k mod 64)" "off \<le> k" "k < off + len" by (auto simp: present_iff)
    then have "k div 64 < length m" "64 * (k div 64) + k mod 64 = k" by (simp_all add: less_mult_imp_div_less mult.commute)
    then show ?r using k by (intro exI [of _ "k div 64"] exI [of _ "k mod 64"]) simp
  next
    assume ?r
    then obtain i j where "i < length m" "j < 64" "bit (m ! i) j" "off \<le> 64 * i + j" "64 * i + j < off + len" by blast
    then have "64 * i + j \<in> present m \<inter> {off..<off + len}" by (simp add: present_iff)
    then show ?l by blast
  qed
  also have "\<dots> \<longleftrightarrow> range_hits off len m"
  proof -
    define a b c d where abcd: "a = off div 64" "b = off mod 64" "c = (off + len) div 64" "d = (off + len) mod 64"
    have w: "a < length m" "a \<noteq> c \<Longrightarrow> 0 < d \<Longrightarrow> c < length m" "c \<le> length m" "a \<noteq> c \<Longrightarrow> a < c" "a = c \<Longrightarrow> b + len < 64" "d < 64"
      using range_words [OF assms] range_many_words [of off len] range_one_word [of off len] by (simp_all add: abcd)
    define P where "P i j \<longleftrightarrow> (if a = c then i = a \<and> b \<le> j \<and> j < b + len
       else i = a \<and> b \<le> j \<or> a < i \<and> i < c \<or> i = c \<and> j < d)" for i j
    have "off \<le> 64 * i + j \<and> 64 * i + j < off + len \<longleftrightarrow> P i j" if "j < 64" for i j
      unfolding P_def abcd by (rule range_in_word) (use that in simp_all)
    then have r: "(\<exists>i j. i < length m \<and> j < 64 \<and> bit (m ! i) j \<and> off \<le> 64 * i + j \<and> 64 * i + j < off + len) \<longleftrightarrow>
        (\<exists>i j. i < length m \<and> j < 64 \<and> bit (m ! i) j \<and> P i j)"
      by blast
    have h: "range_hits off len m \<longleftrightarrow> (if a = c then (\<exists>j<64. bit (m ! a) j \<and> bit (span_mask len b) j)
        else (\<exists>j<64. bit (m ! a) j \<and> bit (head_mask b) j) \<or> (\<exists>i. a < i \<and> i < c \<and> (\<exists>j<64. bit (m ! i) j))
          \<or> 0 < d \<and> (\<exists>j<64. bit (m ! c) j \<and> bit (tail_mask d) j))"
      unfolding range_hits_def Let_def abcd [symmetric] nonzero_iff list_ex_iff by (auto simp: Suc_le_eq bit_and_iff)
    show ?thesis
    proof (cases "a = c")
      case True
      then show ?thesis unfolding r h P_def using w(1) bit_span_mask [OF _ w(5)] by auto
    next
      case False
      have 1: "(\<exists>j<64. bit (m ! a) j \<and> bit (head_mask b) j) \<longleftrightarrow> (\<exists>j<64. bit (m ! a) j \<and> b \<le> j)"
        "0 < d \<and> (\<exists>j<64. bit (m ! c) j \<and> bit (tail_mask d) j) \<longleftrightarrow> (\<exists>j<64. bit (m ! c) j \<and> j < d)"
        using bit_head_mask bit_tail_mask by auto
      have 2: "i < length m" if "a < i" "i < c" for i using that w(3) by simp
      show ?thesis unfolding r h P_def 1 using False w(1,2) 2 by (simp only: if_False) (blast intro: gr_implies_not0)
    qed
  qed
  finally show ?thesis by simp
qed

subsection \<open>The first positions\<close>

lemma fill_words_Cons: "0 < e \<Longrightarrow> fill_words v [0..<e] m = fill_words v [0 + 1..<e] (m[0 := v])"
  by (simp add: fill_words_def upt_conv_Cons)

lemma span_from_0: "len < 64 \<Longrightarrow> span_mask len 0 = tail_mask len"
  by (simp add: span_mask_def tail_mask_def)

lemma prefix_set_eq: "prefix_set len m = (if len = 0 then m else range_set 0 len m)"
proof (cases "len div 64 = 0")
  case True
  then show ?thesis by (auto simp: prefix_set_def range_set_def fill_words_def span_from_0)
next
  case False
  then show ?thesis using fill_words_Cons [of "len div 64" "NOT 0" m]
    by (auto simp: prefix_set_def range_set_def Let_def head_mask_def)
qed

lemma prefix_clear_eq: "prefix_clear len m = (if len = 0 then m else range_clear 0 len m)"
proof (cases "len div 64 = 0")
  case True
  then show ?thesis by (auto simp: prefix_clear_def range_clear_def fill_words_def span_from_0)
next
  case False
  then show ?thesis using fill_words_Cons [of "len div 64" 0 m]
    by (auto simp: prefix_clear_def range_clear_def Let_def)
qed

lemma prefix_hits_eq: "prefix_hits len m \<longleftrightarrow> 0 < len \<and> range_hits 0 len m"
proof (cases "len div 64 = 0")
  case True
  then show ?thesis by (auto simp: prefix_hits_def range_hits_def span_from_0)
next
  case False
  then have "[0..<len div 64] = 0 # [0 + 1..<len div 64]" by (simp add: upt_conv_Cons)
  then show ?thesis using False by (auto simp: prefix_hits_def range_hits_def Let_def head_mask_def)
qed

lemma prefix_lengths [simp]: "length (prefix_set len m) = length m" "length (prefix_clear len m) = length m"
  by (simp_all add: prefix_set_eq prefix_clear_eq)

lemma present_prefix_set: "len \<le> 64 * length m \<Longrightarrow> present (prefix_set len m) = present m \<union> {..<len}"
  using present_range_set [of len 0 m] by (cases "len = 0") (simp_all add: prefix_set_eq lessThan_atLeast0)

lemma prefix_hits_iff: "len \<le> 64 * length m \<Longrightarrow> prefix_hits len m \<longleftrightarrow> present m \<inter> {..<len} \<noteq> {}"
  using range_hits_iff [of len 0 m] by (cases "len = 0") (simp_all add: prefix_hits_eq lessThan_atLeast0)

subsection \<open>Shifting\<close>

lemma length_shift_bits [simp]: "length (shift_bits s m) = length m"
  by (induction s m rule: shift_bits.induct) simp_all

lemma nth_shift_bits:
  "i < length m \<Longrightarrow> shift_bits s m ! i = (if i + 1 < length m then drop_bit s (m ! i) OR push_bit (64 - s) (m ! (i + 1)) else drop_bit s (m ! i))"
proof (induction s m arbitrary: i rule: shift_bits.induct)
  case (3 s x y ys)
  then show ?case by (cases i) auto
qed simp_all

lemma bit_shift_bits:
  assumes "i < length m" "0 < s" "s < 64" "j < 64"
  shows "bit (shift_bits s m ! i) j \<longleftrightarrow> (if j + s < 64 then bit (m ! i) (j + s) else i + 1 < length m \<and> bit (m ! (i + 1)) (j + s - 64))"
proof -
  have "bit (m ! i) (j + s) \<Longrightarrow> j + s < 64" using bit_imp_le_length [of "m ! i" "j + s"] by simp
  then show ?thesis using assms by (auto simp: nth_shift_bits bit_or_iff bit_drop_bit_eq bit_push_bit_iff add.commute)
qed

lemma length_mask_shift [simp]: "s \<le> 64 * length m \<Longrightarrow> length (mask_shift s m) = length m"
  using div_le_mono [of s "64 * length m" 64] by (simp add: mask_shift_def Let_def)

lemma word_split: "k = 64 * a + b \<Longrightarrow> b < 64 \<Longrightarrow> k div 64 = a \<and> k mod 64 = (b :: nat)"
  by simp

lemma present_mask_shift:
  assumes "s \<le> 64 * length m"
  shows "present (mask_shift s m) = {k. k + s \<in> present m}"
proof (rule set_eqI)
  fix k :: nat
  define w r where wr: "w = s div 64" "r = s mod 64"
  let ?m1 = "drop w m @ replicate w 0"
  have s: "s = 64 * w + r" "r < 64" and w: "w \<le> length m" using div_le_mono [OF assms, of 64] by (simp_all add: wr)
  have len: "length ?m1 = length m" using w by simp
  have m1: "?m1 ! i = (if i + w < length m then m ! (i + w) else 0)" if "i < length m" for i
    using that w by (auto simp: nth_append add.commute)
  have sh: "mask_shift s m = (if 0 < r then shift_bits r ?m1 else ?m1)" by (simp add: mask_shift_def Let_def wr)
  define i j where ij: "i = k div 64" "j = k mod 64"
  have k: "k = 64 * i + j" "j < 64" by (simp_all add: ij)
  show "k \<in> present (mask_shift s m) \<longleftrightarrow> k \<in> {k. k + s \<in> present m}"
  proof (cases "j + r < 64")
    case True
    then have ks: "(k + s) div 64 = i + w" "(k + s) mod 64 = j + r" using word_split [of "k + s" "i + w" "j + r"] k s by simp_all
    have lt: "k < 64 * length m \<longleftrightarrow> i < length m" "k + s < 64 * length m \<longleftrightarrow> i + w < length m" using k s True by linarith+
    show ?thesis using True ks lt len m1 bit_shift_bits [of i ?m1 r j] s(2) k(2)
      by (auto simp: present_iff sh ij [symmetric] split: if_splits)
  next
    case False
    then have ks: "(k + s) div 64 = i + w + 1" "(k + s) mod 64 = j + r - 64" using word_split [of "k + s" "i + w + 1" "j + r - 64"] k s by simp_all
    have lt: "k < 64 * length m \<longleftrightarrow> i < length m" "k + s < 64 * length m \<longleftrightarrow> i + w + 1 < length m" using k s False by linarith+
    have "0 < r" using False k(2) by simp
    then show ?thesis using False ks lt len m1 [of i] m1 [of "i + 1"] bit_shift_bits [of i ?m1 r j] s(2) k(2)
      by (auto simp: present_iff sh ij [symmetric] split: if_splits)
  qed
qed

subsection \<open>Property\<close>

text \<open>(C20) The word-parallel range operations are the set operations they stand for: the overlap test
  finds exactly the ranges that meet the present bytes, setting and clearing add and remove exactly
  the range, and the shift moves every byte by the same distance, whatever the alignment.\<close>

theorem range_ops_are_set_ops:
  assumes "0 < len" "off + len \<le> 64 * length m" "s \<le> 64 * length m"
  shows "(range_hits off len m \<longleftrightarrow> present m \<inter> {off..<off + len} \<noteq> {})
    \<and> present (range_set off len m) = present m \<union> {off..<off + len}
    \<and> present (range_clear off len m) = present m - {off..<off + len}
    \<and> present (mask_shift s m) = {k. k + s \<in> present m}"
  using range_hits_iff [OF assms(1,2)] present_range_set [OF assms(1,2)] present_range_clear [OF assms(1,2)] present_mask_shift [OF assms(3)] by blast

theorem range_ops_are_set_ops_witness:
  "present (range_set 60 10 [0, 0]) = present [0, 0] \<union> {60..<70} \<and> range_set 60 10 [0, 0] = [0xF000000000000000, 0x3F]"
proof -
  have "present (range_set 60 10 [0, 0]) = present [0, 0] \<union> {60..<60 + 10}"
    using range_ops_are_set_ops [of 10 60 "[0, 0]" 0] by simp
  moreover have "range_set 60 10 [0, 0] = [0xF000000000000000, 0x3F]" by code_simp
  ultimately show ?thesis by simp
qed

end
