(* ===== verification/Bit_Scan.thy ===== *)
theory Bit_Scan
  imports Prelude
begin

section \<open>Walking the set bits of a word\<close>

text \<open>
  \<^verbatim>\<open>__builtin_ctzll\<close> and the loop \<^verbatim>\<open>while (x != 0) { ... ctz(x) ...; x &= x - 1; }\<close> that the slot
  bitmaps of the network engines are walked with. The loop ends, and it visits every set bit once,
  in ascending order.
\<close>

definition ctz :: "u64 \<Rightarrow> nat" where
  "ctz x = length (takeWhile (\<lambda>j. \<not> bit x j) [0..<64])"

definition drop_lowest :: "u64 \<Rightarrow> u64" where
  "drop_lowest x = x AND (x - 1)"

lemma bit_pred_nat: "0 < n \<Longrightarrow> bit (n - 1 :: nat) j \<longleftrightarrow> (bit n j \<longleftrightarrow> (\<exists>i<j. bit n i))"
proof (induction j arbitrary: n)
  case 0
  then show ?case by (simp add: bit_0)
next
  case (Suc j)
  show ?case
  proof (cases "odd n")
    case True
    then have "(n - 1) div 2 = n div 2" by (auto elim: oddE)
    moreover have "\<exists>i<Suc j. bit n i" using True by (intro exI [of _ 0]) (simp add: bit_0)
    ultimately show ?thesis by (simp add: bit_Suc)
  next
    case False
    then have half: "(n - 1) div 2 = n div 2 - 1" "0 < n div 2" using Suc.prems by (auto elim: evenE)
    have "(\<exists>i<Suc j. bit n i) \<longleftrightarrow> (\<exists>i<j. bit (n div 2) i)"
      using False by (auto simp: bit_0 bit_Suc less_Suc_eq_0_disj)
    then show ?thesis using Suc.IH [OF half(2)] half(1) by (simp add: bit_Suc)
  qed
qed

lemma bit_unat: "bit (unat (x :: u64)) j = bit x j"
  by (auto simp: bit_unsigned_iff bit_imp_le_length)

lemma bit_drop_lowest: "bit (drop_lowest x) j \<longleftrightarrow> bit x j \<and> (\<exists>i<j. bit x i)"
proof (cases "x = 0")
  case False
  then have u: "unat (x - 1) = unat x - 1" "0 < unat x" by (simp_all add: unat_minus_one unat_gt_0)
  have "bit (x - 1) j \<longleftrightarrow> (bit x j \<longleftrightarrow> (\<exists>i<j. bit x i))"
    using bit_pred_nat [OF u(2), of j] u(1) by (metis bit_unat)
  then show ?thesis by (auto simp: drop_lowest_def bit_and_iff)
qed (simp add: drop_lowest_def)

text \<open>The set bits of a word.\<close>

definition word_bits :: "u64 \<Rightarrow> nat set" where
  "word_bits x = {j. j < 64 \<and> bit x j}"

lemma bit_in_word_bits: "bit x j \<longleftrightarrow> j \<in> word_bits x"
  using bit_imp_le_length [of x j] by (auto simp: word_bits_def)

lemma finite_word_bits [simp]: "finite (word_bits x)"
  by (simp add: word_bits_def)

lemma word_bits_empty: "word_bits x = {} \<longleftrightarrow> x = 0"
proof
  assume e: "word_bits x = {}"
  show "x = 0" by (rule bit_eqI) (use e in \<open>simp add: bit_in_word_bits\<close>)
qed (simp add: word_bits_def)

lemma word_bits_drop_lowest: "word_bits (drop_lowest x) = word_bits x - {Min (word_bits x)}"
proof (cases "x = 0")
  case False
  then have ne: "word_bits x \<noteq> {}" by (simp add: word_bits_empty)
  have "j \<in> word_bits (drop_lowest x) \<longleftrightarrow> j \<in> word_bits x - {Min (word_bits x)}" for j
  proof -
    have 1: "(\<exists>i<j. i \<in> word_bits x) \<longleftrightarrow> Min (word_bits x) < j" using ne by (simp add: Min_less_iff) blast
    have "j \<in> word_bits (drop_lowest x) \<longleftrightarrow> j \<in> word_bits x \<and> Min (word_bits x) < j"
      using bit_drop_lowest [of x j] unfolding bit_in_word_bits 1 .
    moreover have "j \<in> word_bits x \<Longrightarrow> Min (word_bits x) \<le> j" by simp
    ultimately show ?thesis by (metis Diff_iff singleton_iff nat_less_le)
  qed
  then show ?thesis by blast
qed (simp add: word_bits_def drop_lowest_def)

lemma drop_lowest_card:
  assumes "x \<noteq> 0"
  shows "card (word_bits (drop_lowest x)) < card (word_bits x)"
proof -
  have "Min (word_bits x) \<in> word_bits x" using assms by (intro Min_in) (simp_all add: word_bits_empty)
  then show ?thesis unfolding word_bits_drop_lowest by (intro psubset_card_mono) auto
qed

function scan_bits :: "u64 \<Rightarrow> nat list" where
  "scan_bits x = (if x = 0 then [] else ctz x # scan_bits (drop_lowest x))"
  by pat_completeness auto
termination
  by (relation "measure (\<lambda>x. card (word_bits x))") (simp_all add: drop_lowest_card)

declare scan_bits.simps [simp del]

lemma ctz_Min:
  assumes "x \<noteq> 0"
  shows "ctz x = Min (word_bits x)"
proof -
  let ?m = "Min (word_bits x)"
  have m: "?m \<in> word_bits x" using assms by (intro Min_in) (simp_all add: word_bits_empty)
  then have lt: "?m < 64" "bit x ?m" by (simp_all add: word_bits_def)
  have below: "\<not> bit x j" if "j < ?m" for j using that by (simp add: bit_in_word_bits) (meson Min_le finite_word_bits leD)
  have "[0..<64] = [0..<?m] @ ?m # [Suc ?m..<64]" using lt(1) upt_add_eq_append [of 0 ?m "64 - ?m"] by (simp add: upt_conv_Cons)
  then have "takeWhile (\<lambda>j. \<not> bit x j) [0..<64] = [0..<?m]" using below lt(2) by (simp add: takeWhile_append)
  then show ?thesis by (simp add: ctz_def)
qed

lemma scan_bits_eq: "scan_bits x = sorted_list_of_set (word_bits x)"
proof (induction x rule: scan_bits.induct)
  case (1 x)
  show ?case
  proof (cases "x = 0")
    case True
    then show ?thesis using word_bits_empty [of x] by (simp add: scan_bits.simps)
  next
    case False
    then have ne: "word_bits x \<noteq> {}" by (simp add: word_bits_empty)
    have "sorted_list_of_set (word_bits x) = Min (word_bits x) # sorted_list_of_set (word_bits x - {Min (word_bits x)})"
      using ne by (simp add: sorted_list_of_set_nonempty)
    then show ?thesis using False "1.IH" by (simp add: scan_bits.simps [of x] ctz_Min word_bits_drop_lowest)
  qed
qed

lemma set_scan_bits [simp]: "set (scan_bits x) = word_bits x" and distinct_scan_bits [simp]: "distinct (scan_bits x)"
  by (simp_all add: scan_bits_eq)

text \<open>Setting and clearing one bit, as the code does with \<^verbatim>\<open>1ULL << b\<close>.\<close>

lemma word_bits_set: "b < 64 \<Longrightarrow> word_bits (x OR push_bit b 1) = insert b (word_bits x)"
  by (auto simp: word_bits_def bit_or_iff bit_push_bit_iff bit_1_iff bit_exp_iff)

lemma word_bits_clear: "b < 64 \<Longrightarrow> word_bits (x AND NOT (push_bit b 1)) = word_bits x - {b}"
  by (auto simp: word_bits_def bit_and_iff bit_not_iff bit_push_bit_iff bit_1_iff bit_exp_iff)

lemma word_bits_not: "word_bits (NOT x) = {..<64} - word_bits x"
  by (auto simp: word_bits_def bit_not_iff)

text \<open>The loop over the set bits of a word ends and visits each of them once, in ascending order.\<close>

theorem scan_bits_visits:
  "sorted_wrt (<) (scan_bits x) \<and> set (scan_bits x) = {j. bit x j}"
proof -
  have "{j. bit x j} = word_bits x" by (auto simp: bit_in_word_bits)
  then show ?thesis by (simp add: scan_bits_eq strict_sorted_list_of_set)
qed

end
