(* ===== verification/Ooo_Matrix.thy ===== *)
theory Ooo_Matrix
  imports Range_Mask Bit_Scan
begin

section \<open>Out-of-order reassembly: \<^verbatim>\<open>net/tcp_spatial_ooo_matrix.hpp\<close>\<close>

text \<open>
  The matrix tracks a window of 64 KB above \<open>base_seq\<close>: a presence mask with one bit per byte, up to
  128 slots that hold the packet buffers, and a bitmap of the slots in use. Packet buffers are
  addresses, null being 0; \<open>freed\<close> lists the buffers given to \<^verbatim>\<open>rte_pktmbuf_free\<close>. Sequence numbers
  are 32-bit words and wrap around.
\<close>

subsection \<open>State\<close>

record mbuf_slot =
  slot_seq :: u32
  slot_len :: u32
  slot_mbuf :: u64
  slot_payload_offset :: u16
  slot_flags :: u8

record ooo_matrix =
  presence_mask :: mask
  ooo_slots :: "mbuf_slot list"
  active0 :: u64
  active1 :: u64
  base_seq :: u32
  freed :: "u64 list"

definition WINDOW_SIZE :: nat where "WINDOW_SIZE = 65536"
definition MASK_LONGS :: nat where "MASK_LONGS = 1024"
definition MAX_MBUFS :: nat where "MAX_MBUFS = 128"

definition ooo_new :: ooo_matrix where
  "ooo_new = \<lparr>presence_mask = replicate MASK_LONGS 0,
     ooo_slots = replicate MAX_MBUFS \<lparr>slot_seq = 0, slot_len = 0, slot_mbuf = 0, slot_payload_offset = 0, slot_flags = 0\<rparr>,
     active0 = 0, active1 = 0, base_seq = 0, freed = []\<rparr>"

text \<open>The slots in use, in the order the loops visit them.\<close>

definition active_list :: "ooo_matrix \<Rightarrow> nat list" where
  "active_list M = scan_bits (active0 M) @ map (\<lambda>b. 64 + b) (scan_bits (active1 M))"

subsection \<open>Reset and slide\<close>

fun release_slots :: "nat list \<Rightarrow> ooo_matrix \<Rightarrow> ooo_matrix" where
  "release_slots [] M = M"
| "release_slots (idx # is) M =
     (let sl = ooo_slots M ! idx
      in release_slots is (if slot_mbuf sl \<noteq> 0 then M\<lparr>freed := freed M @ [slot_mbuf sl], ooo_slots := (ooo_slots M)[idx := sl\<lparr>slot_mbuf := 0\<rparr>]\<rparr> else M))"

definition ooo_reset :: "u32 \<Rightarrow> ooo_matrix \<Rightarrow> ooo_matrix" where
  "ooo_reset expected_next_seq M =
     (let M1 = M\<lparr>presence_mask := replicate MASK_LONGS 0\<rparr>
      in (release_slots (active_list M1) M1)\<lparr>active0 := 0, active1 := 0, base_seq := expected_next_seq\<rparr>)"

definition slide_window :: "u32 \<Rightarrow> ooo_matrix \<Rightarrow> ooo_matrix" where
  "slide_window current_rcv_nxt M =
     (if current_rcv_nxt = base_seq M then M
      else if sint (current_rcv_nxt - base_seq M) \<le> 0 then M
      else let shift_bytes = unat (current_rcv_nxt - base_seq M)
           in if shift_bytes \<ge> WINDOW_SIZE then ooo_reset current_rcv_nxt M
              else M\<lparr>presence_mask := mask_shift shift_bytes (presence_mask M), base_seq := current_rcv_nxt\<rparr>)"

subsection \<open>Insertion\<close>

text \<open>The local variables of \<^verbatim>\<open>insert_mbuf\<close> that the trimming loops change.\<close>

record segment =
  sg_offset :: nat
  sg_payload_offset :: u16
  sg_seq :: u32
  sg_safe_len :: nat
  sg_logical_len :: u32
  sg_len :: u32

definition dec_len :: "u32 \<Rightarrow> u32" where
  "dec_len n = (if n > 0 then n - 1 else n)"

function trim_head :: "mask \<Rightarrow> segment \<Rightarrow> segment" where
  "trim_head m g =
     (if sg_safe_len g > 0 \<and> mask_bit m (sg_offset g)
      then trim_head m (g\<lparr>sg_offset := sg_offset g + 1, sg_payload_offset := sg_payload_offset g + 1, sg_seq := sg_seq g + 1,
             sg_safe_len := sg_safe_len g - 1, sg_logical_len := sg_logical_len g - 1, sg_len := dec_len (sg_len g)\<rparr>)
      else g)"
  by pat_completeness auto
termination
  by (relation "measure (\<lambda>(m, g). sg_safe_len g)") auto

function trim_tail :: "mask \<Rightarrow> segment \<Rightarrow> segment" where
  "trim_tail m g =
     (if sg_safe_len g > 0 \<and> mask_bit m (sg_offset g + sg_safe_len g - 1)
      then trim_tail m (g\<lparr>sg_safe_len := sg_safe_len g - 1, sg_logical_len := sg_logical_len g - 1, sg_len := dec_len (sg_len g)\<rparr>)
      else g)"
  by pat_completeness auto
termination
  by (relation "measure (\<lambda>(m, g). sg_safe_len g)") auto

declare trim_head.simps [simp del] trim_tail.simps [simp del]

text \<open>The logical length counts a bare FIN as one byte.\<close>

definition logical_length :: "u32 \<Rightarrow> u8 \<Rightarrow> u32" where
  "logical_length len flags = (if len = 0 \<and> flags AND 1 \<noteq> 0 then 1 else len)"

definition free_slot :: "ooo_matrix \<Rightarrow> (nat \<times> ooo_matrix) option" where
  "free_slot M =
     (if NOT (active0 M) \<noteq> 0
      then let i = ctz (NOT (active0 M)) in Some (i, M\<lparr>active0 := active0 M OR push_bit i 1\<rparr>)
      else if NOT (active1 M) \<noteq> 0
      then let i = 64 + ctz (NOT (active1 M)) in Some (i, M\<lparr>active1 := active1 M OR push_bit (i - 64) 1\<rparr>)
      else None)"

definition mark_segment :: "segment \<Rightarrow> mask \<Rightarrow> mask" where
  "mark_segment g m =
     (let m1 = range_set (sg_offset g) (sg_safe_len g) m; excess = unat (sg_logical_len g)
      in if excess > sg_safe_len g then prefix_set (excess - sg_safe_len g) m1 else m1)"

definition store_segment :: "segment \<Rightarrow> u64 \<Rightarrow> u8 \<Rightarrow> nat \<Rightarrow> ooo_matrix \<Rightarrow> ooo_matrix" where
  "store_segment g mbuf flags idx M =
     (let cut = unat (sg_logical_len g) > sg_safe_len g;
          sl = \<lparr>slot_seq = sg_seq g, slot_len = (if cut then of_nat (sg_safe_len g) else sg_len g), slot_mbuf = mbuf,
                slot_payload_offset = sg_payload_offset g, slot_flags = (if cut then flags AND NOT 1 else flags)\<rparr>
      in M\<lparr>ooo_slots := (ooo_slots M)[idx := sl], presence_mask := mark_segment g (presence_mask M)\<rparr>)"

definition segment_hits :: "segment \<Rightarrow> mask \<Rightarrow> bool" where
  "segment_hits g m = (range_hits (sg_offset g) (sg_safe_len g) m
     \<or> (unat (sg_logical_len g) > sg_safe_len g \<and> prefix_hits (unat (sg_logical_len g) - sg_safe_len g) m))"

definition insert_mbuf :: "u32 \<Rightarrow> u32 \<Rightarrow> u64 \<Rightarrow> u16 \<Rightarrow> u32 \<Rightarrow> u8 \<Rightarrow> ooo_matrix \<Rightarrow> bool \<times> ooo_matrix" where
  "insert_mbuf current_rcv_nxt seq mbuf payload_offset len flags M =
     (let logical_len = logical_length len flags
      in if logical_len = 0 \<or> mbuf = 0 then (False, M)
         else let M1 = (if unat (seq - base_seq M) \<ge> WINDOW_SIZE then slide_window current_rcv_nxt M else M);
                  offset = unat (seq - base_seq M1)
              in if offset \<ge> WINDOW_SIZE then (False, M1)
                 else let g = \<lparr>sg_offset = offset, sg_payload_offset = payload_offset, sg_seq = seq,
                               sg_safe_len = min (unat logical_len) (WINDOW_SIZE - offset), sg_logical_len = logical_len, sg_len = len\<rparr>;
                          g' = trim_tail (presence_mask M1) (trim_head (presence_mask M1) g)
                      in if sg_safe_len g' = 0 then (False, M1)
                         else if segment_hits g' (presence_mask M1) then (False, M1)
                         else case free_slot M1 of
                             None \<Rightarrow> (False, ooo_reset (base_seq M1) M1)
                           | Some (idx, M2) \<Rightarrow> (True, store_segment g' mbuf flags idx M2))"

subsection \<open>Extraction\<close>

text \<open>The buffer with \<^verbatim>\<open>out_len\<close>, \<^verbatim>\<open>out_offset\<close> and \<^verbatim>\<open>out_flags\<close>; \<open>None\<close> is the null pointer.\<close>

type_synonym extracted = "u64 \<times> u32 \<times> u16 \<times> u8"

definition release_active :: "nat \<Rightarrow> ooo_matrix \<Rightarrow> ooo_matrix" where
  "release_active idx M =
     (if idx < 64 then M\<lparr>active0 := active0 M AND NOT (push_bit idx 1)\<rparr>
      else M\<lparr>active1 := active1 M AND NOT (push_bit (idx - 64) 1)\<rparr>)"

definition extract_slot :: "u32 \<Rightarrow> nat \<Rightarrow> nat \<Rightarrow> ooo_matrix \<Rightarrow> extracted \<times> ooo_matrix" where
  "extract_slot current_rcv_nxt offset idx M =
     (let sl = ooo_slots M ! idx;
          M1 = release_active idx (M\<lparr>ooo_slots := (ooo_slots M)[idx := sl\<lparr>slot_mbuf := 0\<rparr>]\<rparr>);
          logical_len = logical_length (slot_len sl) (slot_flags sl);
          safe_len = min (unat logical_len) (WINDOW_SIZE - offset);
          m1 = range_clear offset safe_len (presence_mask M1);
          m2 = (if unat logical_len > safe_len then prefix_clear (unat logical_len - safe_len) m1 else m1);
          M2 = M1\<lparr>presence_mask := m2\<rparr>;
          M3 = (if active0 M2 = 0 \<and> active1 M2 = 0 then M2\<lparr>base_seq := current_rcv_nxt + logical_len\<rparr>
                else if offset + safe_len \<ge> WINDOW_SIZE then slide_window (current_rcv_nxt + logical_len) M2
                else M2)
      in ((slot_mbuf sl, slot_len sl, slot_payload_offset sl, slot_flags sl), M3))"

definition extract_contiguous_mbuf :: "u32 \<Rightarrow> ooo_matrix \<Rightarrow> extracted option \<times> ooo_matrix" where
  "extract_contiguous_mbuf current_rcv_nxt M =
     (let offset = unat (current_rcv_nxt - base_seq M)
      in if offset \<ge> WINDOW_SIZE then (None, M)
         else if \<not> mask_bit (presence_mask M) offset then (None, M)
         else case find (\<lambda>idx. slot_seq (ooo_slots M ! idx) = current_rcv_nxt) (active_list M) of
             None \<Rightarrow> (None, M)
           | Some idx \<Rightarrow> let (r, M') = extract_slot current_rcv_nxt offset idx M in (Some r, M'))"

subsection \<open>The trimming loops\<close>

lemma dec_len_pow: "n \<le> unat k \<Longrightarrow> (dec_len ^^ n) k = k - of_nat n"
proof (induction n)
  case (Suc n)
  have "unat (k - of_nat n) = unat k - n" using Suc.prems by (intro unat_sub_of_nat32) simp
  then have "k - of_nat n > 0" using Suc.prems by (simp add: word_less_nat_alt)
  then show ?case using Suc by (simp add: dec_len_def)
qed simp

lemma trim_head_spec:
  "\<exists>n. n \<le> sg_safe_len g \<and> trim_head m g = g\<lparr>sg_offset := sg_offset g + n, sg_payload_offset := sg_payload_offset g + of_nat n,
     sg_seq := sg_seq g + of_nat n, sg_safe_len := sg_safe_len g - n, sg_logical_len := sg_logical_len g - of_nat n, sg_len := (dec_len ^^ n) (sg_len g)\<rparr>
   \<and> (\<forall>i<n. mask_bit m (sg_offset g + i)) \<and> (n = sg_safe_len g \<or> \<not> mask_bit m (sg_offset g + n))"
proof (induction m g rule: trim_head.induct)
  case (1 m g)
  show ?case
  proof (cases "sg_safe_len g > 0 \<and> mask_bit m (sg_offset g)")
    case True
    let ?g = "g\<lparr>sg_offset := sg_offset g + 1, sg_payload_offset := sg_payload_offset g + 1, sg_seq := sg_seq g + 1,
             sg_safe_len := sg_safe_len g - 1, sg_logical_len := sg_logical_len g - 1, sg_len := dec_len (sg_len g)\<rparr>"
    obtain n where n: "n \<le> sg_safe_len g - 1" "trim_head m ?g = ?g\<lparr>sg_offset := sg_offset ?g + n, sg_payload_offset := sg_payload_offset ?g + of_nat n,
        sg_seq := sg_seq ?g + of_nat n, sg_safe_len := sg_safe_len ?g - n, sg_logical_len := sg_logical_len ?g - of_nat n, sg_len := (dec_len ^^ n) (sg_len ?g)\<rparr>"
      "\<forall>i<n. mask_bit m (sg_offset g + 1 + i)" "n = sg_safe_len g - 1 \<or> \<not> mask_bit m (sg_offset g + 1 + n)"
      using "1.IH" [OF True] by auto
    have "\<forall>i<Suc n. mask_bit m (sg_offset g + i)" using n(3) True by (auto simp: less_Suc_eq_0_disj)
    moreover have "trim_head m g = trim_head m ?g" using True by (simp add: trim_head.simps [of m g])
    ultimately show ?thesis using n True
      by (intro exI [of _ "Suc n"]) (auto simp: algebra_simps funpow_Suc_right simp del: funpow.simps)
  next
    case False
    then show ?thesis by (intro exI [of _ 0]) (auto simp: trim_head.simps [of m g])
  qed
qed

lemma trim_tail_spec:
  "\<exists>n. n \<le> sg_safe_len g \<and> trim_tail m g = g\<lparr>sg_safe_len := sg_safe_len g - n, sg_logical_len := sg_logical_len g - of_nat n, sg_len := (dec_len ^^ n) (sg_len g)\<rparr>
   \<and> (\<forall>i. sg_safe_len g - n \<le> i \<longrightarrow> i < sg_safe_len g \<longrightarrow> mask_bit m (sg_offset g + i))"
proof (induction m g rule: trim_tail.induct)
  case (1 m g)
  show ?case
  proof (cases "sg_safe_len g > 0 \<and> mask_bit m (sg_offset g + sg_safe_len g - 1)")
    case True
    let ?g = "g\<lparr>sg_safe_len := sg_safe_len g - 1, sg_logical_len := sg_logical_len g - 1, sg_len := dec_len (sg_len g)\<rparr>"
    obtain n where n: "n \<le> sg_safe_len g - 1" "trim_tail m ?g = ?g\<lparr>sg_safe_len := sg_safe_len ?g - n,
        sg_logical_len := sg_logical_len ?g - of_nat n, sg_len := (dec_len ^^ n) (sg_len ?g)\<rparr>"
      "\<And>i. sg_safe_len g - 1 - n \<le> i \<Longrightarrow> i < sg_safe_len g - 1 \<Longrightarrow> mask_bit m (sg_offset g + i)"
      using "1.IH" [OF True] by auto
    have "mask_bit m (sg_offset g + i)" if "sg_safe_len g - Suc n \<le> i" "i < sg_safe_len g" for i
    proof (cases "i = sg_safe_len g - 1")
      case True
      then have "sg_offset g + i = sg_offset g + sg_safe_len g - 1" using that by simp
      then show ?thesis using \<open>sg_safe_len g > 0 \<and> _\<close> by simp
    next
      case False
      then show ?thesis using n(3) [of i] that by simp
    qed
    moreover have "trim_tail m g = trim_tail m ?g" using True by (simp add: trim_tail.simps [of m g])
    ultimately show ?thesis using n True
      by (intro exI [of _ "Suc n"]) (auto simp: algebra_simps funpow_Suc_right simp del: funpow.simps)
  next
    case False
    then show ?thesis by (intro exI [of _ 0]) (auto simp: trim_tail.simps [of m g])
  qed
qed

subsection \<open>The invariant\<close>

text \<open>The bytes of the window a slot covers.\<close>

definition slot_start :: "ooo_matrix \<Rightarrow> nat \<Rightarrow> nat" where
  "slot_start M i = unat (slot_seq (ooo_slots M ! i) - base_seq M)"

definition slot_ext :: "ooo_matrix \<Rightarrow> nat \<Rightarrow> nat" where
  "slot_ext M i = unat (logical_length (slot_len (ooo_slots M ! i)) (slot_flags (ooo_slots M ! i)))"

definition extent :: "ooo_matrix \<Rightarrow> nat \<Rightarrow> nat set" where
  "extent M i = {slot_start M i..<slot_start M i + slot_ext M i}"

definition active :: "ooo_matrix \<Rightarrow> nat set" where
  "active M = set (active_list M)"

text \<open>The slots in use hold buffers for pairwise disjoint, nonempty ranges of the window, and the
  presence mask holds exactly the bytes of these ranges.\<close>

definition ooo_inv :: "ooo_matrix \<Rightarrow> bool" where
  "ooo_inv M \<longleftrightarrow> length (presence_mask M) = MASK_LONGS \<and> length (ooo_slots M) = MAX_MBUFS
     \<and> (\<forall>i\<in>active M. slot_mbuf (ooo_slots M ! i) \<noteq> 0 \<and> 0 < slot_ext M i \<and> slot_start M i + slot_ext M i \<le> WINDOW_SIZE)
     \<and> (\<forall>i\<in>active M. \<forall>j\<in>active M. i \<noteq> j \<longrightarrow> extent M i \<inter> extent M j = {})
     \<and> present (presence_mask M) = (\<Union>i\<in>active M. extent M i)"

lemma ooo_invD:
  assumes "ooo_inv M"
  shows "length (presence_mask M) = 1024" "length (ooo_slots M) = 128"
    "i \<in> active M \<Longrightarrow> slot_mbuf (ooo_slots M ! i) \<noteq> 0" "i \<in> active M \<Longrightarrow> 0 < slot_ext M i"
    "i \<in> active M \<Longrightarrow> slot_start M i + slot_ext M i \<le> 65536"
    "i \<in> active M \<Longrightarrow> j \<in> active M \<Longrightarrow> i \<noteq> j \<Longrightarrow> extent M i \<inter> extent M j = {}"
    "present (presence_mask M) = (\<Union>i\<in>active M. extent M i)"
  using assms by (auto simp: ooo_inv_def MASK_LONGS_def MAX_MBUFS_def WINDOW_SIZE_def)

lemma active_iff: "i \<in> active M \<longleftrightarrow> (if i < 64 then i \<in> word_bits (active0 M) else i < 128 \<and> i - 64 \<in> word_bits (active1 M))"
proof -
  have "b < 64" if "b \<in> word_bits x" for b x using that by (simp add: word_bits_def)
  then show ?thesis by (force simp: active_def active_list_def image_iff)
qed

lemma active_lt: "i \<in> active M \<Longrightarrow> i < 128"
  by (auto simp: active_iff split: if_splits)

lemma active_cong [simp]:
  "active (M\<lparr>presence_mask := m\<rparr>) = active M" "active (M\<lparr>ooo_slots := sl\<rparr>) = active M" "active (M\<lparr>base_seq := b\<rparr>) = active M"
  "active (M\<lparr>freed := f\<rparr>) = active M" "active (M\<lparr>active0 := 0, active1 := 0\<rparr>) = {}"
  by (simp_all add: set_eq_iff active_iff word_bits_def)

lemma free_slot_spec:
  assumes "free_slot M = Some (idx, M')"
  shows "idx < 128" "idx \<notin> active M" "active M' = insert idx (active M)" "presence_mask M' = presence_mask M"
    "ooo_slots M' = ooo_slots M" "base_seq M' = base_seq M"
proof -
  have min: "Min (word_bits x) \<in> word_bits x" if "x \<noteq> 0" for x using that by (intro Min_in) (simp_all add: word_bits_empty)
  have lt: "b < 64" if "b \<in> word_bits x" for b x using that by (simp add: word_bits_def)
  have "idx < 128 \<and> idx \<notin> active M \<and> active M' = insert idx (active M) \<and> presence_mask M' = presence_mask M
    \<and> ooo_slots M' = ooo_slots M \<and> base_seq M' = base_seq M"
  proof (cases "NOT (active0 M) = 0")
    case False
    then have i: "idx = Min (word_bits (NOT (active0 M)))" "M' = M\<lparr>active0 := active0 M OR push_bit idx 1\<rparr>"
      using assms by (auto simp: free_slot_def Let_def ctz_Min simp del: push_bit_of_1)
    then have b: "idx \<in> {..<64} - word_bits (active0 M)" using min [OF False] by (simp add: word_bits_not)
    then have "word_bits (active0 M') = insert idx (word_bits (active0 M))" unfolding i(2) by (simp add: word_bits_set del: push_bit_of_1)
    then show ?thesis using b i(2) by (auto simp: active_iff simp del: push_bit_of_1 split: if_splits)
  next
    case True
    then have ne: "NOT (active1 M) \<noteq> 0" using assms by (auto simp: free_slot_def)
    then have i: "idx = 64 + Min (word_bits (NOT (active1 M)))" "M' = M\<lparr>active1 := active1 M OR push_bit (idx - 64) 1\<rparr>"
      using assms True by (auto simp: free_slot_def Let_def ctz_Min simp del: push_bit_of_1)
    then have b: "idx - 64 \<in> {..<64} - word_bits (active1 M)" "64 \<le> idx" using min [OF ne] by (simp_all add: word_bits_not)
    then have "word_bits (active1 M') = insert (idx - 64) (word_bits (active1 M))" unfolding i(2) by (simp add: word_bits_set del: push_bit_of_1)
    then show ?thesis using b i(2) by (auto simp: active_iff simp del: push_bit_of_1 split: if_splits)
  qed
  then show "idx < 128" "idx \<notin> active M" "active M' = insert idx (active M)" "presence_mask M' = presence_mask M"
    "ooo_slots M' = ooo_slots M" "base_seq M' = base_seq M"
    by auto
qed

lemma full_word_bits: "NOT x = 0 \<Longrightarrow> word_bits x = {..<64}"
proof -
  assume "NOT x = 0"
  then have "{..<64} - word_bits x = {}" using word_bits_empty [of "NOT x"] unfolding word_bits_not by simp
  moreover have "word_bits x \<subseteq> {..<64}" by (auto simp: word_bits_def)
  ultimately show ?thesis by blast
qed

lemma free_slot_None: "free_slot M = None \<Longrightarrow> active M = {..<128}"
proof -
  assume "free_slot M = None"
  then have z: "NOT (active0 M) = 0" "NOT (active1 M) = 0" by (auto simp: free_slot_def Let_def split: if_splits)
  have "word_bits (active0 M) = {..<64}" "word_bits (active1 M) = {..<64}" by (rule full_word_bits [OF z(1)], rule full_word_bits [OF z(2)])
  then have "i \<in> active M \<longleftrightarrow> i < 128" for i unfolding active_iff by (cases "i < 64") (simp, simp, linarith)
  then show ?thesis by blast
qed

subsection \<open>Storing a segment\<close>

lemma store_segment_inv:
  assumes inv: "ooo_inv M" and fs: "free_slot M = Some (idx, M1)"
    and g: "unat (sg_seq g - base_seq M) = sg_offset g" "unat (sg_logical_len g) = sg_safe_len g" "0 < sg_safe_len g"
      "sg_offset g + sg_safe_len g \<le> 65536" "logical_length (sg_len g) flags = sg_logical_len g"
    and free: "present (presence_mask M) \<inter> {sg_offset g..<sg_offset g + sg_safe_len g} = {}" and mbuf: "mbuf \<noteq> 0"
    and M': "M' = store_segment g mbuf flags idx M1"
  shows "ooo_inv M'" "active M' = insert idx (active M)" "extent M' idx = {sg_offset g..<sg_offset g + sg_safe_len g}"
    "present (presence_mask M') = present (presence_mask M) \<union> extent M' idx" "base_seq M' = base_seq M"
    "ooo_slots M' ! idx = \<lparr>slot_seq = sg_seq g, slot_len = sg_len g, slot_mbuf = mbuf, slot_payload_offset = sg_payload_offset g, slot_flags = flags\<rparr>"
    "\<And>i. i \<in> active M \<Longrightarrow> ooo_slots M' ! i = ooo_slots M ! i \<and> extent M' i = extent M i"
proof -
  note f = free_slot_spec [OF fs] and d = ooo_invD [OF inv]
  have pm: "presence_mask M' = range_set (sg_offset g) (sg_safe_len g) (presence_mask M)"
    using g(2) f(4) by (simp add: M' store_segment_def mark_segment_def Let_def)
  show sl: "ooo_slots M' ! idx = \<lparr>slot_seq = sg_seq g, slot_len = sg_len g, slot_mbuf = mbuf, slot_payload_offset = sg_payload_offset g, slot_flags = flags\<rparr>"
    using g(2) f(1,5) d(2) by (simp add: M' store_segment_def Let_def)
  show bs: "base_seq M' = base_seq M" using f(6) by (simp add: M' store_segment_def Let_def)
  have st: "slot_start M' idx = sg_offset g" "slot_ext M' idx = sg_safe_len g"
    using g(1,2,5) by (simp_all add: slot_start_def slot_ext_def sl bs)
  then show ex: "extent M' idx = {sg_offset g..<sg_offset g + sg_safe_len g}" by (simp add: extent_def)
  show ac: "active M' = insert idx (active M)" using f(3) by (simp add: M' store_segment_def Let_def)
  have old: "ooo_slots M' ! i = ooo_slots M ! i" if "i \<in> active M" for i
  proof -
    have "idx \<noteq> i" using that f(2) by auto
    then show ?thesis using f(5) by (simp add: M' store_segment_def Let_def)
  qed
  then have olds: "slot_start M' i = slot_start M i" "slot_ext M' i = slot_ext M i" "extent M' i = extent M i" if "i \<in> active M" for i
    using that bs by (simp_all add: slot_start_def slot_ext_def extent_def)
  show "ooo_slots M' ! i = ooo_slots M ! i \<and> extent M' i = extent M i" if "i \<in> active M" for i using old olds that by simp
  show pr: "present (presence_mask M') = present (presence_mask M) \<union> extent M' idx"
    unfolding pm ex by (rule present_range_set) (use g(3,4) d(1) in simp_all)
  have len: "length (presence_mask M') = 1024" "length (ooo_slots M') = 128"
    using pm d(1,2) f(5) by (simp_all add: M' store_segment_def Let_def)
  have disj: "extent M i \<inter> extent M' idx = {}" if "i \<in> active M" for i using free d(7) that unfolding ex by blast
  show "ooo_inv M'"
    unfolding ooo_inv_def MASK_LONGS_def MAX_MBUFS_def WINDOW_SIZE_def
  proof (intro conjI ballI impI)
    fix i assume i: "i \<in> active M'"
    show "slot_mbuf (ooo_slots M' ! i) \<noteq> 0" "0 < slot_ext M' i" "slot_start M' i + slot_ext M' i \<le> 65536"
      using i ac st old olds d(3,4,5) g(3,4) mbuf sl by auto
    fix j assume "j \<in> active M'" "i \<noteq> j"
    then show "extent M' i \<inter> extent M' j = {}" using i ac olds(3) disj [of i] disj [of j] d(6) [of i j] f(2) by (auto simp: Int_commute)
  next
    show "present (presence_mask M') = (\<Union>i\<in>active M'. extent M' i)" unfolding pr ac using d(7) olds by auto
  qed (use len in auto)
qed

text \<open>What trimming leaves of a segment that fits the window.\<close>

lemma trimmed_segment:
  assumes fit: "offset + unat logical_len \<le> 65536" and logical: "logical_len = logical_length len flags"
    and g: "g = \<lparr>sg_offset = offset, sg_payload_offset = po, sg_seq = seq, sg_safe_len = unat logical_len, sg_logical_len = logical_len, sg_len = len\<rparr>"
    and g': "g' = trim_tail m (trim_head m g)" and ne: "sg_safe_len g' \<noteq> 0"
  shows "\<exists>n. sg_offset g' = offset + n \<and> sg_payload_offset g' = po + of_nat n \<and> sg_seq g' = seq + of_nat n
    \<and> n + sg_safe_len g' \<le> unat logical_len \<and> unat (sg_logical_len g') = sg_safe_len g' \<and> logical_length (sg_len g') flags = sg_logical_len g'
    \<and> sg_len g' = (dec_len ^^ (unat logical_len - sg_safe_len g')) len
    \<and> (\<forall>k\<in>{offset..<offset + unat logical_len}. k \<in> {offset + n..<offset + n + sg_safe_len g'} \<or> mask_bit m k)"
proof -
  obtain a where a: "a \<le> unat logical_len" "trim_head m g = g\<lparr>sg_offset := offset + a, sg_payload_offset := po + of_nat a,
     sg_seq := seq + of_nat a, sg_safe_len := unat logical_len - a, sg_logical_len := logical_len - of_nat a, sg_len := (dec_len ^^ a) len\<rparr>"
    "\<forall>i<a. mask_bit m (offset + i)"
    using trim_head_spec [of g m] by (auto simp: g)
  let ?h = "trim_head m g"
  obtain b where b: "b \<le> unat logical_len - a" "g' = ?h\<lparr>sg_safe_len := unat logical_len - a - b,
     sg_logical_len := logical_len - of_nat a - of_nat b, sg_len := (dec_len ^^ b) ((dec_len ^^ a) len)\<rparr>"
    "\<And>i. unat logical_len - a - b \<le> i \<Longrightarrow> i < unat logical_len - a \<Longrightarrow> mask_bit m (offset + a + i)"
    using trim_tail_spec [of ?h m] by (auto simp: g' a(2))
  have ab: "a + b < unat logical_len" using ne b(1,2) a(1) by simp
  have lg1: "sg_logical_len g' = logical_len - of_nat (a + b)" unfolding b(2) by (simp add: algebra_simps)
  have "unat (sg_logical_len g') = unat logical_len - (a + b)" unfolding lg1 using ab by (intro unat_sub_of_nat32) simp
  then have lg: "sg_logical_len g' = logical_len - of_nat (a + b)" "unat (sg_logical_len g') = sg_safe_len g'" using lg1 b(2) by simp_all
  have "(dec_len ^^ b) ((dec_len ^^ a) len) = (dec_len ^^ (a + b)) len" by (metis add.commute comp_apply funpow_add)
  then have len': "sg_len g' = (dec_len ^^ (a + b)) len" using b(2) by simp
  have "logical_length (sg_len g') flags = sg_logical_len g'"
  proof (cases "len = 0")
    case True
    then have "a + b = 0" using ab logical by (auto simp: logical_length_def split: if_splits)
    then show ?thesis using len' lg(1) logical by simp
  next
    case False
    then have "logical_len = len" using logical by (simp add: logical_length_def)
    then have "sg_len g' = sg_logical_len g'" using len' lg(1) dec_len_pow [of "a + b" len] ab by simp
    moreover have "sg_logical_len g' \<noteq> 0" using lg(2) ne by auto
    ultimately show ?thesis by (simp add: logical_length_def)
  qed
  moreover have "k \<in> {offset + a..<offset + a + sg_safe_len g'} \<or> mask_bit m k" if "k \<in> {offset..<offset + unat logical_len}" for k
  proof -
    consider "k < offset + a" | "offset + a \<le> k" "k < offset + a + sg_safe_len g'" | "offset + a + sg_safe_len g' \<le> k" by linarith
    then show ?thesis
    proof cases
      case 1
      then show ?thesis using a(3) [rule_format, of "k - offset"] that by auto
    next
      case 3
      then show ?thesis using b(3) [of "k - offset - a"] that b(2) a(1) by auto
    qed simp
  qed
  moreover have "unat logical_len - sg_safe_len g' = a + b" using b(2) ab by simp
  then have "sg_len g' = (dec_len ^^ (unat logical_len - sg_safe_len g')) len" using len' by simp
  ultimately show ?thesis using b(2) a(1,2) ab lg(2) by (intro exI [of _ a] conjI) (simp_all add: g)
qed

subsection \<open>Reset and slide\<close>

lemma release_slots_keeps:
  "length (ooo_slots (release_slots is M)) = length (ooo_slots M)" "presence_mask (release_slots is M) = presence_mask M"
  "base_seq (release_slots is M) = base_seq M" "active0 (release_slots is M) = active0 M" "active1 (release_slots is M) = active1 M"
  by (induction "is" M rule: release_slots.induct) (simp_all add: Let_def)

lemma release_slots_freed:
  "distinct is \<Longrightarrow> set is \<subseteq> {..<length (ooo_slots M)} \<Longrightarrow>
   freed (release_slots is M) = freed M @ filter (\<lambda>b. b \<noteq> 0) (map (\<lambda>i. slot_mbuf (ooo_slots M ! i)) is)"
proof (induction "is" M rule: release_slots.induct)
  case (2 idx "is" M)
  let ?sl = "ooo_slots M ! idx"
  let ?M = "if slot_mbuf ?sl \<noteq> 0 then M\<lparr>freed := freed M @ [slot_mbuf ?sl], ooo_slots := (ooo_slots M)[idx := ?sl\<lparr>slot_mbuf := 0\<rparr>]\<rparr> else M"
  have eq: "map (\<lambda>i. slot_mbuf (ooo_slots ?M ! i)) is = map (\<lambda>i. slot_mbuf (ooo_slots M ! i)) is"
    using "2.prems" by (auto simp: nth_list_update)
  have "freed (release_slots (idx # is) M) = freed (release_slots is ?M)" by (simp add: Let_def)
  also have "\<dots> = freed ?M @ filter (\<lambda>b. b \<noteq> 0) (map (\<lambda>i. slot_mbuf (ooo_slots M ! i)) is)"
    unfolding eq [symmetric] by (rule "2.IH" [OF refl]) (use "2.prems" in auto)
  also have "\<dots> = freed M @ filter (\<lambda>b. b \<noteq> 0) (map (\<lambda>i. slot_mbuf (ooo_slots M ! i)) (idx # is))" by simp
  finally show ?case .
qed simp

lemma active_list_distinct: "distinct (active_list M)"
proof -
  have "x < 64" if "x \<in> word_bits w" for x w using that by (simp add: word_bits_def)
  then show ?thesis by (fastforce simp: active_list_def distinct_map inj_on_def)
qed

lemma ooo_reset_spec:
  assumes "ooo_inv M"
  shows "ooo_inv (ooo_reset s M)" "active (ooo_reset s M) = {}" "present (presence_mask (ooo_reset s M)) = {}" "base_seq (ooo_reset s M) = s"
    "freed (ooo_reset s M) = freed M @ map (\<lambda>i. slot_mbuf (ooo_slots M ! i)) (active_list M)"
proof -
  let ?M1 = "M\<lparr>presence_mask := replicate MASK_LONGS 0\<rparr>"
  note d = ooo_invD [OF assms]
  have al: "active_list ?M1 = active_list M" by (simp add: active_list_def)
  show ac: "active (ooo_reset s M) = {}" by (simp add: ooo_reset_def Let_def)
  show pr: "present (presence_mask (ooo_reset s M)) = {}" by (simp add: ooo_reset_def Let_def release_slots_keeps)
  show "base_seq (ooo_reset s M) = s" by (simp add: ooo_reset_def Let_def)
  have "length (presence_mask (ooo_reset s M)) = 1024" "length (ooo_slots (ooo_reset s M)) = 128"
    using d(2) by (simp_all add: ooo_reset_def Let_def release_slots_keeps MASK_LONGS_def)
  then show "ooo_inv (ooo_reset s M)" using ac pr by (simp add: ooo_inv_def MASK_LONGS_def MAX_MBUFS_def)
  have "set (active_list M) \<subseteq> {..<128}" using active_lt [of _ M] by (auto simp: active_def)
  then have "freed (ooo_reset s M) = freed M @ filter (\<lambda>b. b \<noteq> 0) (map (\<lambda>i. slot_mbuf (ooo_slots M ! i)) (active_list M))"
    using release_slots_freed [of "active_list M" ?M1] d(2) active_list_distinct [of M] by (simp add: ooo_reset_def Let_def al)
  moreover have "filter (\<lambda>b. b \<noteq> 0) (map (\<lambda>i. slot_mbuf (ooo_slots M ! i)) (active_list M)) = map (\<lambda>i. slot_mbuf (ooo_slots M ! i)) (active_list M)"
    using d(3) by (intro filter_True) (auto simp: active_def)
  ultimately show "freed (ooo_reset s M) = freed M @ map (\<lambda>i. slot_mbuf (ooo_slots M ! i)) (active_list M)" by simp
qed

lemma slide_spec:
  assumes inv: "ooo_inv M" and pos: "0 < sint (r - base_seq M)" and small: "unat (r - base_seq M) < 65536"
    and ahead: "\<And>i. i \<in> active M \<Longrightarrow> unat (r - base_seq M) \<le> slot_start M i"
  shows "ooo_inv (slide_window r M)" "active (slide_window r M) = active M" "ooo_slots (slide_window r M) = ooo_slots M"
    "base_seq (slide_window r M) = r" "i \<in> active M \<Longrightarrow> slot_start (slide_window r M) i = slot_start M i - unat (r - base_seq M)"
proof -
  let ?s = "unat (r - base_seq M)"
  note d = ooo_invD [OF inv]
  have M': "slide_window r M = M\<lparr>presence_mask := mask_shift ?s (presence_mask M), base_seq := r\<rparr>"
    using pos small by (auto simp: slide_window_def Let_def WINDOW_SIZE_def)
  show ac: "active (slide_window r M) = active M" and sl: "ooo_slots (slide_window r M) = ooo_slots M" and bs: "base_seq (slide_window r M) = r"
    by (simp_all add: M')
  have st: "slot_start (slide_window r M) i = slot_start M i - ?s" if "i \<in> active M" for i
  proof -
    let ?q = "slot_seq (ooo_slots M ! i)"
    have "?q - r = (?q - base_seq M) - (r - base_seq M)" by simp
    moreover have "unat ((?q - base_seq M) - (r - base_seq M)) = unat (?q - base_seq M) - ?s"
      by (rule unat_sub) (use ahead [OF that] in \<open>simp add: slot_start_def word_le_nat_alt\<close>)
    ultimately have "unat (?q - r) = unat (?q - base_seq M) - ?s" by simp
    then show ?thesis by (simp add: slot_start_def sl bs)
  qed
  then show "i \<in> active M \<Longrightarrow> slot_start (slide_window r M) i = slot_start M i - ?s" .
  have ext: "slot_ext (slide_window r M) i = slot_ext M i" for i by (simp add: slot_ext_def sl)
  have ex: "extent (slide_window r M) i = {k. k + ?s \<in> extent M i}" if "i \<in> active M" for i
    using st [OF that] ahead [OF that] by (auto simp: extent_def ext)
  have "present (presence_mask (slide_window r M)) = {k. k + ?s \<in> present (presence_mask M)}"
    using present_mask_shift [of ?s "presence_mask M"] d(1) small by (simp add: M')
  also have "\<dots> = (\<Union>i\<in>active M. {k. k + ?s \<in> extent M i})" using d(7) by auto
  also have "\<dots> = (\<Union>i\<in>active M. extent (slide_window r M) i)" using ex by simp
  finally have pr: "present (presence_mask (slide_window r M)) = (\<Union>i\<in>active M. extent (slide_window r M) i)" .
  have "length (presence_mask (slide_window r M)) = 1024" using d(1) small by (simp add: M')
  moreover have "extent (slide_window r M) i \<inter> extent (slide_window r M) j = {}" if "i \<in> active M" "j \<in> active M" "i \<noteq> j" for i j
    using d(6) [OF that] ex [OF that(1)] ex [OF that(2)] by auto
  moreover have "slot_start (slide_window r M) i + slot_ext (slide_window r M) i \<le> 65536" if "i \<in> active M" for i
    using st [OF that] d(5) [OF that] ext by simp
  ultimately show "ooo_inv (slide_window r M)"
    using d(2,3,4) pr ext by (auto simp: ooo_inv_def ac sl MASK_LONGS_def MAX_MBUFS_def WINDOW_SIZE_def)
qed

subsection \<open>Insertion and extraction\<close>

text \<open>Slot \<open>idx\<close> takes the part of the segment that starts \<open>n\<close> bytes into it and has \<open>e\<close> bytes.\<close>

definition took_slot :: "ooo_matrix \<Rightarrow> nat \<Rightarrow> nat \<Rightarrow> nat \<Rightarrow> u32 \<Rightarrow> u64 \<Rightarrow> u16 \<Rightarrow> u32 \<Rightarrow> u8 \<Rightarrow> bool" where
  "took_slot M idx n e seq mbuf po len flags \<longleftrightarrow> (let sl = ooo_slots M ! idx in slot_seq sl = seq + of_nat n \<and> slot_mbuf sl = mbuf
     \<and> slot_payload_offset sl = po + of_nat n \<and> slot_flags sl = flags \<and> unat (logical_length (slot_len sl) flags) = e
     \<and> slot_len sl = (dec_len ^^ (unat (logical_length len flags) - e)) len)"

text \<open>The segment as \<^verbatim>\<open>insert_mbuf\<close> cuts it when it fits the window.\<close>

definition cut_segment :: "mask \<Rightarrow> nat \<Rightarrow> u16 \<Rightarrow> u32 \<Rightarrow> u32 \<Rightarrow> u8 \<Rightarrow> segment" where
  "cut_segment m off po seq len flags = (let ll = logical_length len flags
     in trim_tail m (trim_head m \<lparr>sg_offset = off, sg_payload_offset = po, sg_seq = seq, sg_safe_len = unat ll, sg_logical_len = ll, sg_len = len\<rparr>))"

lemma insert_run:
  assumes "mbuf \<noteq> 0" "L = unat (logical_length len flags)" "0 < L" "off = unat (seq - base_seq M)" "off + L \<le> 65536"
    and g: "g = cut_segment (presence_mask M) off po seq len flags"
  shows "insert_mbuf r seq mbuf po len flags M = (if sg_safe_len g = 0 then (False, M) else if segment_hits g (presence_mask M) then (False, M)
      else case free_slot M of None \<Rightarrow> (False, ooo_reset (base_seq M) M) | Some (idx, M2) \<Rightarrow> (True, store_segment g mbuf flags idx M2))"
proof -
  have min: "min (unat (logical_length len flags)) (65536 - unat (seq - base_seq M)) = unat (logical_length len flags)" using assms by simp
  have win: "\<not> 65536 \<le> unat (seq - base_seq M)" "logical_length len flags \<noteq> 0" using assms(2-5) by auto
  show ?thesis unfolding insert_mbuf_def Let_def WINDOW_SIZE_def g cut_segment_def assms(4)
    using assms(1) by (simp only: win min if_False) simp
qed

lemma cut_nothing_left:
  assumes "sg_safe_len (cut_segment m off po seq len flags) = 0" "0 < unat (logical_length len flags)"
  shows "mask_bit m off"
proof (rule ccontr)
  let ?L = "unat (logical_length len flags)"
  let ?g = "\<lparr>sg_offset = off, sg_payload_offset = po, sg_seq = seq, sg_safe_len = ?L, sg_logical_len = logical_length len flags, sg_len = len\<rparr>"
  assume no: "\<not> mask_bit m off"
  then have h: "trim_head m ?g = ?g" by (simp add: trim_head.simps [of m ?g])
  obtain n where n: "n \<le> ?L" "sg_safe_len (trim_tail m ?g) = ?L - n" "\<And>i. ?L - n \<le> i \<Longrightarrow> i < ?L \<Longrightarrow> mask_bit m (off + i)"
    using trim_tail_spec [of ?g m] by auto
  have "?L - n = 0" using assms(1) n(2) h by (simp add: cut_segment_def Let_def)
  then show False using n(3) [of 0] no assms(2) by simp
qed

lemma insert_in_window:
  assumes inv: "ooo_inv M" and args: "mbuf \<noteq> 0" "L = unat (logical_length len flags)" "0 < L" "off = unat (seq - base_seq M)" "off + L \<le> 65536"
    and res: "insert_mbuf r seq mbuf po len flags M = (True, M')"
  shows "\<exists>idx n e. ooo_inv M' \<and> idx \<notin> active M \<and> active M' = insert idx (active M) \<and> took_slot M' idx n e seq mbuf po len flags
      \<and> 0 < e \<and> n + e \<le> L \<and> extent M' idx = {off + n..<off + n + e} \<and> extent M' idx \<inter> present (presence_mask M) = {}
      \<and> present (presence_mask M') = present (presence_mask M) \<union> {off..<off + L} \<and> base_seq M' = base_seq M
      \<and> (\<forall>i\<in>active M. ooo_slots M' ! i = ooo_slots M ! i)"
proof -
  note d = ooo_invD [OF inv]
  let ?m = "presence_mask M"
  define g where g: "g = cut_segment ?m off po seq len flags"
  note run = insert_run [OF args g, of r]
  obtain idx M2 where ok: "sg_safe_len g \<noteq> 0" "\<not> segment_hits g ?m" "free_slot M = Some (idx, M2)" "M' = store_segment g mbuf flags idx M2"
    using res unfolding run by (auto split: if_splits option.splits)
  obtain n where n: "sg_offset g = off + n" "sg_payload_offset g = po + of_nat n" "sg_seq g = seq + of_nat n" "n + sg_safe_len g \<le> L"
    "unat (sg_logical_len g) = sg_safe_len g" "logical_length (sg_len g) flags = sg_logical_len g"
    "sg_len g = (dec_len ^^ (L - sg_safe_len g)) len"
    "\<And>k. k \<in> {off..<off + L} \<Longrightarrow> k \<in> {off + n..<off + n + sg_safe_len g} \<or> mask_bit ?m k"
    using trimmed_segment [OF args(5) [unfolded args(2)] refl refl, of g] ok(1) args(2) unfolding g cut_segment_def Let_def by blast
  have "sg_seq g - base_seq M = (seq - base_seq M) + of_nat n" by (simp add: n(3))
  moreover have "unat ((seq - base_seq M) + of_nat n) = off + n" using unat_add_of_nat32 [of "seq - base_seq M" n] args(4,5) n(4) by simp
  ultimately have seq': "unat (sg_seq g - base_seq M) = sg_offset g" using n(1) by metis
  have fit: "sg_offset g + sg_safe_len g \<le> 65536" using n(1,4) args(5) by linarith
  have free: "present ?m \<inter> {sg_offset g..<sg_offset g + sg_safe_len g} = {}"
    using ok(1,2) range_hits_iff [of "sg_safe_len g" "sg_offset g" ?m] fit d(1) by (auto simp: segment_hits_def)
  have pos: "0 < sg_safe_len g" using ok(1) by simp
  note st = store_segment_inv [OF inv ok(3) seq' n(5) pos fit n(6) free args(1) ok(4)]
  have "k \<in> present ?m" if "mask_bit ?m k" "k < 65536" for k using that d(1) by (simp add: present_def)
  then have "present ?m \<union> {off + n..<off + n + sg_safe_len g} = present ?m \<union> {off..<off + L}" using n(4,8) args(5) by fastforce
  then have pr: "present (presence_mask M') = present ?m \<union> {off..<off + L}" using st(3,4) n(1) by simp
  have tk: "took_slot M' idx n (sg_safe_len g) seq mbuf po len flags" using st(6) n(2,3,5,6,7) args(2) by (simp add: took_slot_def)
  have ex: "extent M' idx = {off + n..<off + n + sg_safe_len g}" using st(3) n(1) by simp
  have dj: "extent M' idx \<inter> present ?m = {}" using free st(3) by (simp add: Int_commute)
  have old: "\<forall>i\<in>active M. ooo_slots M' ! i = ooo_slots M ! i" using st(7) by simp
  show ?thesis using st(1) free_slot_spec(2) [OF ok(3)] st(2) tk pos n(4) ex dj pr st(5) old
    by (intro exI [of _ idx] exI [of _ n] exI [of _ "sg_safe_len g"]) (intro conjI)
qed

lemma insert_refused:
  assumes inv: "ooo_inv M" and args: "mbuf \<noteq> 0" "L = unat (logical_length len flags)" "0 < L" "off = unat (seq - base_seq M)" "off + L \<le> 65536"
    and res: "insert_mbuf r seq mbuf po len flags M = (False, M')"
  shows "M' = M \<and> present (presence_mask M) \<inter> {off..<off + L} \<noteq> {} \<or> active M = {..<128} \<and> M' = ooo_reset (base_seq M) M"
proof -
  note d = ooo_invD [OF inv]
  let ?m = "presence_mask M"
  define g where g: "g = cut_segment ?m off po seq len flags"
  note run = insert_run [OF args g, of r]
  show ?thesis
  proof (cases "sg_safe_len g = 0")
    case True
    then have "mask_bit ?m off" using cut_nothing_left args(2,3) g by metis
    then have "off \<in> present ?m \<inter> {off..<off + L}" using d(1) args(3,5) by (simp add: present_def)
    moreover have "M' = M" using res run True by simp
    ultimately show ?thesis by blast
  next
    case nonempty: False
    show ?thesis
    proof (cases "segment_hits g ?m")
      case True
      obtain n where n: "sg_offset g = off + n" "n + sg_safe_len g \<le> L" "unat (sg_logical_len g) = sg_safe_len g"
        using trimmed_segment [OF args(5) [unfolded args(2)] refl refl, of g] nonempty args(2) unfolding g cut_segment_def Let_def by blast
      then have "range_hits (off + n) (sg_safe_len g) ?m" using True by (simp add: segment_hits_def)
      then have "present ?m \<inter> {off + n..<off + n + sg_safe_len g} \<noteq> {}"
        using range_hits_iff [of "sg_safe_len g" "off + n" ?m] n(2) args(5) nonempty d(1) by simp
      moreover have "{off + n..<off + n + sg_safe_len g} \<subseteq> {off..<off + L}" using n(2) by auto
      moreover have "M' = M" using res run nonempty True by simp
      ultimately show ?thesis by blast
    next
      case False
      then have "(case free_slot M of None \<Rightarrow> (False, ooo_reset (base_seq M) M) | Some (idx, M2) \<Rightarrow> (True, store_segment g mbuf flags idx M2)) = (False, M')"
        using res run nonempty by simp
      then have "free_slot M = None" "M' = ooo_reset (base_seq M) M" by (simp_all split: option.splits prod.splits)
      then show ?thesis using free_slot_None by simp
    qed
  qed
qed

lemma release_active_spec:
  assumes "idx < 128"
  shows "active (release_active idx M) = active M - {idx}" "presence_mask (release_active idx M) = presence_mask M"
    "ooo_slots (release_active idx M) = ooo_slots M" "base_seq (release_active idx M) = base_seq M"
proof -
  have "i \<in> active (release_active idx M) \<longleftrightarrow> i \<in> active M - {idx}" for i
  proof (cases "idx < 64")
    case True
    then show ?thesis by (cases "i < 64") (simp_all add: active_iff release_active_def word_bits_clear del: push_bit_of_1)
  next
    case False
    then have "idx - 64 < 64" using assms by simp
    then show ?thesis using False by (cases "i < 64") (auto simp: active_iff release_active_def word_bits_clear simp del: push_bit_of_1)
  qed
  then show "active (release_active idx M) = active M - {idx}" by blast
qed (simp_all add: release_active_def)

lemma no_active_iff: "active0 M = 0 \<and> active1 M = 0 \<longleftrightarrow> active M = {}"
proof
  assume e: "active M = {}"
  have "b \<notin> word_bits (active0 M)" for b using e active_iff [of b M] by (auto simp: word_bits_def)
  then have "word_bits (active0 M) = {}" by blast
  moreover have "b \<notin> word_bits (active1 M)" for b using e active_iff [of "64 + b" M] by (auto simp: word_bits_def)
  then have "word_bits (active1 M) = {}" by blast
  ultimately show "active0 M = 0 \<and> active1 M = 0" by (simp add: word_bits_empty)
qed (auto simp: active_iff word_bits_def set_eq_iff)

text \<open>The matrix after a slot is emptied, before its base may move.\<close>

definition vacated :: "nat \<Rightarrow> ooo_matrix \<Rightarrow> ooo_matrix" where
  "vacated idx M = (release_active idx (M\<lparr>ooo_slots := (ooo_slots M)[idx := (ooo_slots M ! idx)\<lparr>slot_mbuf := 0\<rparr>]\<rparr>))
     \<lparr>presence_mask := range_clear (slot_start M idx) (slot_ext M idx) (presence_mask M)\<rparr>"

lemma vacated_spec:
  assumes inv: "ooo_inv M" and i: "idx \<in> active M"
  shows "ooo_inv (vacated idx M)" "active (vacated idx M) = active M - {idx}" "base_seq (vacated idx M) = base_seq M"
    "present (presence_mask (vacated idx M)) = present (presence_mask M) - extent M idx"
    "\<And>j. j \<in> active M - {idx} \<Longrightarrow> ooo_slots (vacated idx M) ! j = ooo_slots M ! j"
proof -
  note d = ooo_invD [OF inv] and r = release_active_spec [OF active_lt [OF i]]
  show ac: "active (vacated idx M) = active M - {idx}" and bs: "base_seq (vacated idx M) = base_seq M"
    by (simp_all add: vacated_def r)
  show pr: "present (presence_mask (vacated idx M)) = present (presence_mask M) - extent M idx"
    using present_range_clear [of "slot_ext M idx" "slot_start M idx" "presence_mask M"] d(1,4,5) i
    by (simp add: vacated_def extent_def)
  show sl: "ooo_slots (vacated idx M) ! j = ooo_slots M ! j" if "j \<in> active M - {idx}" for j
    using that by (simp add: vacated_def r)
  have same: "slot_start (vacated idx M) j = slot_start M j" "slot_ext (vacated idx M) j = slot_ext M j" "extent (vacated idx M) j = extent M j"
    if "j \<in> active M - {idx}" for j
    using sl [OF that] bs by (simp_all add: slot_start_def slot_ext_def extent_def)
  have "present (presence_mask (vacated idx M)) = (\<Union>j\<in>active (vacated idx M). extent (vacated idx M) j)"
    unfolding pr ac using d(7) d(6) [OF i] i same(3) by fastforce
  moreover have "length (presence_mask (vacated idx M)) = 1024" "length (ooo_slots (vacated idx M)) = 128"
    using d(1,2) by (simp_all add: vacated_def r)
  ultimately show "ooo_inv (vacated idx M)"
    using d(3,4,5,6) sl same ac by (auto simp: ooo_inv_def MASK_LONGS_def MAX_MBUFS_def WINDOW_SIZE_def)
qed

lemma extract_slot_run:
  assumes inv: "ooo_inv M" and i: "idx \<in> active M" and r: "slot_seq (ooo_slots M ! idx) = r"
    and ll: "ll = logical_length (slot_len (ooo_slots M ! idx)) (slot_flags (ooo_slots M ! idx))"
  shows "extract_slot r (unat (r - base_seq M)) idx M =
    ((slot_mbuf (ooo_slots M ! idx), slot_len (ooo_slots M ! idx), slot_payload_offset (ooo_slots M ! idx), slot_flags (ooo_slots M ! idx)),
     if active M = {idx} then (vacated idx M)\<lparr>base_seq := r + ll\<rparr>
     else if slot_start M idx + slot_ext M idx = 65536 then ooo_reset (r + ll) (vacated idx M) else vacated idx M)"
proof -
  note d = ooo_invD [OF inv]
  have st: "unat (r - base_seq M) = slot_start M idx" and le: "unat ll = slot_ext M idx" using r ll by (simp_all add: slot_start_def slot_ext_def)
  have fit: "slot_start M idx + slot_ext M idx \<le> 65536" and pos: "0 < slot_ext M idx" using d(4,5) [OF i] by auto
  have none: "active0 (vacated idx M) = 0 \<and> active1 (vacated idx M) = 0 \<longleftrightarrow> active M = {idx}"
    unfolding no_active_iff vacated_spec(2) [OF inv i] using i by blast
  have slide: "slide_window (r + ll) (vacated idx M) = ooo_reset (r + ll) (vacated idx M)" if "slot_start M idx + slot_ext M idx = 65536"
  proof -
    have eq: "r + ll - base_seq M = (r - base_seq M) + of_nat (slot_ext M idx)" by (simp flip: le)
    have u: "unat (r + ll - base_seq M) = 65536" unfolding eq using unat_add_of_nat32 [of "r - base_seq M" "slot_ext M idx"] st that by simp
    then have "r + ll - base_seq M = of_nat 65536" by (metis of_nat_unat ucast_id unat_of_nat_u32 word_unat_eq_iff)
    then have "sint (r + ll - base_seq M) = 65536" by simp
    then show ?thesis using u vacated_spec(3) [OF inv i] by (auto simp: slide_window_def Let_def WINDOW_SIZE_def)
  qed
  have min: "min (unat ll) (65536 - slot_start M idx) = slot_ext M idx" using fit le by simp
  show ?thesis
    unfolding extract_slot_def Let_def WINDOW_SIZE_def ll [symmetric] st min le
    using none slide fit vacated_spec(3) [OF inv i] release_active_spec(2) [OF active_lt [OF i]]
    by (simp add: vacated_def)
qed

lemma starts_present:
  assumes inv: "ooo_inv M" and i: "idx \<in> active M"
  shows "mask_bit (presence_mask M) (slot_start M idx)" "slot_start M idx < 65536"
proof -
  note d = ooo_invD [OF inv]
  have "slot_start M idx \<in> extent M idx" using d(4) [OF i] by (simp add: extent_def)
  then have "slot_start M idx \<in> present (presence_mask M)" using d(7) i by blast
  then show "mask_bit (presence_mask M) (slot_start M idx)" by (simp add: present_def)
  show "slot_start M idx < 65536" using d(4,5) [OF i] by linarith
qed

lemma same_start:
  assumes inv: "ooo_inv M" and "i \<in> active M" "j \<in> active M" "slot_seq (ooo_slots M ! i) = slot_seq (ooo_slots M ! j)"
  shows "i = j"
proof (rule ccontr)
  assume "i \<noteq> j"
  then have "extent M i \<inter> extent M j = {}" by (rule ooo_invD(6) [OF inv assms(2,3)])
  moreover have "slot_start M i = slot_start M j" using assms(4) by (simp add: slot_start_def)
  ultimately show False using ooo_invD(4) [OF inv assms(2)] ooo_invD(4) [OF inv assms(3)] by (auto simp: extent_def)
qed

lemma extract_run:
  assumes inv: "ooo_inv M" and i: "idx \<in> active M" and r: "slot_seq (ooo_slots M ! idx) = r"
  shows "extract_contiguous_mbuf r M = (let (x, M') = extract_slot r (unat (r - base_seq M)) idx M in (Some x, M'))"
proof -
  have "unat (r - base_seq M) = slot_start M idx" using r by (simp add: slot_start_def)
  moreover have "find (\<lambda>i. slot_seq (ooo_slots M ! i) = r) (active_list M) = Some idx"
  proof (cases "find (\<lambda>i. slot_seq (ooo_slots M ! i) = r) (active_list M)")
    case None
    then show ?thesis using i r by (auto simp: find_None_iff active_def)
  next
    case (Some j)
    then have "j \<in> active M" "slot_seq (ooo_slots M ! j) = r" by (auto simp: find_Some_iff active_def)
    then show ?thesis using Some same_start [OF inv i, of j] r by simp
  qed
  ultimately show ?thesis using starts_present [OF inv i] by (simp add: extract_contiguous_mbuf_def Let_def WINDOW_SIZE_def)
qed

text \<open>A segment that overlaps nothing is stored whole.\<close>

lemma insert_fresh:
  assumes inv: "ooo_inv M" and args: "mbuf \<noteq> 0" "L = unat (logical_length len flags)" "0 < L" "off = unat (seq - base_seq M)" "off + L \<le> 65536"
    and new: "present (presence_mask M) \<inter> {off..<off + L} = {}" and room: "active M \<noteq> {..<128}"
  shows "\<exists>M1 idx. insert_mbuf r seq mbuf po len flags M = (True, M1) \<and> ooo_inv M1 \<and> idx \<in> active M1 \<and> extent M1 idx = {off..<off + L}
    \<and> ooo_slots M1 ! idx = \<lparr>slot_seq = seq, slot_len = len, slot_mbuf = mbuf, slot_payload_offset = po, slot_flags = flags\<rparr>
    \<and> present (presence_mask M1) = present (presence_mask M) \<union> {off..<off + L}"
proof -
  obtain ok M1 where r: "insert_mbuf r seq mbuf po len flags M = (ok, M1)" by fastforce
  have ok: "ok" using insert_refused [OF inv args, where r = r and po = po and M' = M1] r new room by (cases ok) auto
  then obtain idx n e where s: "ooo_inv M1" "idx \<notin> active M" "active M1 = insert idx (active M)" "took_slot M1 idx n e seq mbuf po len flags"
    "0 < e" "n + e \<le> L" "extent M1 idx = {off + n..<off + n + e}"
    "present (presence_mask M1) = present (presence_mask M) \<union> {off..<off + L}" "base_seq M1 = base_seq M"
    "\<And>i. i \<in> active M \<Longrightarrow> ooo_slots M1 ! i = ooo_slots M ! i"
    using insert_in_window [OF inv args, where r = r and po = po and M' = M1] r by auto
  have "extent M1 i = extent M i" if "i \<in> active M" for i using s(9,10) that by (simp add: extent_def slot_start_def slot_ext_def)
  then have "present (presence_mask M1) = extent M1 idx \<union> present (presence_mask M)"
    using ooo_invD(7) [OF s(1)] ooo_invD(7) [OF inv] s(3) by simp
  then have cover: "{off..<off + L} \<subseteq> {off + n..<off + n + e}" using s(7,8) new by blast
  then have "off \<in> {off + n..<off + n + e}" "off + L - 1 \<in> {off + n..<off + n + e}" using args(3) by (auto simp: subset_iff)
  then have ne: "n = 0" "e = L" using s(6) by auto
  then have "ooo_slots M1 ! idx = \<lparr>slot_seq = seq, slot_len = len, slot_mbuf = mbuf, slot_payload_offset = po, slot_flags = flags\<rparr>"
    using s(4) args(2) by (cases "ooo_slots M1 ! idx") (simp add: took_slot_def Let_def)
  then show ?thesis using r ok s(1,3,7,8) ne by auto
qed

lemma insert_duplicate:
  assumes "unat (seq - base_seq M) + unat (logical_length len flags) \<le> 65536" "mbuf \<noteq> 0" "0 < unat (logical_length len flags)"
    and all: "{unat (seq - base_seq M)..<unat (seq - base_seq M) + unat (logical_length len flags)} \<subseteq> present (presence_mask M)"
  shows "insert_mbuf r seq mbuf po len flags M = (False, M)"
proof -
  let ?off = "unat (seq - base_seq M)" and ?L = "unat (logical_length len flags)" and ?m = "presence_mask M"
  let ?g = "\<lparr>sg_offset = ?off, sg_payload_offset = po, sg_seq = seq, sg_safe_len = ?L, sg_logical_len = logical_length len flags, sg_len = len\<rparr>"
  have bits: "mask_bit ?m k" if "?off \<le> k" "k < ?off + ?L" for k using all that by (auto simp: present_def)
  obtain n where n: "n \<le> ?L" "sg_safe_len (trim_head ?m ?g) = ?L - n" "n = ?L \<or> \<not> mask_bit ?m (?off + n)"
    using trim_head_spec [of ?g ?m] by auto
  then have "sg_safe_len (trim_head ?m ?g) = 0" using bits [of "?off + n"] by (cases "n = ?L") auto
  then have "sg_safe_len (cut_segment ?m ?off po seq len flags) = 0" by (simp add: cut_segment_def Let_def trim_tail.simps [of ?m "trim_head ?m ?g"])
  then show ?thesis using insert_run [OF assms(2) refl assms(3) refl assms(1) refl, where po = po and r = r] by simp
qed

lemma no_trim:
  assumes "\<And>k. k < 65536 \<Longrightarrow> \<not> mask_bit m k" "sg_offset g + sg_safe_len g \<le> 65536"
  shows "trim_tail m (trim_head m g) = g"
proof (cases "sg_safe_len g = 0")
  case False
  then have "\<not> mask_bit m (sg_offset g)" "\<not> mask_bit m (sg_offset g + sg_safe_len g - 1)" using assms by auto
  then show ?thesis by (simp add: trim_head.simps [of m g] trim_tail.simps [of m g])
qed (simp add: trim_head.simps [of m g] trim_tail.simps [of m g])

lemma insert_then_extract:
  assumes inv: "ooo_inv M" and args: "mbuf \<noteq> 0" "L = unat (logical_length len flags)" "0 < L" "off = unat (seq - base_seq M)" "off + L \<le> 65536"
    and new: "present (presence_mask M) \<inter> {off..<off + L} = {}" and room: "active M \<noteq> {..<128}"
  shows "\<exists>M1 M2. insert_mbuf r seq mbuf po len flags M = (True, M1) \<and> ooo_inv M1
    \<and> extract_contiguous_mbuf seq M1 = (Some (mbuf, len, po, flags), M2)
    \<and> (off + L \<noteq> 65536 \<longrightarrow> present (presence_mask M2) = present (presence_mask M))"
proof -
  obtain M1 idx where s: "insert_mbuf r seq mbuf po len flags M = (True, M1)" "ooo_inv M1" "idx \<in> active M1" "extent M1 idx = {off..<off + L}"
    "ooo_slots M1 ! idx = \<lparr>slot_seq = seq, slot_len = len, slot_mbuf = mbuf, slot_payload_offset = po, slot_flags = flags\<rparr>"
    "present (presence_mask M1) = present (presence_mask M) \<union> {off..<off + L}"
    using insert_fresh [OF assms, where r = r and po = po] by blast
  have sq: "slot_seq (ooo_slots M1 ! idx) = seq" by (simp add: s(5))
  have ext: "slot_start M1 idx + slot_ext M1 idx = off + L"
    using s(4) args(3) ooo_invD(4) [OF s(2,3)] unfolding extent_def by (simp add: atLeastLessThan_eq_iff)
  let ?V = "vacated idx M1"
  have "present (presence_mask ?V) = present (presence_mask M)" using vacated_spec(4) [OF s(2,3)] s(4,6) new by auto
  then have "\<exists>M2. extract_contiguous_mbuf seq M1 = (Some (mbuf, len, po, flags), M2)
      \<and> (off + L \<noteq> 65536 \<longrightarrow> present (presence_mask M2) = present (presence_mask M))"
    unfolding extract_run [OF s(2,3) sq] extract_slot_run [OF s(2,3) sq refl] using ext by (simp add: s(5))
  then show ?thesis using s(1,2) by blast
qed

lemma new_not_full: "{} \<noteq> {..<128 :: nat}"
  by (metis empty_iff lessThan_iff zero_less_numeral)

text \<open>A segment that leaves the window, put into an empty matrix.\<close>

lemma insert_truncated:
  assumes inv: "ooo_inv M" and none: "active M = {}" and args: "mbuf \<noteq> 0" "len \<noteq> 0" "off = unat (seq - base_seq M)" "off < 65536"
      "65536 < off + unat len" "unat len \<le> 65536"
  shows "\<exists>M'. insert_mbuf r seq mbuf po len flags M = (True, M') \<and> base_seq M' = base_seq M
    \<and> (\<exists>idx. active M' = {idx} \<and> extent M' idx = {off..<65536}) \<and> present (presence_mask M') = {off..<65536} \<union> {..<off + unat len - 65536}"
proof -
  note d = ooo_invD [OF inv]
  let ?m = "presence_mask M"
  have e: "present ?m = {}" using d(7) none by simp
  then have nobit: "\<not> mask_bit ?m k" if "k < 65536" for k using that d(1) by (auto simp: present_def)
  let ?g = "\<lparr>sg_offset = off, sg_payload_offset = po, sg_seq = seq, sg_safe_len = 65536 - off, sg_logical_len = len, sg_len = len\<rparr>"
  have ll: "logical_length len flags = len" using args(2) by (simp add: logical_length_def)
  have trim: "trim_tail ?m (trim_head ?m ?g) = ?g" using no_trim [of ?m ?g] nobit args(4) by simp
  have hit: "\<not> segment_hits ?g ?m"
    using range_hits_iff [of "65536 - off" off ?m] prefix_hits_iff [of "unat len - (65536 - off)" ?m] e args(4,5,6) d(1) by (simp add: segment_hits_def)
  have "free_slot M \<noteq> None" using free_slot_None [of M] none new_not_full by metis
  then obtain idx M2 where fs: "free_slot M = Some (idx, M2)" by auto
  note f = free_slot_spec [OF fs]
  have cut: "65536 - off < unat len" using args(4,5) by linarith
  let ?M' = "store_segment ?g mbuf flags idx M2"
  have "insert_mbuf r seq mbuf po len flags M = (True, ?M')"
  proof -
    have min: "min (unat len) (65536 - off) = 65536 - off" using args(5) by simp
    show ?thesis unfolding insert_mbuf_def Let_def WINDOW_SIZE_def ll
      using args(1,2,4) hit fs by (simp add: min trim flip: args(3))
  qed
  moreover have pr: "present (presence_mask ?M') = {off..<65536} \<union> {..<off + unat len - 65536}"
  proof -
    have pm: "presence_mask ?M' = prefix_set (unat len - (65536 - off)) (range_set off (65536 - off) ?m)"
      using cut f(4) by (simp add: store_segment_def mark_segment_def Let_def)
    have "present (range_set off (65536 - off) ?m) = {off..<65536}" using present_range_set [of "65536 - off" off ?m] e args(4) d(1) by simp
    moreover have "unat len - (65536 - off) = off + unat len - 65536" using args(4) by simp
    ultimately show ?thesis unfolding pm using present_prefix_set [of "unat len - (65536 - off)" "range_set off (65536 - off) ?m"] args(4,6) d(1) by simp
  qed
  moreover have "active ?M' = {idx}" "base_seq ?M' = base_seq M" using f(3,6) none by (simp_all add: store_segment_def Let_def)
  moreover have "extent ?M' idx = {off..<65536}"
  proof -
    have sl: "ooo_slots ?M' ! idx = \<lparr>slot_seq = seq, slot_len = of_nat (65536 - off), slot_mbuf = mbuf, slot_payload_offset = po, slot_flags = flags AND NOT 1\<rparr>"
      using cut f(1,5) d(2) by (simp add: store_segment_def Let_def)
    have u: "unat (of_nat (65536 - off) :: u32) = 65536 - off" by (rule unat_of_nat_u32) simp
    then have "(of_nat (65536 - off) :: u32) \<noteq> 0" using args(4) by (metis unat_0 zero_less_diff less_irrefl)
    then have "slot_ext ?M' idx = 65536 - off" using u by (simp add: slot_ext_def sl logical_length_def)
    moreover have b: "base_seq ?M' = base_seq M" using f(6) by (simp add: store_segment_def Let_def)
    have "slot_start ?M' idx = off" unfolding slot_start_def sl b by (simp add: args(3))
    ultimately show ?thesis using args(4) by (simp add: extent_def)
  qed
  ultimately show ?thesis by blast
qed

subsection \<open>Properties\<close>

text \<open>(C16) Inserting a segment that fits the window keeps the matrix consistent, whatever is there
  already. If it is accepted, one free slot takes a contiguous part of it that overlaps nothing, with
  the sequence number and the payload offset moved by the same number of trimmed bytes, and
  afterwards every byte of the segment is present. It is refused only if it overlaps present bytes,
  which leaves the matrix as it was, or if all 128 slots are taken, which resets the matrix.\<close>

theorem ooo_insert_keeps:
  assumes "ooo_inv M" "mbuf \<noteq> 0" "L = unat (logical_length len flags)" "0 < L" "off = unat (seq - base_seq M)" "off + L \<le> WINDOW_SIZE"
    and "insert_mbuf r seq mbuf po len flags M = (ok, M')"
  shows "ooo_inv M' \<and> (if ok
     then (\<exists>idx n e. idx \<notin> active M \<and> active M' = insert idx (active M) \<and> took_slot M' idx n e seq mbuf po len flags
        \<and> 0 < e \<and> n + e \<le> L \<and> extent M' idx = {off + n..<off + n + e} \<and> extent M' idx \<inter> present (presence_mask M) = {}
        \<and> present (presence_mask M') = present (presence_mask M) \<union> {off..<off + L} \<and> base_seq M' = base_seq M
        \<and> (\<forall>i\<in>active M. ooo_slots M' ! i = ooo_slots M ! i))
     else M' = M \<and> present (presence_mask M) \<inter> {off..<off + L} \<noteq> {} \<or> active M = {..<MAX_MBUFS} \<and> M' = ooo_reset (base_seq M) M)"
proof (cases ok)
  case True
  then show ?thesis using insert_in_window [OF assms(1-5), where r = r and po = po and M' = M'] assms(6,7) by (simp add: WINDOW_SIZE_def)
next
  case False
  then have "M' = M \<and> present (presence_mask M) \<inter> {off..<off + L} \<noteq> {} \<or> active M = {..<128} \<and> M' = ooo_reset (base_seq M) M"
    using insert_refused [OF assms(1-5), where r = r and po = po and M' = M'] assms(6,7) by (simp add: WINDOW_SIZE_def)
  then show ?thesis using False assms(1) ooo_reset_spec(1) [OF assms(1), of "base_seq M"] by (auto simp: MAX_MBUFS_def)
qed

lemma ooo_new_inv: "ooo_inv ooo_new" "active ooo_new = {}" "present (presence_mask ooo_new) = {}" "base_seq ooo_new = 0"
proof -
  show "base_seq ooo_new = 0" by (simp add: ooo_new_def)
  show a: "active ooo_new = {}" by (simp add: set_eq_iff active_iff ooo_new_def word_bits_def)
  show "present (presence_mask ooo_new) = {}" by (simp add: ooo_new_def)
  then show "ooo_inv ooo_new" using a by (simp add: ooo_inv_def ooo_new_def)
qed

lemma new_example:
  "\<exists>M1 M2. insert_mbuf 0 100 7 54 50 0 ooo_new = (True, M1) \<and> ooo_inv M1 \<and> extract_contiguous_mbuf 100 M1 = (Some (7, 50, 54, 0), M2)"
  using insert_then_extract [OF ooo_new_inv(1) _ refl _ refl, where mbuf = 7 and len = 50 and flags = 0 and seq = 100 and r = 0 and po = 54]
    ooo_new_inv(2,3,4) new_not_full by (auto simp: logical_length_def)

theorem ooo_insert_keeps_witness:
  "\<exists>M' idx n e. insert_mbuf 0 100 7 54 50 0 ooo_new = (True, M') \<and> active M' = {idx} \<and> took_slot M' idx n e 100 7 54 50 0 \<and> ooo_inv M'"
proof -
  obtain M' where r: "insert_mbuf 0 100 7 54 50 0 ooo_new = (True, M')" using new_example by blast
  show ?thesis using ooo_insert_keeps [OF ooo_new_inv(1) _ refl _ refl _ r] ooo_new_inv(2,4) r
    by (simp add: logical_length_def WINDOW_SIZE_def) blast
qed

text \<open>(C17) Extraction hands out the segment that starts at the next expected byte exactly if there is
  one. It empties its slot, clears its bytes and leaves all others, except that the rest of the
  matrix, which is then behind the expected byte, is freed when the segment ends at the end of the
  window. The matrix stays consistent.\<close>

theorem ooo_extract_correct:
  assumes inv: "ooo_inv M" and res: "extract_contiguous_mbuf r M = (x, M')"
  shows "ooo_inv M' \<and> (case x of
      None \<Rightarrow> M' = M \<and> (\<forall>i\<in>active M. slot_seq (ooo_slots M ! i) \<noteq> r)
    | Some (mbuf, len, po, flags) \<Rightarrow> \<exists>idx\<in>active M. slot_seq (ooo_slots M ! idx) = r \<and> slot_mbuf (ooo_slots M ! idx) = mbuf \<and> mbuf \<noteq> 0
        \<and> slot_len (ooo_slots M ! idx) = len \<and> slot_payload_offset (ooo_slots M ! idx) = po \<and> slot_flags (ooo_slots M ! idx) = flags
        \<and> (if slot_start M idx + slot_ext M idx = WINDOW_SIZE then active M' = {} \<and> present (presence_mask M') = {}
           else active M' = active M - {idx} \<and> present (presence_mask M') = present (presence_mask M) - extent M idx))"
proof (cases "\<exists>idx\<in>active M. slot_seq (ooo_slots M ! idx) = r")
  case False
  then have "find (\<lambda>i. slot_seq (ooo_slots M ! i) = r) (active_list M) = None" by (auto simp: find_None_iff active_def)
  then have "x = None" "M' = M" using res by (auto simp: extract_contiguous_mbuf_def Let_def split: if_splits)
  then show ?thesis using inv False by auto
next
  case True
  then obtain idx where i: "idx \<in> active M" "slot_seq (ooo_slots M ! idx) = r" by blast
  let ?sl = "ooo_slots M ! idx" and ?V = "vacated idx M"
  note v = vacated_spec [OF inv i(1)]
  have run: "x = Some (slot_mbuf ?sl, slot_len ?sl, slot_payload_offset ?sl, slot_flags ?sl)"
    "M' = (if active M = {idx} then ?V\<lparr>base_seq := r + logical_length (slot_len ?sl) (slot_flags ?sl)\<rparr>
       else if slot_start M idx + slot_ext M idx = 65536 then ooo_reset (r + logical_length (slot_len ?sl) (slot_flags ?sl)) ?V else ?V)"
    using res unfolding extract_run [OF inv i] extract_slot_run [OF inv i refl] by auto
  have alone: "present (presence_mask ?V) = {}" "ooo_inv (?V\<lparr>base_seq := b\<rparr>)" if "active M = {idx}" for b
  proof -
    show e: "present (presence_mask ?V) = {}" using v(4) ooo_invD(7) [OF inv] that by auto
    have "active ?V = {}" using v(2) that by simp
    then show "ooo_inv (?V\<lparr>base_seq := b\<rparr>)" using v(1) e by (simp add: ooo_inv_def)
  qed
  have "ooo_inv M'" using run(2) alone(2) ooo_reset_spec(1) [OF v(1)] v(1) by (auto split: if_splits)
  moreover have "if slot_start M idx + slot_ext M idx = WINDOW_SIZE then active M' = {} \<and> present (presence_mask M') = {}
      else active M' = active M - {idx} \<and> present (presence_mask M') = present (presence_mask M) - extent M idx"
    using run(2) v(2,4) alone(1) ooo_reset_spec(2,3) [OF v(1)] by (auto simp: WINDOW_SIZE_def)
  ultimately show ?thesis using run(1) i ooo_invD(3) [OF inv i(1)] by auto
qed

theorem ooo_extract_correct_witness:
  "\<exists>M1 x M2. insert_mbuf 0 100 7 54 50 0 ooo_new = (True, M1) \<and> extract_contiguous_mbuf 100 M1 = (Some x, M2) \<and> ooo_inv M2"
proof -
  obtain M1 M2 where r: "insert_mbuf 0 100 7 54 50 0 ooo_new = (True, M1)" "extract_contiguous_mbuf 100 M1 = (Some (7, 50, 54, 0), M2)" "ooo_inv M1"
    using new_example by blast
  show ?thesis using ooo_extract_correct [OF r(3,2)] r by blast
qed



text \<open>(C19) A segment that leaves the window is cut to it, but the mask is marked as if the window
  were circular: bytes at the start of the window, which no slot holds, count as present from then
  on. A segment with these bytes is refused as a duplicate, although they were never received.\<close>

theorem ooo_truncated_ghosts:
  assumes "ooo_inv M" "active M = {}" "mbuf \<noteq> 0" "len \<noteq> 0" "off = unat (seq - base_seq M)" "off < WINDOW_SIZE"
    "WINDOW_SIZE < off + unat len" "unat len \<le> WINDOW_SIZE"
    and "mbuf' \<noteq> 0" "0 < unat len'" "unat len' \<le> off + unat len - WINDOW_SIZE" "unat len' \<le> off"
  shows "\<exists>M' idx. insert_mbuf r seq mbuf po len flags M = (True, M') \<and> active M' = {idx} \<and> extent M' idx \<inter> {..<unat len'} = {}
    \<and> insert_mbuf r (base_seq M) mbuf' po' len' flags' M' = (False, M')"
proof -
  obtain M' idx where s: "insert_mbuf r seq mbuf po len flags M = (True, M')" "base_seq M' = base_seq M" "active M' = {idx}"
    "extent M' idx = {off..<65536}" "present (presence_mask M') = {off..<65536} \<union> {..<off + unat len - 65536}"
    using insert_truncated [OF assms(1-5), where r = r and po = po and flags = flags] assms(6-8) by (auto simp: WINDOW_SIZE_def)
  have ll: "logical_length len' flags' = len'" using assms(10) by (auto simp: logical_length_def)
  have b: "unat len' \<le> off + unat len - 65536" "unat len' \<le> 65536" using assms(6,11,12) by (simp_all add: WINDOW_SIZE_def)
  then have sub: "{0..<unat len'} \<subseteq> present (presence_mask M')" unfolding s(5) by (intro subsetI UnI2) simp
  have "insert_mbuf r (base_seq M) mbuf' po' len' flags' M' = (False, M')"
    by (rule insert_duplicate) (simp_all add: ll s(2) b(2) sub assms(9,10))
  moreover have "extent M' idx \<inter> {..<unat len'} = {}" using s(4) assms(12) by auto
  ultimately show ?thesis using s(1,3) by blast
qed

theorem ooo_truncated_ghosts_witness:
  "\<exists>M'. insert_mbuf 0 65000 7 54 1460 0 ooo_new = (True, M') \<and> insert_mbuf 0 0 8 54 500 0 M' = (False, M')"
  using ooo_truncated_ghosts [OF ooo_new_inv(1,2) _ _ refl, where mbuf = 7 and len = 1460 and seq = 65000 and mbuf' = 8 and len' = 500
      and r = 0 and po = 54 and po' = 54 and flags = 0 and flags' = 0] ooo_new_inv(4)
  by (auto simp: WINDOW_SIZE_def)

text \<open>Sliding the window up to the next expected byte keeps every segment that starts there or
  later, at its new place.\<close>

theorem ooo_slide_keeps:
  assumes "ooo_inv M" "0 < sint (r - base_seq M)" "unat (r - base_seq M) < WINDOW_SIZE"
    and "\<And>i. i \<in> active M \<Longrightarrow> unat (r - base_seq M) \<le> slot_start M i"
  shows "ooo_inv (slide_window r M) \<and> active (slide_window r M) = active M \<and> base_seq (slide_window r M) = r
    \<and> present (presence_mask (slide_window r M)) = {k. k + unat (r - base_seq M) \<in> present (presence_mask M)}"
proof -
  have small: "unat (r - base_seq M) < 65536" using assms(3) by (simp add: WINDOW_SIZE_def)
  note s = slide_spec [OF assms(1,2) small assms(4)]
  have "present (presence_mask (slide_window r M)) = {k. k + unat (r - base_seq M) \<in> present (presence_mask M)}"
    using present_mask_shift [of "unat (r - base_seq M)" "presence_mask M"] ooo_invD(1) [OF assms(1)] small assms(2)
    by (auto simp: slide_window_def Let_def WINDOW_SIZE_def)
  then show ?thesis using s(1,2,4) by blast
qed

theorem ooo_slide_keeps_witness: "ooo_inv (slide_window 70 ooo_new) \<and> base_seq (slide_window 70 ooo_new) = 70"
  using ooo_slide_keeps [OF ooo_new_inv(1), of 70] ooo_new_inv(2,4) by (simp add: WINDOW_SIZE_def)

end
