(* ===== verification/Wire.thy ===== *)
theory Wire
  imports Prelude
begin

section \<open>Bytes on the wire: byte order and the Internet checksum\<close>

text \<open>
  The byte-order conversions of \<^verbatim>\<open>core/endian.hpp\<close> and the checksum of
  \<^verbatim>\<open>net/tcp_wire_engine.hpp\<close>, on the little-endian machine the library is built
  for. A load of a multi-byte field is \<open>le_word\<close> of its bytes. The checksum is proved equal to
  the one's complement sum of RFC 1071, for every length: the unrolled loop folds often enough that
  its 32-bit accumulator never overflows.
\<close>

subsection \<open>Fields in memory\<close>

primrec le_word :: "u8 list \<Rightarrow> 'a::len word" where
  "le_word [] = 0"
| "le_word (b # bs) = ucast b OR push_bit 8 (le_word bs)"

primrec le_bytes :: "nat \<Rightarrow> 'a::len word \<Rightarrow> u8 list" where
  "le_bytes 0 w = []"
| "le_bytes (Suc n) w = ucast w # le_bytes n (drop_bit 8 w)"

text \<open>A field of a byte buffer, read and written in place.\<close>

definition ld16 :: "u8 list \<Rightarrow> nat \<Rightarrow> u16" where
  "ld16 bs i = le_word (take 2 (drop i bs))"

definition ld32 :: "u8 list \<Rightarrow> nat \<Rightarrow> u32" where
  "ld32 bs i = le_word (take 4 (drop i bs))"

definition ld64 :: "u8 list \<Rightarrow> nat \<Rightarrow> u64" where
  "ld64 bs i = le_word (take 8 (drop i bs))"

subsection \<open>Byte order\<close>

definition byteswap16 :: "u16 \<Rightarrow> u16" where
  "byteswap16 v = push_bit 8 v OR drop_bit 8 v"

definition byteswap32 :: "u32 \<Rightarrow> u32" where
  "byteswap32 v =
     push_bit 24 (v AND 0x000000FF) OR push_bit 8 (v AND 0x0000FF00) OR
     drop_bit 8 (v AND 0x00FF0000) OR drop_bit 24 (v AND 0xFF000000)"

definition byteswap64 :: "u64 \<Rightarrow> u64" where
  "byteswap64 v =
     push_bit 56 (v AND 0x00000000000000FF) OR push_bit 40 (v AND 0x000000000000FF00) OR
     push_bit 24 (v AND 0x0000000000FF0000) OR push_bit 8 (v AND 0x00000000FF000000) OR
     drop_bit 8 (v AND 0x000000FF00000000) OR drop_bit 24 (v AND 0x0000FF0000000000) OR
     drop_bit 40 (v AND 0x00FF000000000000) OR drop_bit 56 (v AND 0xFF00000000000000)"

definition network_to_host16 :: "u16 \<Rightarrow> u16" where
  "network_to_host16 v = byteswap16 v"

definition host_to_network16 :: "u16 \<Rightarrow> u16" where
  "host_to_network16 v = network_to_host16 v"

definition network_to_host32 :: "u32 \<Rightarrow> u32" where
  "network_to_host32 v = byteswap32 v"

definition host_to_network32 :: "u32 \<Rightarrow> u32" where
  "host_to_network32 v = network_to_host32 v"

definition network_to_host64 :: "u64 \<Rightarrow> u64" where
  "network_to_host64 v = byteswap64 v"

definition host_to_network64 :: "u64 \<Rightarrow> u64" where
  "host_to_network64 v = network_to_host64 v"

text \<open>The 16-byte header translation, in its two builds: one byte shuffle, or two 64-bit swaps.\<close>

definition shuffle_epi8 :: "nat list \<Rightarrow> u8 list \<Rightarrow> u8 list" where
  "shuffle_epi8 m v = map (\<lambda>i. v ! i) m"

definition translate_header_simd :: "u8 list \<Rightarrow> u8 list" where
  "translate_header_simd h = shuffle_epi8 [7, 6, 5, 4, 3, 2, 1, 0, 15, 14, 13, 12, 11, 10, 9, 8] h"

definition translate_header_scalar :: "u8 list \<Rightarrow> u8 list" where
  "translate_header_scalar h = le_bytes 8 (network_to_host64 (ld64 h 0)) @ le_bytes 8 (network_to_host64 (ld64 h 8))"

subsection \<open>The checksum\<close>

definition fold_carry :: "u32 \<Rightarrow> u32" where
  "fold_carry s = (s AND 0xFFFF) + drop_bit 16 s"

text \<open>\<^verbatim>\<open>ptr[k]\<close>, widened to the accumulator.\<close>

definition wire_word :: "u8 list \<Rightarrow> nat \<Rightarrow> u32" where
  "wire_word p k = ucast (ld16 p (2 * k))"

definition add_block :: "u8 list \<Rightarrow> u32 \<Rightarrow> u32" where
  "add_block p s = fold (\<lambda>k s. s + wire_word p k) [0..<16] s"

function add_blocks :: "nat \<Rightarrow> u8 list \<Rightarrow> u32 \<Rightarrow> u8 list \<times> u32" where
  "add_blocks chunk_len p s = (if 32 \<le> chunk_len then add_blocks (chunk_len - 32) (drop 32 p) (add_block p s) else (p, s))"
  by pat_completeness auto
termination by (relation "measure (\<lambda>(chunk_len, p, s). chunk_len)") auto

definition chunk_size :: "nat \<Rightarrow> nat" where
  "chunk_size len = (if 65536 < len then 65536 else len - len mod 32)"

function add_chunks :: "nat \<Rightarrow> u8 list \<Rightarrow> u32 \<Rightarrow> nat \<times> u8 list \<times> u32" where
  "add_chunks len p s = (if 32 \<le> len
     then let (p', s') = add_blocks (chunk_size len) p s in add_chunks (len - chunk_size len) p' (fold_carry s')
     else (len, p, s))"
  by pat_completeness auto
termination
proof (relation "measure (\<lambda>(len, p, s). len)")
  fix len :: nat assume "32 \<le> len"
  then have "len mod 32 < len" using mod_less_divisor [of 32 len] by linarith
  then show "\<And>p s p' s' x. ((len - chunk_size len, p', fold_carry s'), len, p, s) \<in> measure (\<lambda>(len, p, s). len)"
    using \<open>32 \<le> len\<close> by (simp add: chunk_size_def)
qed simp

function add_words :: "nat \<Rightarrow> u8 list \<Rightarrow> u32 \<Rightarrow> nat \<times> u8 list \<times> u32" where
  "add_words len p s = (if 1 < len then add_words (len - 2) (drop 2 p) (s + wire_word p 0) else (len, p, s))"
  by pat_completeness auto
termination by (relation "measure (\<lambda>(len, p, s). len)") auto

declare add_blocks.simps [simp del] add_chunks.simps [simp del] add_words.simps [simp del]

definition add_tail :: "nat \<Rightarrow> u8 list \<Rightarrow> u32 \<Rightarrow> u32" where
  "add_tail len p s = (if 0 < len then s + ucast (p ! 0) else s)"

definition swap_low_bytes :: "u32 \<Rightarrow> u32" where
  "swap_low_bytes s = push_bit 8 (s AND 0xFF) OR (drop_bit 8 s AND 0xFF)"

text \<open>The whole routine, on the bytes at the address whose lowest bit is \<open>is_unaligned\<close>.\<close>

definition compute_checksum :: "bool \<Rightarrow> u8 list \<Rightarrow> u32 \<Rightarrow> u16" where
  "compute_checksum is_unaligned bytes initial_sum =
     (let s0 = fold_carry (fold_carry initial_sum);
          (len1, p1, s1) = (if is_unaligned \<and> 0 < length bytes
            then (length bytes - 1, drop 1 bytes, s0 + push_bit 8 (ucast (bytes ! 0))) else (length bytes, bytes, s0));
          (len2, p2, s2) = add_chunks len1 p1 s1;
          (len3, p3, s3) = add_words len2 p2 s2;
          s4 = add_tail len3 p3 s3;
          s5 = fold_carry (fold_carry s4);
          s6 = (if is_unaligned then swap_low_bytes s5 else s5)
      in ucast (NOT s6))"

subsection \<open>Fields and their bytes\<close>

lemma bit_le_word:
  "bit (le_word bs :: 'a::len word) k \<longleftrightarrow> k < LENGTH('a) \<and> k < 8 * length bs \<and> bit (bs ! (k div 8)) (k mod 8)"
proof (induction bs arbitrary: k)
  case (Cons b bs)
  show ?case
  proof (cases "k < 8")
    case True
    then show ?thesis by (auto simp: bit_or_iff bit_unsigned_iff bit_push_bit_iff)
  next
    case False
    then have "k div 8 = Suc ((k - 8) div 8)" "(k - 8) mod 8 = k mod 8" by (simp_all add: le_div_geq le_mod_geq)
    moreover from False have "\<not> bit b k" using bit_imp_le_length [of b k] by auto
    ultimately show ?thesis using False Cons [of "k - 8"] bit_imp_le_length [of "le_word bs :: 'a word" "k - 8"]
      by (auto simp: bit_or_iff bit_unsigned_iff bit_push_bit_iff)
  qed
qed simp

lemma length_le_bytes [simp]: "length (le_bytes n w) = n"
  by (induction n arbitrary: w) simp_all

lemma nth_le_bytes: "i < n \<Longrightarrow> le_bytes n w ! i = ucast (drop_bit (8 * i) w)"
proof (induction n arbitrary: w i)
  case (Suc n)
  then show ?case by (cases i) (simp_all add: drop_bit_drop_bit add.commute)
qed simp

lemma le_bytes_word:
  assumes "8 * length bs \<le> LENGTH('a)"
  shows "le_bytes (length bs) (le_word bs :: 'a::len word) = bs"
proof (rule nth_equalityI)
  fix i assume "i < length (le_bytes (length bs) (le_word bs :: 'a word))"
  then have i: "i < length bs" by simp
  have "bit (ucast (drop_bit (8 * i) (le_word bs :: 'a word)) :: u8) k \<longleftrightarrow> bit (bs ! i) k" if "k < 8" for k
    using that i assms by (auto simp: bit_unsigned_iff bit_drop_bit_eq bit_le_word)
  then show "le_bytes (length bs) (le_word bs :: 'a word) ! i = bs ! i"
    using i by (auto simp: nth_le_bytes intro!: bit_word_eqI)
qed simp

lemma le_word_bytes:
  assumes "LENGTH('a) = 8 * n"
  shows "le_word (le_bytes n (w :: 'a::len word)) = w"
proof (rule bit_word_eqI)
  fix k assume k: "k < LENGTH('a)"
  then have "k div 8 < n" using assms by linarith
  moreover have "8 * (k div 8) + k mod 8 = k" by simp
  ultimately show "bit (le_word (le_bytes n w) :: 'a word) k \<longleftrightarrow> bit w k"
    using k assms by (simp add: bit_le_word nth_le_bytes bit_unsigned_iff bit_drop_bit_eq)
qed

subsection \<open>Buffers\<close>

text \<open>A buffer that is copied into, by address.\<close>

type_synonym memory = "nat \<Rightarrow> u8"

text \<open>\<^verbatim>\<open>memcpy\<close> to an address.\<close>

definition put_bytes :: "memory \<Rightarrow> nat \<Rightarrow> u8 list \<Rightarrow> memory" where
  "put_bytes m at bs = (\<lambda>i. if at \<le> i \<and> i < at + length bs then bs ! (i - at) else m i)"

lemma map_put_bytes:
  assumes "b \<le> at" "at + length bs \<le> e"
  shows "map (put_bytes m at bs) [b..<e] = take (at - b) (map m [b..<e]) @ bs @ drop (at - b + length bs) (map m [b..<e])"
proof (rule nth_equalityI)
  fix i assume "i < length (map (put_bytes m at bs) [b..<e])"
  then show "map (put_bytes m at bs) [b..<e] ! i = (take (at - b) (map m [b..<e]) @ bs @ drop (at - b + length bs) (map m [b..<e])) ! i"
    using assms by (auto simp: put_bytes_def nth_append add.commute)
qed (use assms in simp)

lemma ld16_map: "i + 2 \<le> n \<Longrightarrow> ld16 (map out [0..<n]) i = le_word [out i, out (i + 1)]"
proof -
  assume "i + 2 \<le> n"
  then have "take 2 (drop i (map out [0..<n])) = [out i, out (i + 1)]"
    by (simp add: numeral_2_eq_2 take_Suc_conv_app_nth)
  then show ?thesis by (simp only: ld16_def)
qed

lemma put_bytes_2 [simp]: "put_bytes m k bs k = bs ! 0" "put_bytes m k bs (Suc k) = bs ! 1" if "length bs = 2"
  using that by (simp_all add: put_bytes_def)

lemma put_bytes_other: "i < k \<or> k + length bs \<le> i \<Longrightarrow> put_bytes m k bs i = m i"
  by (auto simp: put_bytes_def)

lemma le_word_2: "length bs = 2 \<Longrightarrow> le_word [bs ! 0, bs ! 1] = le_word bs"
  by (auto simp: length_Suc_conv numeral_2_eq_2)

lemma put_bytes_bound: "at + length bs \<le> n \<Longrightarrow> n \<le> i \<Longrightarrow> put_bytes m at bs i = m i"
  by (simp add: put_bytes_def)

subsection \<open>Byte order is reversal of the bytes\<close>

lemma byte_masks:
  "(0xFF :: 'a::len word) = mask 8"
  "(0xFF00 :: 'a word) = push_bit 8 (mask 8)"
  "(0xFF0000 :: 'a word) = push_bit 16 (mask 8)"
  "(0xFF000000 :: 'a word) = push_bit 24 (mask 8)"
  "(0xFF00000000 :: 'a word) = push_bit 32 (mask 8)"
  "(0xFF0000000000 :: 'a word) = push_bit 40 (mask 8)"
  "(0xFF000000000000 :: 'a word) = push_bit 48 (mask 8)"
  "(0xFF00000000000000 :: 'a word) = push_bit 56 (mask 8)"
  by (simp_all add: mask_eq_exp_minus_1 push_bit_eq_mult)

lemma byte_position: "k < 8 * n \<Longrightarrow> \<exists>q<n. \<exists>r<8. k = 8 * q + (r :: nat)"
proof -
  assume "k < 8 * n"
  then have "k div 8 < n \<and> k mod 8 < 8 \<and> k = 8 * (k div 8) + k mod 8" by auto
  then show ?thesis by blast
qed

lemma byte_split: "r < 8 \<Longrightarrow> (8 * i + r) div 8 = i \<and> (8 * i + r) mod 8 = (r :: nat)"
  by simp

lemma byte_div_mod:
  assumes "r < (8 :: nat)"
  shows "(8 + r) div 8 = 1" "(8 + r) mod 8 = r" "(16 + r) div 8 = 2" "(16 + r) mod 8 = r" "(24 + r) div 8 = 3" "(24 + r) mod 8 = r" "(32 + r) div 8 = 4" "(32 + r) mod 8 = r"
    "(40 + r) div 8 = 5" "(40 + r) mod 8 = r" "(48 + r) div 8 = 6" "(48 + r) mod 8 = r" "(56 + r) div 8 = 7" "(56 + r) mod 8 = r"
  using byte_split [OF assms, of 1] byte_split [OF assms, of 2] byte_split [OF assms, of 3] byte_split [OF assms, of 4] byte_split [OF assms, of 5] byte_split [OF assms, of 6] byte_split [OF assms, of 7] by simp_all

lemma byteswap16_rev: "length bs = 2 \<Longrightarrow> byteswap16 (le_word bs) = le_word (rev bs)"
proof (rule bit_word_eqI)
  fix k assume l: "length bs = 2" and "k < LENGTH(16)"
  then obtain q r where k: "q < 2" "r < 8" "k = 8 * q + r" using byte_position [of k 2] by auto
  then have "q = 0 \<or> q = 1" by linarith
  then show "bit (byteswap16 (le_word bs)) k \<longleftrightarrow> bit (le_word (rev bs) :: u16) k"
    using k(2,3) l by (elim disjE) (simp_all add: byte_div_mod byteswap16_def bit_simps bit_le_word rev_nth del: bit_0)
qed

lemma byteswap32_rev: "length bs = 4 \<Longrightarrow> byteswap32 (le_word bs) = le_word (rev bs)"
proof (rule bit_word_eqI)
  fix k assume l: "length bs = 4" and "k < LENGTH(32)"
  then obtain q r where k: "q < 4" "r < 8" "k = 8 * q + r" using byte_position [of k 4] by auto
  then have "q = 0 \<or> q = 1 \<or> q = 2 \<or> q = 3" by linarith
  then show "bit (byteswap32 (le_word bs)) k \<longleftrightarrow> bit (le_word (rev bs) :: u32) k"
    using k(2,3) l by (elim disjE) (simp_all add: byte_div_mod byteswap32_def byte_masks bit_simps bit_le_word rev_nth del: bit_0)
qed

lemma byteswap64_rev: "length bs = 8 \<Longrightarrow> byteswap64 (le_word bs) = le_word (rev bs)"
proof (rule bit_word_eqI)
  fix k assume l: "length bs = 8" and "k < LENGTH(64)"
  then obtain q r where k: "q < 8" "r < 8" "k = 8 * q + r" using byte_position [of k 8] by auto
  then have "q = 0 \<or> q = 1 \<or> q = 2 \<or> q = 3 \<or> q = 4 \<or> q = 5 \<or> q = 6 \<or> q = 7" by linarith
  then show "bit (byteswap64 (le_word bs)) k \<longleftrightarrow> bit (le_word (rev bs) :: u64) k"
    using k(2,3) l by (elim disjE) (simp_all add: byte_div_mod byteswap64_def byte_masks bit_simps bit_le_word rev_nth del: bit_0)
qed

lemma byteswap_involutive: "byteswap16 (byteswap16 v) = v" "byteswap32 (byteswap32 w) = w" "byteswap64 (byteswap64 x) = x"
  using byteswap16_rev [of "le_bytes 2 v"] byteswap16_rev [of "rev (le_bytes 2 v)"]
    byteswap32_rev [of "le_bytes 4 w"] byteswap32_rev [of "rev (le_bytes 4 w)"]
    byteswap64_rev [of "le_bytes 8 x"] byteswap64_rev [of "rev (le_bytes 8 x)"]
  by (simp_all only: le_word_bytes len_num1 len_bit0 length_le_bytes length_rev rev_rev_ident)

lemma byteswap_bytes: "le_bytes 8 (byteswap64 (le_word bs)) = rev bs" if "length bs = 8"
  using byteswap64_rev [OF that] le_bytes_word [of "rev bs", where 'a = 64] that by simp

lemma shuffle_reverses: "length h = 16 \<Longrightarrow> translate_header_simd h = rev (take 8 h) @ rev (take 8 (drop 8 h))"
  by (auto simp: translate_header_simd_def shuffle_epi8_def length_Suc_conv numeral_eq_Suc)

lemma scalar_reverses: "length h = 16 \<Longrightarrow> translate_header_scalar h = rev (take 8 h) @ rev (take 8 (drop 8 h))"
  by (simp add: translate_header_scalar_def network_to_host64_def ld64_def byteswap_bytes)

subsection \<open>One's complement sums\<close>

text \<open>The reference: 16-bit addition with end-around carry, over the words of the data, an odd last
  byte padded with zero.\<close>

definition ones_add :: "u16 \<Rightarrow> u16 \<Rightarrow> u16" where
  "ones_add a b = (if unat a + unat b < 65536 then a + b else a + b + 1)"

fun ones_sum :: "u8 list \<Rightarrow> u16" where
  "ones_sum [] = 0"
| "ones_sum [a] = ucast a"
| "ones_sum (a # b # bs) = ones_add (le_word [a, b]) (ones_sum bs)"

definition rfc1071 :: "u8 list \<Rightarrow> u32 \<Rightarrow> u16" where
  "rfc1071 bytes initial_sum = NOT (ones_add (ones_add (ucast initial_sum) (ucast (drop_bit 16 initial_sum))) (ones_sum bytes))"

text \<open>Both are the same class modulo \<open>2 ^ 16 - 1\<close>, with zero only for a zero sum.\<close>

definition oc :: "nat \<Rightarrow> nat" where
  "oc s = (if s = 0 then 0 else (s - 1) mod 65535 + 1)"

lemma oc_bounds: "oc s \<le> 65535" "oc s = 0 \<longleftrightarrow> s = 0" "s \<le> 65535 \<Longrightarrow> oc s = s"
  by (auto simp: oc_def Suc_le_eq)

lemma oc_eq_iff: "oc s = oc t \<longleftrightarrow> (s = 0 \<longleftrightarrow> t = 0) \<and> s mod 65535 = t mod 65535"
proof (cases "s = 0 \<or> t = 0")
  case False
  then obtain a b where "s = Suc a" "t = Suc b" by (metis not0_implies_Suc)
  then show ?thesis by (auto simp: oc_def mod_Suc)
qed (auto simp: oc_def)

lemma oc_mod: "oc s mod 65535 = s mod 65535"
  by (auto simp: oc_def mod_Suc_eq)

lemma oc_add: "oc a = oc b \<Longrightarrow> oc (a + c) = oc (b + c)"
  unfolding oc_eq_iff by (metis add_is_0 mod_add_cong)

lemma oc_oc: "oc (oc s) = oc s"
  by (simp add: oc_bounds)

lemma oc_carry: "oc (s mod 65536 + s div 65536) = oc s"
proof -
  have "s = 65535 * (s div 65536) + (s mod 65536 + s div 65536)" using mod_mult_div_eq [of s 65536] by linarith
  then have "s mod 65535 = (s mod 65536 + s div 65536) mod 65535" by (metis mod_mult_self4)
  moreover have "s mod 65536 + s div 65536 = 0 \<longleftrightarrow> s = 0" using mod_mult_div_eq [of s 65536] by auto
  ultimately show ?thesis by (simp add: oc_eq_iff)
qed

lemma oc_swap_bytes: "s \<le> 65535 \<Longrightarrow> s mod 256 * 256 + s div 256 = oc (256 * s)"
proof -
  assume "s \<le> 65535"
  then have "s div 256 < 256" "s mod 256 < 256" by (simp_all add: div_less_iff_less_mult)
  then have small: "s mod 256 * 256 + s div 256 \<le> 65535" by linarith
  have "256 * s = 65535 * (s div 256) + (s mod 256 * 256 + s div 256)" using mult_div_mod_eq [of 256 s] by linarith
  then have "(256 * s) mod 65535 = (s mod 256 * 256 + s div 256) mod 65535" by (metis mod_mult_self4)
  moreover have "s mod 256 * 256 + s div 256 = 0 \<longleftrightarrow> 256 * s = 0" using mult_div_mod_eq [of 256 s] by auto
  ultimately have "oc (256 * s) = oc (s mod 256 * 256 + s div 256)" by (simp add: oc_eq_iff)
  with small show ?thesis by (simp add: oc_bounds)
qed

text \<open>The sum of the little-endian words of the data.\<close>

fun wsum :: "u8 list \<Rightarrow> nat" where
  "wsum [] = 0"
| "wsum [a] = unat a"
| "wsum (a # b # bs) = unat a + 256 * unat b + wsum bs"

lemma unat_le_word2: "unat (le_word [a, b] :: u16) = unat a + 256 * unat b"
proof -
  have "(le_word [a, b] :: u16) = ucast a + push_bit 8 (ucast b)"
    by (subst disjunctive_add) (auto simp: bit_simps dest: bit_imp_le_length)
  moreover have "unat a < 256" "unat b < 256" using unsigned_less [of a, where 'a = nat] unsigned_less [of b, where 'a = nat] by simp_all
  ultimately show ?thesis by (simp add: unat_word_ariths push_bit_eq_mult unsigned_ucast_eq take_bit_nat_def)
qed

lemma unat_ones_add: "unat (ones_add a b) = oc (unat a + unat b)"
proof -
  have lt: "unat a < 65536" "unat b < 65536" using unsigned_less [of a, where 'a = nat] unsigned_less [of b, where 'a = nat] by simp_all
  show ?thesis
  proof (cases "unat a + unat b < 65536")
    case True
    then show ?thesis by (simp add: ones_add_def unat_word_ariths oc_bounds)
  next
    case False
    then obtain d where d: "unat a + unat b = 65536 + d" by (metis le_iff_add not_less)
    with lt have "d < 65535" by linarith
    then have "(65535 + d) mod 65535 = d" "(65536 + d) mod 65536 = d" by simp_all
    then have "oc (65536 + d) = d + 1" "unat (a + b) = d" using d by (simp_all add: oc_def unat_word_ariths)
    with \<open>d < 65535\<close> d show ?thesis by (simp add: ones_add_def unat_word_ariths)
  qed
qed

lemma unat_ones_sum: "unat (ones_sum bs) = oc (wsum bs)"
proof (induction bs rule: ones_sum.induct)
  case (2 a)
  have "unat a < 256" using unsigned_less [of a, where 'a = nat] by simp
  then show ?case by (simp add: oc_bounds unsigned_ucast_eq take_bit_nat_def)
next
  case (3 a b bs)
  then show ?case using oc_add [of "oc (wsum bs)" "wsum bs" "unat a + 256 * unat b"]
    by (simp only: ones_sum.simps unat_ones_add unat_le_word2 oc_oc wsum.simps) (simp add: add.commute)
qed (simp add: oc_def)

subsection \<open>The loops add the words\<close>

lemma unat_u8: "unat (b :: u8) < 256"
  using unsigned_less [of b, where 'a = nat] by simp

lemma unat_fold_carry: "unat (fold_carry s) = unat s mod 65536 + unat s div 65536"
proof -
  have "s AND 0xFFFF = take_bit 16 s" using take_bit_eq_mask [of 16 s] by (simp add: mask_eq_exp_minus_1 and.commute)
  then have u: "unat (s AND 0xFFFF) = unat s mod 65536" by (simp add: unsigned_take_bit_eq take_bit_nat_def)
  have v: "unat (drop_bit 16 s) = unat s div 65536" using drop_bit_eq_div [of 16 "unat s"] by (simp add: unat_drop_bit_eq)
  have "unat s div 65536 < 65536" using unat_lt_u32 [of s] by (simp add: div_less_iff_less_mult)
  then have "unat s mod 65536 + unat s div 65536 < 2 ^ 32" using mod_less_divisor [of 65536 "unat s"] by simp
  then show ?thesis by (simp add: fold_carry_def unat_word_ariths u v)
qed

lemma oc_fold_carry: "oc (unat (fold_carry s)) = oc (unat s)"
  by (simp add: unat_fold_carry oc_carry)

lemma fold_carry_small: "unat (fold_carry s) < 131072"
proof -
  have "unat s div 65536 < 65536" using unat_lt_u32 [of s] by (simp add: div_less_iff_less_mult)
  then show ?thesis using mod_less_divisor [of 65536 "unat s"] by (simp add: unat_fold_carry)
qed

lemma fold_carry_twice: "unat (fold_carry (fold_carry s)) = oc (unat s)"
proof -
  have "unat (fold_carry s) \<le> 65535 + unat s div 65536" "unat s div 65536 < 65536"
    using unat_lt_u32 [of s] mod_less_divisor [of 65536 "unat s"] by (simp_all add: unat_fold_carry div_less_iff_less_mult)
  then have le: "unat (fold_carry s) < 65536 + 65535" by linarith
  have "unat (fold_carry s) mod 65536 + unat (fold_carry s) div 65536 \<le> 65535"
  proof (cases "unat (fold_carry s) < 65536")
    case False
    then obtain d where d: "unat (fold_carry s) = 65536 + d" by (metis le_iff_add not_less)
    with le have "d < 65535" by simp
    then have "(65536 + d) mod 65536 = d" "(65536 + d) div 65536 = 1" by simp_all
    then show ?thesis using d \<open>d < 65535\<close> by simp
  qed simp
  then show ?thesis using oc_bounds(3) oc_fold_carry [of "fold_carry s"] oc_fold_carry [of s] by (simp add: unat_fold_carry)
qed

lemma wsum_bound: "wsum bs \<le> 65535 * ((length bs + 1) div 2)"
proof (induction bs rule: wsum.induct)
  case (2 a)
  then show ?case using unat_u8 [of a] by simp
next
  case (3 a b bs)
  then show ?case using unat_u8 [of a] unat_u8 [of b] by simp
qed simp

lemma wsum_split: "even n \<Longrightarrow> n \<le> length bs \<Longrightarrow> wsum bs = wsum (take n bs) + wsum (drop n bs)"
proof (induction bs arbitrary: n rule: wsum.induct)
  case (3 a b bs)
  show ?case
  proof (cases "n = 0")
    case False
    with 3(2) obtain m where "n = Suc (Suc m)" "even m" by (metis even_Suc nat.exhaust odd_Suc_minus_one)
    with 3 show ?thesis by simp
  qed simp
qed (auto simp: le_Suc_eq)

lemma unat_wire_word: "2 * k + 1 < length p \<Longrightarrow> unat (wire_word p k) = wsum (take 2 (drop (2 * k) p))"
proof -
  assume "2 * k + 1 < length p"
  then have t: "take 2 (drop (2 * k) p) = [p ! (2 * k), p ! (2 * k + 1)]"
    by (simp add: numeral_2_eq_2 take_Suc_conv_app_nth)
  show ?thesis unfolding wire_word_def ld16_def t using unat_le_word2 [of "p ! (2 * k)" "p ! (2 * k + 1)"] unsigned_less [of "le_word [p ! (2 * k), p ! (2 * k + 1)] :: u16", where 'a = nat]
    by (simp add: unsigned_ucast_eq take_bit_nat_def del: le_word.simps)
qed

lemma add_words_sum:
  assumes "length p = len" "unat s + wsum p < 2 ^ 32" "add_words len p s = (l, q, s')"
  shows "l = length q \<and> l \<le> 1 \<and> unat s' + wsum q = unat s + wsum p"
  using assms
proof (induction len p s arbitrary: l q s' rule: add_words.induct)
  case (1 len p s)
  show ?case
  proof (cases "1 < len")
    case True
    then have w: "unat (wire_word p 0) + wsum (drop 2 p) = wsum p"
      using 1(2) wsum_split [of 2 p] unat_wire_word [of 0 p] by simp
    moreover from this 1(3) have "unat (s + wire_word p 0) = unat s + unat (wire_word p 0)" by (simp add: unat_word_ariths)
    ultimately show ?thesis using True 1(1) [OF True, of l q s'] 1(2-4) by (simp add: add_words.simps [of len])
  next
    case False
    then show ?thesis using 1 by (simp add: add_words.simps [of len])
  qed
qed

lemma add_block_prefix:
  "2 * n \<le> length p \<Longrightarrow> unat s + wsum (take (2 * n) p) < 2 ^ 32 \<Longrightarrow>
    unat (fold (\<lambda>k s. s + wire_word p k) [0..<n] s) = unat s + wsum (take (2 * n) p)"
proof (induction n)
  case (Suc n)
  have "wsum (take (2 * Suc n) p) = wsum (take (2 * n) p) + unat (wire_word p n)"
    using wsum_split [of "2 * n" "take (2 * Suc n) p"] unat_wire_word [of n p] Suc(2) by (simp add: min_def drop_take)
  with Suc show ?case by (simp add: unat_word_ariths)
qed simp

lemma add_blocks_sum:
  assumes "n \<le> length p" "32 dvd n" "unat s + wsum (take n p) < 2 ^ 32"
  shows "\<exists>s'. add_blocks n p s = (drop n p, s') \<and> unat s' = unat s + wsum (take n p)"
  using assms
proof (induction n p s rule: add_blocks.induct)
  case (1 n p s)
  show ?case
  proof (cases "32 \<le> n")
    case True
    then have w: "wsum (take n p) = wsum (take 32 p) + wsum (take (n - 32) (drop 32 p))"
      using wsum_split [of 32 "take n p"] 1(2) by (simp add: min_def drop_take)
    have b: "unat (add_block p s) = unat s + wsum (take 32 p)"
      using add_block_prefix [of 16 p s] 1(2,4) True w by (simp add: add_block_def)
    have "32 dvd n - 32" using 1(3) by (rule dvd_diff_nat) simp
    then obtain s' where "add_blocks (n - 32) (drop 32 p) (add_block p s) = (drop (n - 32) (drop 32 p), s')"
      "unat s' = unat (add_block p s) + wsum (take (n - 32) (drop 32 p))"
      using 1(1) [OF True] 1(2,4) b w diff_le_mono [OF 1(2), of 32] by auto
    then show ?thesis using True b w by (simp add: add_blocks.simps [of n])
  next
    case False
    with 1(3) have "n = 0" using dvd_imp_le by force
    then show ?thesis by (simp add: add_blocks.simps)
  qed
qed

lemma chunk_size_facts: "32 \<le> len \<Longrightarrow> chunk_size len \<le> len \<and> chunk_size len \<le> 65536 \<and> 32 dvd chunk_size len"
  by (auto simp: chunk_size_def dvd_minus_mod)

lemma add_chunks_sum:
  assumes "length p = len" "unat s < 262144" "add_chunks len p s = (l, q, s')"
  shows "l = length q \<and> l < 32 \<and> unat s' < 262144 \<and> oc (unat s' + wsum q) = oc (unat s + wsum p)"
  using assms
proof (induction len p s arbitrary: l q s' rule: add_chunks.induct)
  case (1 len p s)
  show ?case
  proof (cases "32 \<le> len")
    case True
    let ?n = "chunk_size len"
    have n: "?n \<le> len" "?n \<le> 65536" "32 dvd ?n" using chunk_size_facts [OF True] by auto
    have "wsum (take ?n p) \<le> 65535 * 32768"
      using wsum_bound [of "take ?n p"] n 1(2) by (intro order_trans [OF wsum_bound] mult_le_mono2) simp
    then obtain s1 where s1: "add_blocks ?n p s = (drop ?n p, s1)" "unat s1 = unat s + wsum (take ?n p)"
      using add_blocks_sum [of ?n p s] n 1(2,3) by auto
    have "even ?n" using n(3) by (rule dvd_trans [rotated]) simp
    then have w: "wsum p = wsum (take ?n p) + wsum (drop ?n p)" using n(1) 1(2) by (intro wsum_split) simp_all
    have r: "add_chunks (len - ?n) (drop ?n p) (fold_carry s1) = (l, q, s')"
      using 1(4) True s1(1) by (simp add: add_chunks.simps [of len])
    have "l = length q \<and> l < 32 \<and> unat s' < 262144 \<and> oc (unat s' + wsum q) = oc (unat (fold_carry s1) + wsum (drop ?n p))"
      using 1(1) [OF True s1(1) [symmetric] refl _ _ r] 1(2) fold_carry_small [of s1] by simp
    then show ?thesis using oc_add [OF oc_fold_carry [of s1], of "wsum (drop ?n p)"] s1(2) w by (simp add: add.assoc)
  next
    case False
    then show ?thesis using 1 by (simp add: add_chunks.simps [of len])
  qed
qed

lemma add_tail_sum: "length q \<le> 1 \<Longrightarrow> unat s + wsum q < 2 ^ 32 \<Longrightarrow> unat (add_tail (length q) q s) = unat s + wsum q"
proof (cases q)
  case (Cons a r)
  assume "length q \<le> 1" "unat s + wsum q < 2 ^ 32"
  with Cons have "q = [a]" "unat s + unat a < 2 ^ 32" by auto
  moreover have "unat (ucast a :: u32) = unat a" using unat_u8 [of a] by (simp add: unsigned_ucast_eq take_bit_nat_def)
  ultimately show ?thesis by (simp add: add_tail_def unat_word_ariths)
qed (simp add: add_tail_def)

lemma loops_sum:
  assumes "unat s < 262144" "add_chunks (length p) p s = (l2, p2, s2)" "add_words l2 p2 s2 = (l3, p3, s3)"
  shows "unat (fold_carry (fold_carry (add_tail l3 p3 s3))) = oc (unat s + wsum p)"
proof -
  have c: "l2 = length p2" "length p2 < 32" "unat s2 < 262144" "oc (unat s2 + wsum p2) = oc (unat s + wsum p)"
    using add_chunks_sum [OF refl assms(1,2)] by auto
  have "(length p2 + 1) div 2 \<le> 16" using c(2) by simp
  then have "65535 * ((length p2 + 1) div 2) \<le> 65535 * 16" by (rule mult_le_mono2)
  with wsum_bound [of p2] have "wsum p2 \<le> 65535 * 16" by (rule order_trans)
  with c(3) have small: "unat s2 + wsum p2 < 2 ^ 32" by simp
  with add_words_sum [OF _ _ assms(3)] c(1) have w: "l3 = length p3" "l3 \<le> 1" "unat s3 + wsum p3 = unat s2 + wsum p2" by auto
  with small add_tail_sum [of p3 s3] have "unat (add_tail l3 p3 s3) = unat s2 + wsum p2" by simp
  with c(4) show ?thesis by (simp add: fold_carry_twice)
qed

lemma unat_swap_low_bytes: "unat s \<le> 65535 \<Longrightarrow> unat (swap_low_bytes s) = oc (256 * unat s)"
proof -
  assume s: "unat s \<le> 65535"
  have m: "unat (x AND 0xFF) = unat x mod 256" for x :: u32
    using take_bit_eq_mask [of 8 x] unsigned_take_bit_eq [of 8 x, where 'a = nat] by (simp add: byte_masks and.commute take_bit_nat_def)
  have d: "unat (drop_bit 8 s) = unat s div 256" using drop_bit_eq_div [of 8 "unat s"] by (simp add: unat_drop_bit_eq)
  have "unat s div 256 < 256" "unat s mod 256 < 256" using s by (simp_all add: div_less_iff_less_mult)
  moreover have "swap_low_bytes s = push_bit 8 (s AND 0xFF) + (drop_bit 8 s AND 0xFF)"
    unfolding swap_low_bytes_def by (subst disjunctive_add) (auto simp: byte_masks bit_simps)
  ultimately have "unat (swap_low_bytes s) = unat s mod 256 * 256 + unat s div 256"
    by (simp add: unat_word_ariths push_bit_eq_mult m d)
  then show ?thesis using oc_swap_bytes [OF s] by simp
qed

lemma wsum_shift: "(256 * wsum bs + unat a) mod 65535 = wsum (a # bs) mod 65535"
proof (induction bs arbitrary: a rule: wsum.induct)
  case (3 b c bs)
  have "256 * wsum (b # c # bs) + unat a = 65535 * unat c + (256 * unat b + unat a + (256 * wsum bs + unat c))" by simp
  then have "(256 * wsum (b # c # bs) + unat a) mod 65535 = (256 * unat b + unat a + (256 * wsum bs + unat c)) mod 65535"
    by (metis mod_mult_self4)
  also have "\<dots> = (256 * unat b + unat a + wsum (c # bs)) mod 65535" by (rule mod_add_cong [OF refl 3])
  finally show ?case by (simp add: algebra_simps)
qed (simp_all add: add.commute)

lemma wsum_zero_shift: "256 * wsum bs + unat a = 0 \<longleftrightarrow> wsum (a # bs) = 0"
  by (induction bs arbitrary: a rule: wsum.induct) auto

text \<open>What the routine returns, as a sum: the complement of the sum of the words and the initial
  sum, or, at an odd address, of 256 times the sum of the words taken one byte later.\<close>

lemma unat_not_ucast: "(ucast (NOT s :: u32) :: u16) = NOT (of_nat (unat s))"
proof -
  have "(ucast (NOT s) :: u16) = NOT (ucast s)" by (rule bit_word_eqI) (auto simp: bit_simps)
  then show ?thesis by simp
qed

lemma compute_checksum_sum:
  "compute_checksum False bytes init = NOT (of_nat (oc (unat init + wsum bytes)))"
  "compute_checksum True (a # bytes) init = NOT (of_nat (oc (256 * (unat init + 256 * unat a + wsum bytes))))"
proof -
  let ?s0 = "fold_carry (fold_carry init)"
  obtain l2 p2 s2 l3 p3 s3 where r: "add_chunks (length bytes) bytes ?s0 = (l2, p2, s2)" "add_words l2 p2 s2 = (l3, p3, s3)"
    by (metis prod_cases3)
  have "unat ?s0 = oc (unat init)" by (rule fold_carry_twice)
  moreover from this have s0: "unat ?s0 \<le> 65535" using oc_bounds(1) by simp
  ultimately have u: "unat (fold_carry (fold_carry (add_tail l3 p3 s3))) = oc (unat init + wsum bytes)"
    using loops_sum [OF _ r] oc_add [of "unat ?s0" "unat init" "wsum bytes"] by (simp add: oc_oc)
  then show "compute_checksum False bytes init = NOT (of_nat (oc (unat init + wsum bytes)))"
    using r unat_not_ucast [of "fold_carry (fold_carry (add_tail l3 p3 s3))"] oc_bounds(1) [of "unat init + wsum bytes"]
    by (simp add: compute_checksum_def Let_def)
  let ?s1 = "?s0 + push_bit 8 (ucast a)"
  have "unat (ucast a :: u32) = unat a" using unat_u8 [of a] by (simp add: unsigned_ucast_eq take_bit_nat_def)
  then have s1: "unat ?s1 = unat ?s0 + 256 * unat a" using s0 unat_u8 [of a] by (simp add: unat_word_ariths push_bit_eq_mult)
  obtain m2 q2 t2 m3 q3 t3 where r': "add_chunks (length bytes) bytes ?s1 = (m2, q2, t2)" "add_words m2 q2 t2 = (m3, q3, t3)"
    by (metis prod_cases3)
  have "unat ?s1 < 262144" using s0 s1 unat_u8 [of a] by simp
  note v = loops_sum [OF this r']
  let ?s5 = "fold_carry (fold_carry (add_tail m3 q3 t3))"
  have "oc (unat ?s1 + wsum bytes) = oc (unat init + (256 * unat a + wsum bytes))"
    using oc_add [of "unat ?s0" "unat init" "256 * unat a + wsum bytes"] \<open>unat ?s0 = oc (unat init)\<close>
    by (simp add: s1 oc_oc add.assoc)
  with v have v': "unat ?s5 = oc (unat init + 256 * unat a + wsum bytes)" by (simp add: add.assoc)
  have "unat (swap_low_bytes ?s5) = oc (256 * unat ?s5)" using v' oc_bounds(1) by (intro unat_swap_low_bytes) simp
  also have "\<dots> = oc (256 * (unat init + 256 * unat a + wsum bytes))"
    unfolding v' oc_eq_iff using mod_mult_cong [OF refl oc_mod] oc_bounds(2) by auto
  finally show "compute_checksum True (a # bytes) init = NOT (of_nat (oc (256 * (unat init + 256 * unat a + wsum bytes))))"
    using r' unat_not_ucast [of "swap_low_bytes ?s5"] oc_bounds(1)
    by (simp add: compute_checksum_def Let_def)
qed

lemma of_nat_oc: "of_nat (oc (unat (a :: u16) + unat (b :: u16))) = ones_add a b" "of_nat (oc (wsum bs)) = ones_sum bs"
  by (simp_all flip: unat_ones_add unat_ones_sum)


lemma rfc1071_sum: "rfc1071 bytes init = NOT (of_nat (oc (unat init + wsum bytes)))"
proof -
  have "unat (ucast init :: u16) = unat init mod 65536" by (simp add: unsigned_ucast_eq take_bit_nat_def)
  moreover have "unat (ucast (drop_bit 16 init) :: u16) = unat init div 65536"
    using unat_lt_u32 [of init] drop_bit_eq_div [of 16 "unat init"]
    by (simp add: unsigned_ucast_eq take_bit_nat_def unat_drop_bit_eq div_less_iff_less_mult)
  ultimately have h: "unat (ones_add (ucast init) (ucast (drop_bit 16 init))) = oc (unat init)"
    by (simp add: unat_ones_add oc_carry)
  have "oc (oc (unat init) + oc (wsum bytes)) = oc (unat init + wsum bytes)"
    using oc_add [of "oc (unat init)" "unat init" "oc (wsum bytes)"] oc_add [of "oc (wsum bytes)" "wsum bytes" "unat init"]
    by (simp add: oc_oc add.commute)
  then have "unat (ones_add (ones_add (ucast init) (ucast (drop_bit 16 init))) (ones_sum bytes)) = oc (unat init + wsum bytes)"
    by (simp add: unat_ones_add [of "ones_add _ _"] h unat_ones_sum)
  then have "ones_add (ones_add (ucast init) (ucast (drop_bit 16 init))) (ones_sum bytes) = of_nat (oc (unat init + wsum bytes))"
    by (metis of_nat_unat ucast_id)
  then show ?thesis by (simp add: rfc1071_def)
qed

lemma checksum_unaligned: "compute_checksum True bytes 0 = compute_checksum False bytes 0"
proof (cases bytes)
  case Nil
  then show ?thesis by (simp add: compute_checksum_def add_chunks.simps add_words.simps add_tail_def fold_carry_def swap_low_bytes_def)
next
  case (Cons a bs)
  have "256 * (256 * unat a + wsum bs) = 65535 * unat a + (256 * wsum bs + unat a)" by simp
  then have "256 * (256 * unat a + wsum bs) mod 65535 = wsum (a # bs) mod 65535"
    using wsum_shift [of bs a] by (metis mod_mult_self4)
  moreover have "256 * (256 * unat a + wsum bs) = 0 \<longleftrightarrow> wsum (a # bs) = 0" using wsum_zero_shift [of bs a] by auto
  ultimately have "oc (256 * (256 * unat a + wsum bs)) = oc (wsum (a # bs))" by (simp only: oc_eq_iff)
  then show ?thesis unfolding Cons compute_checksum_sum by simp
qed

lemma unat_not_u16: "unat (NOT w :: u16) = 65535 - unat w"
proof -
  have "NOT w = 0xFFFF - w" by (simp add: not_eq_complement)
  moreover have "w \<le> 0xFFFF" using unsigned_less [of w, where 'a = nat] by (simp add: word_le_nat_alt)
  ultimately show ?thesis by (simp add: unat_sub)
qed

text \<open>Filling the checksum into a zero field at an even position makes the sum that of a valid packet.\<close>

lemma wsum_fill:
  assumes "even i" "i + 2 \<le> length bytes"
  shows "wsum (take i bytes @ le_bytes 2 v @ drop (i + 2) bytes) + wsum (take 2 (drop i bytes)) = wsum bytes + unat (v :: u16)"
proof -
  have "unat v = wsum (le_bytes 2 v)"
    using unat_le_word2 [of "le_bytes 2 v ! 0" "le_bytes 2 v ! 1"] le_word_bytes [of 2 v] by (simp add: numeral_2_eq_2)
  moreover have "wsum (take i bytes @ le_bytes 2 v @ drop (i + 2) bytes) = wsum (take i bytes) + (wsum (le_bytes 2 v) + wsum (drop (i + 2) bytes))"
    using wsum_split [of i "take i bytes @ le_bytes 2 v @ drop (i + 2) bytes"] wsum_split [of 2 "le_bytes 2 v @ drop (i + 2) bytes"] assms
    by (simp add: min_def)
  moreover have "wsum bytes = wsum (take i bytes) + (wsum (take 2 (drop i bytes)) + wsum (drop (i + 2) bytes))"
    using wsum_split [of i bytes] wsum_split [of 2 "drop i bytes"] assms by (simp add: add.commute)
  ultimately show ?thesis by simp
qed

lemma checksum_filled:
  assumes "even i" "i + 2 \<le> length bytes" "take 2 (drop i bytes) = [0, 0]"
  shows "compute_checksum u (take i bytes @ le_bytes 2 (compute_checksum v bytes 0) @ drop (i + 2) bytes) 0 = 0"
proof -
  have al: "compute_checksum w xs 0 = NOT (of_nat (oc (wsum xs)))" for w xs
    using checksum_unaligned [of xs] compute_checksum_sum(1) [of xs 0] by (cases w) simp_all
  let ?c = "compute_checksum v bytes 0"
  have "unat (of_nat (oc (wsum bytes)) :: u16) = oc (wsum bytes)" using oc_bounds(1) [of "wsum bytes"]
    by (simp add: unat_of_nat take_bit_nat_def)
  then have c: "unat ?c = 65535 - oc (wsum bytes)" by (simp add: al unat_not_u16)
  have w: "wsum (take i bytes @ le_bytes 2 ?c @ drop (i + 2) bytes) = wsum bytes + (65535 - oc (wsum bytes))" (is "wsum ?b = _")
    using wsum_fill [OF assms(1,2), of ?c] c assms(3) by simp
  have "oc (oc (wsum bytes) + (65535 - oc (wsum bytes))) = 65535" using oc_bounds(1) [of "wsum bytes"] by (simp add: oc_def)
  then have "oc (wsum ?b) = 65535" using oc_add [OF oc_oc, of "wsum bytes" "65535 - oc (wsum bytes)"] w by simp
  then show ?thesis by (simp add: al)
qed

subsection \<open>Properties\<close>

text \<open>(C21) The unrolled checksum is the Internet checksum of RFC 1071 for data of any length: at an
  even address with any initial sum, and at an odd address with initial sum zero.\<close>

theorem checksum_is_rfc1071:
  assumes "\<not> is_unaligned \<or> initial_sum = 0"
  shows "compute_checksum is_unaligned bytes initial_sum = rfc1071 bytes initial_sum"
  using assms checksum_unaligned [of bytes] by (cases is_unaligned) (auto simp: rfc1071_sum compute_checksum_sum(1))

theorem checksum_is_rfc1071_witness: "compute_checksum True [1, 2, 3] 0 = rfc1071 [1, 2, 3] 0"
  using checksum_is_rfc1071 [of True 0 "[1, 2, 3]"] by simp

text \<open>A packet whose checksum field, at an even position, is filled with the checksum computed
  while the field was zero verifies: its own checksum is zero.\<close>

theorem checksum_verifies:
  assumes "even i" "i + 2 \<le> length bytes" "take 2 (drop i bytes) = [0, 0]"
  shows "compute_checksum u (take i bytes @ le_bytes 2 (compute_checksum v bytes 0) @ drop (i + 2) bytes) 0 = 0"
  by (rule checksum_filled [OF assms])

theorem checksum_verifies_witness:
  "compute_checksum False (take 2 [1, 2, 0, 0, 5] @ le_bytes 2 (compute_checksum False [1, 2, 0, 0, 5] 0) @ drop (2 + 2) [1, 2, 0, 0, 5]) 0 = 0"
  by (rule checksum_verifies) simp_all

text \<open>At an odd address the initial sum is folded in before the final byte swap, which swaps it
  as well: the checksum of a packet with a pseudo-header sum is that of the swapped sum.\<close>

lemma checksum_odd_swaps_initial:
  "\<exists>bytes initial_sum. compute_checksum True bytes initial_sum \<noteq> rfc1071 bytes initial_sum"
proof -
  have "compute_checksum True [0] 1 \<noteq> rfc1071 [0] 1"
    using compute_checksum_sum(2) [of 0 "[]" 1] by (simp add: rfc1071_sum oc_def)
  then show ?thesis by blast
qed

text \<open>The two builds of the header translation agree on every header, and translating twice
  gives the header back.\<close>

lemma translate_header_builds_agree:
  assumes "length h = 16"
  shows "translate_header_simd h = translate_header_scalar h \<and> translate_header_simd (translate_header_simd h) = h"
proof -
  have "length (translate_header_simd h) = 16" using assms by (simp add: shuffle_reverses)
  then show ?thesis using assms by (simp add: shuffle_reverses scalar_reverses)
qed

end
