(* ===== verification/Reassembly_Spec.thy ===== *)
theory Reassembly_Spec
  imports Range_Mask Wire
begin

section \<open>The contract of a datagram reassembler\<close>

text \<open>
  What the IPv4 and the IPv6 defragmenter promise about one datagram. The abstract state is the set
  of bytes received so far, as a partial map, and the length of the datagram once its last fragment
  is known. The locale states what a step of an implementation does with a fragment that overlaps
  nothing; the lemma proved from it says that the fragments of a payload, in whatever order they
  come, deliver the payload with the last of them and nothing before.
\<close>

subsection \<open>Counting received bytes\<close>

text \<open>A mask of received bytes, the end \<open>h\<close> of the highest of them and their number \<open>c\<close>.\<close>

definition counted :: "mask \<Rightarrow> nat \<Rightarrow> nat \<Rightarrow> bool" where
  "counted m h c \<longleftrightarrow> length m = 1024 \<and> present m \<subseteq> {..<h} \<and> h \<le> 65535 \<and> (h \<noteq> 0 \<longrightarrow> h - 1 \<in> present m) \<and> card (present m) = c"

lemma counted_empty: "counted (replicate 1024 0) 0 0"
  by (simp add: counted_def)

lemma counted_add:
  assumes "counted m h c" and p: "0 < len" "off + len \<le> 65535" and disj: "present m \<inter> {off..<off + len} = {}"
  shows "counted (range_set off len m) (max h (off + len)) (c + len)" "c + len \<le> 65535"
    "present (range_set off len m) = present m \<union> {off..<off + len}"
proof -
  let ?P = "present m" and ?R = "{off..<off + len}"
  have len: "length m = 1024" and sub: "?P \<subseteq> {..<h}" and h: "h \<le> 65535" and card: "card ?P = c" and top: "h \<noteq> 0 \<Longrightarrow> h - 1 \<in> ?P"
    using assms(1) by (auto simp: counted_def)
  show pr: "present (range_set off len m) = ?P \<union> ?R" using p len by (intro present_range_set) simp_all
  have fin: "finite ?P" using sub finite_subset by blast
  have c: "card (?P \<union> ?R) = c + len" using card_Un_disjoint [OF fin _ disj] card by simp
  have s1: "?P \<union> ?R \<subseteq> {..<max h (off + len)}" using sub by auto
  have "card (?P \<union> ?R) \<le> max h (off + len)" using card_mono [OF finite_lessThan s1] by simp
  then show "c + len \<le> 65535" using c h p(2) by linarith
  have "max h (off + len) - 1 \<in> ?P \<union> ?R"
  proof (cases "h \<le> off + len")
    case True
    then show ?thesis using p(1) by (auto simp: max_def)
  next
    case False
    then have "h \<noteq> 0" by simp
    with False top show ?thesis by (simp add: max_def)
  qed
  then show "counted (range_set off len m) (max h (off + len)) (c + len)" unfolding counted_def pr using s1 c h p(2) len by simp
qed

lemma counted_complete:
  assumes "counted m h c"
  shows "0 < n \<and> c = n \<and> h = n \<longleftrightarrow> 0 < n \<and> present m = {..<n}"
proof -
  have P: "present m \<subseteq> {..<h}" "card (present m) = c" "h \<noteq> 0 \<longrightarrow> h - 1 \<in> present m" using assms by (auto simp: counted_def)
  have "present m = {..<n}" if "c = n" "h = n" using that P(1,2) card_subset_eq [of "{..<n}" "present m"] by simp
  moreover have "c = n \<and> h = n" if "0 < n" "present m = {..<n}"
  proof
    show "c = n" using that P(2) by simp
    have "n - 1 \<in> {..<h}" using that P(1) by auto
    moreover have "h - 1 < n" using that P(3) by (cases "h = 0") auto
    ultimately show "h = n" by simp
  qed
  ultimately show ?thesis by blast
qed

text \<open>The bytes a mask and a buffer hold, as an abstract datagram.\<close>

definition received :: "mask \<Rightarrow> memory \<Rightarrow> nat \<rightharpoonup> u8" where
  "received m buf = (\<lambda>i. if i \<in> present m then Some (buf i) else None)"

lemma dom_received [simp]: "dom (received m buf) = present m"
  by (auto simp: received_def split: if_splits)

subsection \<open>Datagrams\<close>

text \<open>A fragment: its offset, its bytes, and whether more fragments follow.\<close>

type_synonym fragment = "nat \<times> u8 list \<times> bool"

type_synonym datagram = "(nat \<rightharpoonup> u8) \<times> nat"

definition frag_range :: "fragment \<Rightarrow> nat set" where
  "frag_range f = (case f of (off, bs, mf) \<Rightarrow> {off..<off + length bs})"

definition add_frag :: "fragment \<Rightarrow> datagram \<Rightarrow> datagram" where
  "add_frag f d = (case f of (off, bs, mf) \<Rightarrow> case d of (m, n) \<Rightarrow>
     (\<lambda>i. if off \<le> i \<and> i < off + length bs then Some (bs ! (i - off)) else m i, if mf then n else off + length bs))"

definition complete :: "datagram \<Rightarrow> bool" where
  "complete d = (case d of (m, n) \<Rightarrow> 0 < n \<and> dom m = {..<n})"

definition datagram_bytes :: "datagram \<Rightarrow> u8 list" where
  "datagram_bytes d = (case d of (m, n) \<Rightarrow> map (\<lambda>i. the (m i)) [0..<n])"

lemma complete_received: "complete (received m buf, n) \<longleftrightarrow> 0 < n \<and> present m = {..<n}"
  by (simp add: complete_def)

lemma received_bytes: "complete (received m buf, n) \<Longrightarrow> datagram_bytes (received m buf, n) = map buf [0..<n]"
  unfolding complete_received by (simp add: datagram_bytes_def received_def)

lemma received_add:
  assumes "present m' = present m \<union> {off..<off + length p}"
  shows "add_frag (off, p, mf) (received m buf, n) = (received m' (put_bytes buf off p), if mf then n else off + length p)"
  using assms by (auto simp: add_frag_def received_def put_bytes_def fun_eq_iff)

text \<open>A fragment of the payload \<open>P\<close>: a slice of it, the last one marked so.\<close>

definition frag_of :: "u8 list \<Rightarrow> fragment \<Rightarrow> bool" where
  "frag_of P f = (case f of (off, bs, mf) \<Rightarrow> bs \<noteq> [] \<and> off + length bs \<le> length P \<and> bs = take (length bs) (drop off P)
     \<and> (mf \<longleftrightarrow> off + length bs < length P))"

text \<open>The fragments of a payload, in any order: slices that do not overlap and cover it.\<close>

definition fragmentation :: "u8 list \<Rightarrow> fragment list \<Rightarrow> bool" where
  "fragmentation P fs \<longleftrightarrow> (\<forall>f\<in>set fs. frag_of P f) \<and> sorted_wrt (\<lambda>f g. frag_range f \<inter> frag_range g = {}) fs
     \<and> (\<Union>f\<in>set fs. frag_range f) = {..<length P}"

lemma frag_range_nonempty: "frag_of P f \<Longrightarrow> frag_range f \<noteq> {}"
  by (auto simp: frag_of_def frag_range_def split: prod.splits)

text \<open>What part of the payload a state holds after some of its fragments.\<close>

definition holds :: "u8 list \<Rightarrow> fragment set \<Rightarrow> datagram \<Rightarrow> bool" where
  "holds P F d = (case d of (m, n) \<Rightarrow> m = (\<lambda>i. if i \<in> (\<Union>f\<in>F. frag_range f) then Some (P ! i) else None)
     \<and> n = (if \<exists>(off, bs, mf)\<in>F. \<not> mf then length P else 0))"

lemma holds_add:
  assumes "holds P F d" "frag_of P f"
  shows "holds P (insert f F) (add_frag f d)"
proof -
  obtain off bs mf where f: "f = (off, bs, mf)" by (cases f)
  obtain m n where d: "d = (m, n)" by (cases d)
  have bs: "bs = take (length bs) (drop off P)" "off + length bs \<le> length P" "mf \<longleftrightarrow> off + length bs < length P"
    using assms(2) by (simp_all add: frag_of_def f)
  have "bs ! (i - off) = P ! i" if "off \<le> i" "i < off + length bs" for i
  proof -
    have "bs ! (i - off) = take (length bs) (drop off P) ! (i - off)" using bs(1) by simp
    with that bs(2) show ?thesis by simp
  qed
  then show ?thesis using assms(1) bs(2,3) by (auto simp: holds_def add_frag_def f d frag_range_def fun_eq_iff)
qed

lemma holds_complete:
  assumes "holds P F d" "complete d"
  shows "(\<Union>f\<in>F. frag_range f) = {..<length P} \<and> datagram_bytes d = P"
proof -
  obtain m n where d: "d = (m, n)" by (cases d)
  let ?U = "\<Union>f\<in>F. frag_range f"
  have m: "m = (\<lambda>i. if i \<in> ?U then Some (P ! i) else None)" and n: "n = length P" and dom: "dom m = {..<n}"
    using assms by (auto simp: holds_def complete_def d split: if_splits)
  have "dom m = ?U" unfolding m by (auto simp: dom_def)
  with dom have U: "?U = {..<length P}" by (simp add: n)
  then have "map (\<lambda>i. the (m i)) [0..<n] = P" unfolding m by (intro nth_equalityI) (simp_all add: n)
  with U show ?thesis by (simp add: datagram_bytes_def d)
qed

lemma holds_last:
  assumes "holds P F d" "(\<Union>f\<in>F. frag_range f) = {..<length P}" "\<forall>f\<in>F. frag_of P f" "P \<noteq> []"
  shows "complete d"
proof -
  have "length P - 1 \<in> (\<Union>f\<in>F. frag_range f)" unfolding assms(2) using assms(4) by simp
  then obtain off bs mf where f: "(off, bs, mf) \<in> F" "length P - 1 \<in> frag_range (off, bs, mf)" by auto
  have "frag_of P (off, bs, mf)" using assms(3) f(1) by blast
  with f(2) have "\<not> mf" by (simp add: frag_of_def frag_range_def) linarith
  with f(1) have "\<exists>(off, bs, mf)\<in>F. \<not> mf" by blast
  then have n: "snd d = length P" and m: "fst d = (\<lambda>i. if i \<in> (\<Union>f\<in>F. frag_range f) then Some (P ! i) else None)"
    using assms(1) by (simp_all add: holds_def split: prod.splits)
  have "dom (fst d) = {..<length P}" unfolding m assms(2) [symmetric] by (auto simp: dom_def)
  then show ?thesis using n assms(4) by (cases d) (simp add: complete_def)
qed

locale reassembler =
  fixes step :: "'f \<Rightarrow> 's \<Rightarrow> 'o option \<times> 's"
    and decode :: "'f \<Rightarrow> fragment"
    and fits :: "'f \<Rightarrow> bool"
    and inv :: "'s \<Rightarrow> bool"
    and abs :: "'s \<Rightarrow> datagram"
    and delivers :: "'o \<Rightarrow> u8 list \<Rightarrow> bool"
  assumes step_completes: "inv s \<Longrightarrow> fits f \<Longrightarrow> frag_range (decode f) \<inter> dom (fst (abs s)) = {}
      \<Longrightarrow> complete (add_frag (decode f) (abs s))
      \<Longrightarrow> \<exists>out s'. step f s = (Some out, s') \<and> delivers out (datagram_bytes (add_frag (decode f) (abs s)))"
    and step_adds: "inv s \<Longrightarrow> fits f \<Longrightarrow> frag_range (decode f) \<inter> dom (fst (abs s)) = {}
      \<Longrightarrow> \<not> complete (add_frag (decode f) (abs s))
      \<Longrightarrow> \<exists>s'. step f s = (None, s') \<and> inv s' \<and> abs s' = add_frag (decode f) (abs s)"
begin

fun run :: "'f list \<Rightarrow> 's \<Rightarrow> 'o option list \<times> 's" where
  "run [] s = ([], s)"
| "run (f # fs) s = (let (r, s1) = step f s; (rs, s2) = run fs s1 in (r # rs, s2))"

lemma run_delivers:
  assumes "inv s" "\<forall>f\<in>set fs. fits f" "fs \<noteq> []"
    and "holds P F (abs s)" "\<forall>f\<in>F. frag_of P f" "\<forall>f\<in>set fs. frag_of P (decode f)"
    and "\<forall>f\<in>F. \<forall>g\<in>set fs. frag_range f \<inter> frag_range (decode g) = {}"
    and "sorted_wrt (\<lambda>f g. frag_range (decode f) \<inter> frag_range (decode g) = {}) fs"
    and "(\<Union>f\<in>F \<union> decode ` set fs. frag_range f) = {..<length P}"
  shows "\<exists>out s'. run fs s = (replicate (length fs - 1) None @ [Some out], s') \<and> delivers out P"
  using assms
proof (induction fs arbitrary: s F)
  case (Cons f fs)
  let ?d = "add_frag (decode f) (abs s)"
  have h: "holds P (insert (decode f) F) ?d" using Cons.prems(4,6) by (intro holds_add) auto
  have dom: "dom (fst (abs s)) = (\<Union>f\<in>F. frag_range f)" using Cons.prems(4) by (auto simp: holds_def dom_def split: prod.splits)
  have disj: "frag_range (decode f) \<inter> dom (fst (abs s)) = {}" unfolding dom using Cons.prems(7) by auto
  have ok: "\<forall>g\<in>insert (decode f) F. frag_of P g" using Cons.prems(5,6) by auto
  show ?case
  proof (cases "fs = []")
    case True
    have "P \<noteq> []" using Cons.prems(9) frag_range_nonempty [of P "decode f"] Cons.prems(6) by auto
    have "complete ?d" using holds_last [OF h _ ok \<open>P \<noteq> []\<close>] Cons.prems(9) True by (simp add: Un_commute)
    moreover from this holds_complete [OF h] have "datagram_bytes ?d = P" by simp
    ultimately show ?thesis using step_completes [OF Cons.prems(1) _ disj] Cons.prems(2) True by fastforce
  next
    case False
    then obtain g where g: "g \<in> set fs" by (cases fs) auto
    have "frag_range (decode g) \<inter> (\<Union>f\<in>insert (decode f) F. frag_range f) = {}" using Cons.prems(7,8) g by auto
    moreover have "frag_range (decode g) \<noteq> {}" "frag_range (decode g) \<subseteq> {..<length P}"
      using Cons.prems(6,9) g frag_range_nonempty [of P "decode g"] by auto
    ultimately have "\<not> complete ?d" using holds_complete [OF h] by blast
    then obtain s1 where s1: "step f s = (None, s1)" "inv s1" "abs s1 = ?d"
      using step_adds [OF Cons.prems(1) _ disj] Cons.prems(2) by auto
    have "\<exists>out s'. run fs s1 = (replicate (length fs - 1) None @ [Some out], s') \<and> delivers out P"
    proof (rule Cons.IH [where F = "insert (decode f) F"])
      show "holds P (insert (decode f) F) (abs s1)" using h s1(3) by simp
      show "(\<Union>f\<in>insert (decode f) F \<union> decode ` set fs. frag_range f) = {..<length P}" using Cons.prems(9) by simp
    qed (use False s1(2) ok Cons.prems(2,6,7,8) in auto)
    then obtain out s' where "run fs s1 = (replicate (length fs - 1) None @ [Some out], s')" "delivers out P" by blast
    moreover obtain n where "length fs = Suc n" using False by (cases fs) auto
    ultimately show ?thesis using s1(1) by simp
  qed
qed simp

lemma any_order:
  assumes "inv s" "abs s = (\<lambda>_. None, 0)" "\<forall>f\<in>set fs. fits f" "fragmentation P (map decode fs)" "P \<noteq> []"
  shows "\<exists>out s'. run fs s = (replicate (length fs - 1) None @ [Some out], s') \<and> delivers out P"
proof (rule run_delivers [where F = "{}"])
  show "fs \<noteq> []" using assms(4,5) by (auto simp: fragmentation_def)
  show "holds P {} (abs s)" by (simp add: holds_def assms(2))
qed (use assms in \<open>auto simp: fragmentation_def sorted_wrt_map\<close>)

end

end
