(* ===== verification/Ip_Defrag.thy ===== *)
theory Ip_Defrag
  imports Reassembly_Spec
begin

section \<open>The IPv4 defragmenter\<close>

text \<open>
  \<^verbatim>\<open>net/ip_spatial_defragmenter.hpp\<close>: a table of reassembly slots, probed from a
  hash of the datagram's key, each with a bit per byte of the largest datagram and a flat buffer. The
  CRC instruction is a parameter. Memory that is copied into is a function from addresses to bytes; a
  packet is its list of bytes. The defragmenter is proved to implement the contract of a reassembler
  for a datagram whose first probe is free: the fragments of a payload, in any order, deliver it.
\<close>

subsection \<open>The frame\<close>

definition ip_ihl_ver :: "u8 list \<Rightarrow> u8" where "ip_ihl_ver f = f ! 14"
definition ip_len :: "u8 list \<Rightarrow> u16" where "ip_len f = ld16 f 16"
definition ip_id :: "u8 list \<Rightarrow> u16" where "ip_id f = ld16 f 18"
definition ip_frag_offset :: "u8 list \<Rightarrow> u16" where "ip_frag_offset f = ld16 f 20"
definition ip_protocol :: "u8 list \<Rightarrow> u8" where "ip_protocol f = f ! 23"
definition ip_src :: "u8 list \<Rightarrow> u32" where "ip_src f = ld32 f 26"
definition ip_dst :: "u8 list \<Rightarrow> u32" where "ip_dst f = ld32 f 30"

subsection \<open>Slots\<close>

record ip_reassembly_slot =
  rs_src_ip :: u32
  rs_dst_ip :: u32
  rs_ip_id :: u16
  rs_protocol :: u8
  rs_active :: bool
  rs_total_expected_length :: u16
  rs_current_bytes_received :: u16
  rs_highest_byte_received :: u32
  rs_first_active_ts :: u64
  rs_presence_mask :: mask
  rs_buffer :: memory

record ip_spatial_defragmenter =
  df_slots :: "ip_reassembly_slot list"
  df_reassembled_frame :: memory

definition rs_zero :: "memory \<Rightarrow> ip_reassembly_slot" where
  "rs_zero buf = \<lparr>rs_src_ip = 0, rs_dst_ip = 0, rs_ip_id = 0, rs_protocol = 0, rs_active = False, rs_total_expected_length = 0,
     rs_current_bytes_received = 0, rs_highest_byte_received = 0, rs_first_active_ts = 0, rs_presence_mask = replicate 1024 0,
     rs_buffer = buf\<rparr>"

definition df_new :: "nat \<Rightarrow> ip_spatial_defragmenter" where
  "df_new Capacity = \<lparr>df_slots = replicate Capacity (rs_zero (\<lambda>_. 0)), df_reassembled_frame = (\<lambda>_. 0)\<rparr>"

subsection \<open>Finding the slot\<close>

definition frag_mix :: "u8 list \<Rightarrow> u64" where
  "frag_mix f = (push_bit 32 (ucast (ip_src f)) OR ucast (ip_dst f)) XOR (push_bit 16 (ucast (ip_id f)) OR ucast (ip_protocol f))"

definition frag_hash :: "(u64 \<Rightarrow> u64 \<Rightarrow> u64) \<Rightarrow> nat \<Rightarrow> u8 list \<Rightarrow> u32" where
  "frag_hash crc Capacity f = ucast (crc 0xDEADBEEF (frag_mix f) AND (of_nat Capacity - 1))"

definition slot_matches :: "u8 list \<Rightarrow> ip_reassembly_slot \<Rightarrow> bool" where
  "slot_matches f s = (rs_active s \<and> rs_src_ip s = ip_src f \<and> rs_ip_id s = ip_id f)"

definition rs_free :: "u64 \<Rightarrow> ip_reassembly_slot \<Rightarrow> bool" where
  "rs_free now s = (\<not> rs_active s \<or> now - rs_first_active_ts s > 30000)"

definition claim_slot :: "u8 list \<Rightarrow> u64 \<Rightarrow> ip_reassembly_slot \<Rightarrow> ip_reassembly_slot" where
  "claim_slot f now s = (rs_zero (rs_buffer s))\<lparr>rs_src_ip := ip_src f, rs_dst_ip := ip_dst f, rs_ip_id := ip_id f,
     rs_protocol := ip_protocol f, rs_active := True, rs_first_active_ts := now, rs_highest_byte_received := 0\<rparr>"

text \<open>The probe loop: the slot of the datagram or the first free one, which is claimed.\<close>

fun probe :: "u8 list \<Rightarrow> u64 \<Rightarrow> u32 \<Rightarrow> nat list \<Rightarrow> ip_reassembly_slot list \<Rightarrow> (nat \<times> ip_reassembly_slot list) option" where
  "probe f now hash [] slots = None"
| "probe f now hash (i # is) slots =
     (let idx = slot (length slots) (ucast hash + of_nat i)
      in if slot_matches f (slots ! idx) then Some (idx, slots)
         else if rs_free now (slots ! idx) then Some (idx, slots[idx := claim_slot f now (slots ! idx)])
         else probe f now hash is slots)"

subsection \<open>Adding a fragment\<close>

text \<open>The overlap check and the marking of the bytes, word by word.\<close>

definition check_and_mark :: "nat \<Rightarrow> nat \<Rightarrow> mask \<Rightarrow> mask option" where
  "check_and_mark off len m = (if range_hits off len m then None else Some (range_set off len m))"

definition integrate :: "nat \<Rightarrow> u8 list \<Rightarrow> bool \<Rightarrow> ip_reassembly_slot \<Rightarrow> ip_reassembly_slot" where
  "integrate off payload more_fragments s =
     (let s1 = s\<lparr>rs_buffer := put_bytes (rs_buffer s) off payload,
                 rs_current_bytes_received := rs_current_bytes_received s + of_nat (length payload)\<rparr>;
          s2 = (if rs_highest_byte_received s1 < of_nat (off + length payload)
                then s1\<lparr>rs_highest_byte_received := of_nat (off + length payload)\<rparr> else s1)
      in if more_fragments then s2 else s2\<lparr>rs_total_expected_length := of_nat (off + length payload)\<rparr>)"

definition reassembly_complete :: "ip_reassembly_slot \<Rightarrow> bool" where
  "reassembly_complete s = (0 < rs_total_expected_length s \<and> rs_current_bytes_received s = rs_total_expected_length s
     \<and> rs_highest_byte_received s = ucast (rs_total_expected_length s))"

text \<open>The frame that is built from the header of the last fragment and the buffer.\<close>

definition synthesize :: "u8 list \<Rightarrow> nat \<Rightarrow> ip_reassembly_slot \<Rightarrow> memory \<Rightarrow> memory" where
  "synthesize f header_len s m =
     (let total = unat (rs_total_expected_length s);
          m1 = put_bytes m 0 (take (14 + header_len) f);
          m2 = put_bytes m1 (14 + header_len) (map (rs_buffer s) [0..<total]);
          m3 = put_bytes m2 16 (le_bytes 2 (host_to_network16 (of_nat (header_len + total))));
          m4 = put_bytes m3 20 (le_bytes 2 (0 :: u16));
          m5 = put_bytes m4 24 (le_bytes 2 (0 :: u16))
      in put_bytes m5 24 (le_bytes 2 (compute_checksum False (map m5 [14..<14 + header_len]) 0)))"

definition frag_header_len :: "u8 list \<Rightarrow> nat" where
  "frag_header_len f = unat (ip_ihl_ver f AND 0x0F) * 4"

definition frag_offset_val :: "u8 list \<Rightarrow> u16" where
  "frag_offset_val f = network_to_host16 (ip_frag_offset f)"

definition frag_offset_bytes :: "u8 list \<Rightarrow> u16" where
  "frag_offset_bytes f = (frag_offset_val f AND 0x1FFF) * 8"

definition frag_more :: "u8 list \<Rightarrow> bool" where
  "frag_more f = (frag_offset_val f AND 0x2000 \<noteq> 0)"

definition frag_ip_len :: "u8 list \<Rightarrow> nat" where
  "frag_ip_len f = unat (network_to_host16 (ip_len f))"

text \<open>The length checks. \<^verbatim>\<open>physical_length - 14\<close> is taken modulo \<open>2 ^ 64\<close>.\<close>

definition frag_malformed :: "u8 list \<Rightarrow> bool" where
  "frag_malformed f =
     (let header_len = frag_header_len f; len = frag_ip_len f
      in len < header_len \<or> (of_nat len :: u64) > of_nat (length f) - 14
        \<or> unat (frag_offset_bytes f) + (len - header_len) > 65535 \<or> len - header_len = 0)"

definition frag_payload :: "u8 list \<Rightarrow> u8 list" where
  "frag_payload f = take (frag_ip_len f - frag_header_len f) (drop (14 + frag_header_len f) f)"

definition process_fragment :: "(u64 \<Rightarrow> u64 \<Rightarrow> u64) \<Rightarrow> u8 list \<Rightarrow> u64 \<Rightarrow> ip_spatial_defragmenter \<Rightarrow> memory option \<times> ip_spatial_defragmenter" where
  "process_fragment crc f now st =
     (case probe f now (frag_hash crc (length (df_slots st)) f) [0..<8] (df_slots st) of
        None \<Rightarrow> (None, st)
      | Some (idx, slots) \<Rightarrow>
          if frag_malformed f then (None, st\<lparr>df_slots := slots\<rparr>)
          else let off = unat (frag_offset_bytes f); payload = frag_payload f
               in case check_and_mark off (frag_ip_len f - frag_header_len f) (rs_presence_mask (slots ! idx)) of
                    None \<Rightarrow> (None, st\<lparr>df_slots := slots\<rparr>)
                  | Some m \<Rightarrow>
                      let s = integrate off payload (frag_more f) ((slots ! idx)\<lparr>rs_presence_mask := m\<rparr>)
                      in if reassembly_complete s
                         then let r = synthesize f (frag_header_len f) s (df_reassembled_frame st)
                              in (Some r, st\<lparr>df_slots := slots[idx := s\<lparr>rs_active := False\<rparr>], df_reassembled_frame := r\<rparr>)
                         else (None, st\<lparr>df_slots := slots[idx := s]\<rparr>))"

subsection \<open>One slot against the abstract datagram\<close>

text \<open>The mask is the set of received bytes: their number and the highest of them are counted
  exactly, without wrap-around of the 16-bit counter.\<close>

definition rs_inv :: "ip_reassembly_slot \<Rightarrow> bool" where
  "rs_inv s = counted (rs_presence_mask s) (unat (rs_highest_byte_received s)) (unat (rs_current_bytes_received s))"

definition rs_abs :: "ip_reassembly_slot \<Rightarrow> datagram" where
  "rs_abs s = (received (rs_presence_mask s) (rs_buffer s), unat (rs_total_expected_length s))"

lemma claim_slot_fresh: "rs_inv (claim_slot f now s)" "rs_abs (claim_slot f now s) = (\<lambda>_. None, 0)" "slot_matches f (claim_slot f now s)"
  using counted_empty by (simp_all add: rs_inv_def rs_abs_def claim_slot_def rs_zero_def slot_matches_def received_def)

text \<open>Marking and copying the bytes of a fragment that overlaps nothing is the abstract step.\<close>

lemma integrate_fields:
  fixes s m off p mf
  defines "s' \<equiv> integrate off p mf (s\<lparr>rs_presence_mask := m\<rparr>)"
  shows "rs_presence_mask s' = m" "rs_buffer s' = put_bytes (rs_buffer s) off p" "rs_current_bytes_received s' = rs_current_bytes_received s + of_nat (length p)"
    "rs_highest_byte_received s' = (if rs_highest_byte_received s < of_nat (off + length p) then of_nat (off + length p) else rs_highest_byte_received s)"
    "rs_total_expected_length s' = (if mf then rs_total_expected_length s else of_nat (off + length p))"
    "rs_active s' = rs_active s" "rs_src_ip s' = rs_src_ip s" "rs_ip_id s' = rs_ip_id s"
  by (simp_all add: s'_def integrate_def Let_def)

lemma integrate_adds:
  fixes mf :: bool
  assumes inv: "rs_inv s" and p: "p \<noteq> []" "off + length p \<le> 65535" and disj: "present (rs_presence_mask s) \<inter> {off..<off + length p} = {}"
  defines "s' \<equiv> integrate off p mf (s\<lparr>rs_presence_mask := range_set off (length p) (rs_presence_mask s)\<rparr>)"
  shows "rs_inv s'" "rs_abs s' = add_frag (off, p, mf) (rs_abs s)"
proof -
  note f = integrate_fields [where off = off and p = p and mf = mf and s = s and m = "range_set off (length p) (rs_presence_mask s)", folded s'_def]
  note c = counted_add [OF inv [unfolded rs_inv_def] _ p(2) disj]
  have "unat (of_nat (length p) :: u16) = length p" using p(2) by (intro unat_of_nat_u16) simp
  then have cur: "unat (rs_current_bytes_received s') = unat (rs_current_bytes_received s) + length p"
    unfolding f using c(2) p(1) by (simp add: unat_word_ariths)
  have e: "unat (of_nat (off + length p) :: u32) = off + length p" using p by (intro unat_of_nat_u32) simp
  have h': "unat (rs_highest_byte_received s') = max (unat (rs_highest_byte_received s)) (off + length p)"
    unfolding f using e by (simp add: word_less_nat_alt max_def)
  show "rs_inv s'" unfolding rs_inv_def cur h' using c(1) p(1) by (simp add: f)
  have "unat (of_nat (off + length p) :: u16) = off + length p" using p by (intro unat_of_nat_u16) simp
  then show "rs_abs s' = add_frag (off, p, mf) (rs_abs s)"
    unfolding rs_abs_def using received_add [OF c(3)] p(1) by (simp add: f)
qed

text \<open>The test of the counters says whether the datagram is complete.\<close>

lemma reassembly_complete_iff:
  assumes "rs_inv s"
  shows "reassembly_complete s \<longleftrightarrow> complete (rs_abs s)"
proof -
  have "reassembly_complete s \<longleftrightarrow> 0 < unat (rs_total_expected_length s) \<and> unat (rs_current_bytes_received s) = unat (rs_total_expected_length s)
      \<and> unat (rs_highest_byte_received s) = unat (rs_total_expected_length s)"
    using unsigned_less [of "rs_total_expected_length s", where 'a = nat]
    by (auto simp: reassembly_complete_def word_less_nat_alt word_unat_eq_iff unsigned_ucast_eq take_bit_nat_def)
  then show ?thesis using counted_complete [OF assms [unfolded rs_inv_def]] by (simp add: rs_abs_def complete_received)
qed

subsection \<open>The frame that is handed out\<close>

text \<open>A frame that carries the payload \<open>P\<close>: after its header, with the length in its length field
  as far as 16 bits hold it, with no fragment bits and with a header checksum that verifies.\<close>

definition carries :: "memory \<Rightarrow> u8 list \<Rightarrow> bool" where
  "carries out P \<longleftrightarrow> (let h = unat (out 14 AND 0x0F) * 4 in
     (\<forall>i<length P. out (14 + h + i) = P ! i) \<and> network_to_host16 (ld16 (map out [0..<14 + h]) 16) = of_nat (h + length P)
     \<and> ld16 (map out [0..<14 + h]) 20 = 0 \<and> compute_checksum False (map out [14..<14 + h]) 0 = 0)"

lemma synthesize_carries:
  assumes hl: "20 \<le> header_len" "header_len = unat (f ! 14 AND 0x0F) * 4" "14 + header_len \<le> length f"
  shows "carries (synthesize f header_len s m) (map (rs_buffer s) [0..<unat (rs_total_expected_length s)])"
proof -
  let ?n = "unat (rs_total_expected_length s)" and ?h = header_len
  let ?P = "map (rs_buffer s) [0..<?n]"
  define m1 where "m1 = put_bytes m 0 (take (14 + ?h) f)"
  define m2 where "m2 = put_bytes m1 (14 + ?h) ?P"
  let ?len = "le_bytes 2 (host_to_network16 (of_nat (?h + ?n)))"
  define m3 where "m3 = put_bytes m2 16 ?len"
  define m4 where "m4 = put_bytes m3 20 (le_bytes 2 (0 :: u16))"
  define m5 where "m5 = put_bytes m4 24 (le_bytes 2 (0 :: u16))"
  let ?c = "compute_checksum False (map m5 [14..<14 + ?h]) 0"
  define out where "out = put_bytes m5 24 (le_bytes 2 ?c)"
  have out: "synthesize f ?h s m = out"
    by (simp add: synthesize_def Let_def out_def m5_def m4_def m3_def m2_def m1_def)
  note d = out_def m5_def m4_def m3_def
  have ihl: "out 14 = f ! 14" using hl by (simp add: d m2_def m1_def put_bytes_def)
  have pay: "out (14 + ?h + i) = ?P ! i" if "i < ?n" for i
    using that hl(1) by (simp add: d put_bytes_other) (simp add: m2_def put_bytes_def)
  have len: "le_word [out 16, out 17] = host_to_network16 (of_nat (?h + ?n))"
  proof -
    have "out 16 = ?len ! 0" "out 17 = ?len ! 1" by (simp_all add: d put_bytes_other) (simp_all add: put_bytes_def)
    then show ?thesis using le_word_2 [of ?len, where 'a = 16] le_word_bytes [of 2 "host_to_network16 (of_nat (?h + ?n))"] by simp
  qed
  have fo: "out 20 = 0" "out 21 = 0" by (simp_all add: d put_bytes_other) (simp_all add: put_bytes_def numeral_2_eq_2)
  have hdr: "map out [14..<14 + ?h] = take 10 (map m5 [14..<14 + ?h]) @ le_bytes 2 ?c @ drop (10 + 2) (map m5 [14..<14 + ?h])"
    unfolding out_def using hl(1) map_put_bytes [of 14 24 "le_bytes 2 ?c" "14 + ?h" m5] by simp
  have z: "m5 24 = 0" "m5 25 = 0" unfolding m5_def by (simp_all add: put_bytes_def numeral_2_eq_2)
  have zero: "take 2 (drop 10 (map m5 [14..<14 + ?h])) = [0, 0]"
    using hl(1) z by (simp add: numeral_2_eq_2 take_Suc_conv_app_nth)
  have "compute_checksum False (map out [14..<14 + ?h]) 0 = 0"
    unfolding hdr using hl(1) zero by (intro checksum_filled) simp_all
  then show ?thesis unfolding out carries_def using ihl hl pay len fo
    by (simp add: ld16_map host_to_network16_def network_to_host16_def byteswap_involutive)
qed

subsection \<open>The table\<close>

definition frag_decode :: "u8 list \<Rightarrow> fragment" where
  "frag_decode f = (unat (frag_offset_bytes f), frag_payload f, frag_more f)"

text \<open>A fragment that passes the length checks, with a full IPv4 header.\<close>

definition frag_ok :: "u8 list \<Rightarrow> bool" where
  "frag_ok f \<longleftrightarrow> length f < 2 ^ 64 \<and> 20 \<le> frag_header_len f \<and> frag_header_len f < frag_ip_len f \<and> frag_ip_len f + 14 \<le> length f
     \<and> unat (frag_offset_bytes f) + (frag_ip_len f - frag_header_len f) \<le> 65535"

text \<open>The first slot the probing of a fragment visits.\<close>

definition home :: "(u64 \<Rightarrow> u64 \<Rightarrow> u64) \<Rightarrow> nat \<Rightarrow> u8 list \<Rightarrow> nat" where
  "home crc Capacity f = slot Capacity (ucast (frag_hash crc Capacity f))"

definition datagram_key :: "u8 list \<Rightarrow> u32 \<times> u32 \<times> u16 \<times> u8" where
  "datagram_key f = (ip_src f, ip_dst f, ip_id f, ip_protocol f)"

lemma frag_ok_facts:
  assumes "frag_ok f"
  shows "\<not> frag_malformed f" "length (frag_payload f) = frag_ip_len f - frag_header_len f" "frag_payload f \<noteq> []"
    "unat (frag_offset_bytes f) + length (frag_payload f) \<le> 65535"
proof -
  have l: "14 \<le> length f" "length f < 2 ^ 64" using assms by (simp_all add: frag_ok_def)
  then have "unat (of_nat (length f) - 14 :: u64) = length f - 14" by (simp add: unat_sub word_le_nat_alt unat_of_nat take_bit_nat_def)
  moreover have "unat (of_nat (frag_ip_len f) :: u64) = frag_ip_len f" using assms by (simp add: frag_ok_def unat_of_nat take_bit_nat_def)
  ultimately show "\<not> frag_malformed f" using assms by (auto simp: frag_ok_def frag_malformed_def Let_def word_less_nat_alt)
  show "length (frag_payload f) = frag_ip_len f - frag_header_len f" using assms by (auto simp: frag_ok_def frag_payload_def)
  then show "frag_payload f \<noteq> []" "unat (frag_offset_bytes f) + length (frag_payload f) \<le> 65535" using assms by (auto simp: frag_ok_def)
qed

lemma home_key: "datagram_key f = datagram_key g \<Longrightarrow> home crc c f = home crc c g \<and> slot_matches f s = slot_matches g s"
  by (auto simp: datagram_key_def home_def frag_hash_def frag_mix_def slot_matches_def)

lemma process_at_home:
  fixes st f now crc
  assumes "pow2_cap (length (df_slots st))" "frag_ok f"
  defines "h \<equiv> home crc (length (df_slots st)) f"
  assumes "rs_active (df_slots st ! h) \<longrightarrow> slot_matches f (df_slots st ! h)"
  defines "s0 \<equiv> (if rs_active (df_slots st ! h) then df_slots st ! h else claim_slot f now (df_slots st ! h))"
  assumes mask: "length (rs_presence_mask s0) = 1024" "present (rs_presence_mask s0) \<inter> frag_range (frag_decode f) = {}"
  defines "s1 \<equiv> integrate (unat (frag_offset_bytes f)) (frag_payload f) (frag_more f)
     (s0\<lparr>rs_presence_mask := range_set (unat (frag_offset_bytes f)) (length (frag_payload f)) (rs_presence_mask s0)\<rparr>)"
  defines "r \<equiv> synthesize f (frag_header_len f) s1 (df_reassembled_frame st)"
  shows "process_fragment crc f now st =
    (if reassembly_complete s1 then (Some r, st\<lparr>df_slots := (df_slots st)[h := s1\<lparr>rs_active := False\<rparr>], df_reassembled_frame := r\<rparr>)
     else (None, st\<lparr>df_slots := (df_slots st)[h := s1]\<rparr>))"
proof -
  note ok = frag_ok_facts [OF assms(2)]
  have h: "h < length (df_slots st)" unfolding h_def home_def using assms(1) by (rule slot_less)
  have p: "probe f now (frag_hash crc (length (df_slots st)) f) [0..<8] (df_slots st) = Some (h, (df_slots st)[h := s0])"
  proof -
    have "[0..<8] = 0 # [1..<8 :: nat]" by (simp add: upt_conv_Cons)
    then show ?thesis using assms(4) by (simp add: h_def [unfolded home_def, symmetric] s0_def rs_free_def slot_matches_def)
  qed
  have "\<not> range_hits (unat (frag_offset_bytes f)) (length (frag_payload f)) (rs_presence_mask s0)"
    using range_hits_iff [of "length (frag_payload f)" "unat (frag_offset_bytes f)" "rs_presence_mask s0"] mask ok(3,4)
    by (simp add: frag_decode_def frag_range_def)
  then show ?thesis using p ok h
    by (simp add: process_fragment_def check_and_mark_def Let_def s1_def r_def)
qed

text \<open>The state of one datagram in the table.\<close>

definition df_inv :: "(u64 \<Rightarrow> u64 \<Rightarrow> u64) \<Rightarrow> u8 list \<Rightarrow> ip_spatial_defragmenter \<Rightarrow> bool" where
  "df_inv crc f st \<longleftrightarrow> pow2_cap (length (df_slots st))
     \<and> (let s = df_slots st ! home crc (length (df_slots st)) f in rs_active s \<longrightarrow> slot_matches f s \<and> rs_inv s)"

definition df_abs :: "(u64 \<Rightarrow> u64 \<Rightarrow> u64) \<Rightarrow> u8 list \<Rightarrow> ip_spatial_defragmenter \<Rightarrow> datagram" where
  "df_abs crc f st = (let s = df_slots st ! home crc (length (df_slots st)) f in if rs_active s then rs_abs s else (\<lambda>_. None, 0))"

lemma process_refines:
  fixes crc now
  assumes inv: "df_inv crc g st" and ok: "frag_ok f" "datagram_key f = datagram_key g"
    and disj: "frag_range (frag_decode f) \<inter> dom (fst (df_abs crc g st)) = {}"
  defines "d \<equiv> add_frag (frag_decode f) (df_abs crc g st)"
  shows "if complete d then \<exists>out st'. process_fragment crc f now st = (Some out, st') \<and> carries out (datagram_bytes d)
     else \<exists>st'. process_fragment crc f now st = (None, st') \<and> df_inv crc g st' \<and> df_abs crc g st' = d"
proof -
  let ?c = "length (df_slots st)"
  define h where "h = home crc ?c f"
  have hg: "home crc ?c g = h" using home_key [OF ok(2)] by (simp add: h_def)
  have h: "h < ?c" using inv unfolding h_def home_def df_inv_def by (auto intro: slot_less)
  define s0 where "s0 = (if rs_active (df_slots st ! h) then df_slots st ! h else claim_slot f now (df_slots st ! h))"
  have act: "rs_active (df_slots st ! h) \<longrightarrow> slot_matches f (df_slots st ! h)" and pc: "pow2_cap ?c"
    using inv home_key [OF ok(2)] by (auto simp: df_inv_def Let_def hg)
  have s0: "rs_inv s0" "rs_abs s0 = df_abs crc g st" "slot_matches f s0"
    using inv act claim_slot_fresh [of f now "df_slots st ! h"] by (auto simp: df_inv_def df_abs_def Let_def hg s0_def)
  define off where "off = unat (frag_offset_bytes f)"
  define s1 where "s1 = integrate off (frag_payload f) (frag_more f) (s0\<lparr>rs_presence_mask := range_set off (length (frag_payload f)) (rs_presence_mask s0)\<rparr>)"
  have m: "length (rs_presence_mask s0) = 1024" "present (rs_presence_mask s0) \<inter> frag_range (frag_decode f) = {}"
    using s0(1) disj s0(2) by (auto simp: rs_inv_def counted_def rs_abs_def simp flip: s0(2))
  note okf = frag_ok_facts [OF ok(1)]
  have s1: "rs_inv s1" "rs_abs s1 = d"
    using integrate_adds [OF s0(1) okf(3), of off "frag_more f"] okf(4) m(2) s0(2)
    by (simp_all add: s1_def off_def d_def frag_decode_def frag_range_def)
  have k: "slot_matches f s1" using s0(3) by (simp add: s1_def slot_matches_def integrate_fields)
  have res: "process_fragment crc f now st = (if complete d
     then (let r = synthesize f (frag_header_len f) s1 (df_reassembled_frame st) in (Some r, st\<lparr>df_slots := (df_slots st)[h := s1\<lparr>rs_active := False\<rparr>], df_reassembled_frame := r\<rparr>))
     else (None, st\<lparr>df_slots := (df_slots st)[h := s1]\<rparr>))"
    using process_at_home [OF pc ok(1), of crc now, folded h_def, folded s0_def, folded off_def, folded s1_def, OF act m]
    by (simp add: reassembly_complete_iff [OF s1(1)] s1(2) Let_def)
  show ?thesis
  proof (cases "complete d")
    case True
    have "carries (synthesize f (frag_header_len f) s1 (df_reassembled_frame st)) (map (rs_buffer s1) [0..<unat (rs_total_expected_length s1)])"
      using ok(1) by (intro synthesize_carries) (auto simp: frag_ok_def frag_header_len_def ip_ihl_ver_def)
    moreover have "datagram_bytes d = map (rs_buffer s1) [0..<unat (rs_total_expected_length s1)]"
      using received_bytes True s1(2) by (metis rs_abs_def)
    ultimately show ?thesis using True res by (simp add: Let_def)
  next
    case False
    then show ?thesis using res s1 k pc h home_key [OF ok(2)] hg
      by (auto simp: df_inv_def df_abs_def slot_matches_def Let_def)
  qed
qed

subsection \<open>Sequences of fragments\<close>

fun process_fragments :: "(u64 \<Rightarrow> u64 \<Rightarrow> u64) \<Rightarrow> (u8 list \<times> u64) list \<Rightarrow> ip_spatial_defragmenter \<Rightarrow> memory option list \<times> ip_spatial_defragmenter" where
  "process_fragments crc [] st = ([], st)"
| "process_fragments crc ((f, now) # fs) st =
     (let (r, st1) = process_fragment crc f now st; (rs, st2) = process_fragments crc fs st1 in (r # rs, st2))"

interpretation v4: reassembler "\<lambda>(f, now). process_fragment crc f now" "\<lambda>(f, now). frag_decode f"
  "\<lambda>(f, now). frag_ok f \<and> datagram_key f = datagram_key g" "df_inv crc g" "df_abs crc g" carries for crc g
proof
  fix s and p :: "u8 list \<times> u64"
  obtain f now where p: "p = (f, now)" by (cases p)
  assume a: "df_inv crc g s" "case p of (f, now) \<Rightarrow> frag_ok f \<and> datagram_key f = datagram_key g"
    "frag_range (case p of (f, now) \<Rightarrow> frag_decode f) \<inter> dom (fst (df_abs crc g s)) = {}"
  then have f: "frag_ok f" "datagram_key f = datagram_key g" "frag_range (frag_decode f) \<inter> dom (fst (df_abs crc g s)) = {}"
    by (simp_all add: p)
  note r = process_refines [OF a(1) f, of now]
  show "\<exists>out s'. (case p of (f, now) \<Rightarrow> process_fragment crc f now) s = (Some out, s')
      \<and> carries out (datagram_bytes (add_frag (case p of (f, now) \<Rightarrow> frag_decode f) (df_abs crc g s)))"
    if "complete (add_frag (case p of (f, now) \<Rightarrow> frag_decode f) (df_abs crc g s))"
    using r that by (simp add: p)
  show "\<exists>s'. (case p of (f, now) \<Rightarrow> process_fragment crc f now) s = (None, s') \<and> df_inv crc g s'
      \<and> df_abs crc g s' = add_frag (case p of (f, now) \<Rightarrow> frag_decode f) (df_abs crc g s)"
    if "\<not> complete (add_frag (case p of (f, now) \<Rightarrow> frag_decode f) (df_abs crc g s))"
    using r that by (simp add: p)
qed

lemma run_process_fragments: "v4.run crc fs st = process_fragments crc fs st"
  by (induction fs arbitrary: st) (auto split: prod.splits)

subsection \<open>Properties\<close>

text \<open>(C27) The fragments of an IPv4 payload, fed in any order to a defragmenter whose first slot for
  the datagram is free, hand out nothing until the last of them, which hands out a frame that carries
  the payload, with its length, no fragment bits and a header checksum that verifies.\<close>

theorem ip4_any_order:
  assumes "pow2_cap (length (df_slots st))" "\<not> rs_active (df_slots st ! home crc (length (df_slots st)) g)"
    and "\<forall>(f, now)\<in>set fs. frag_ok f \<and> datagram_key f = datagram_key g"
    and "fragmentation P (map (\<lambda>(f, now). frag_decode f) fs)" "P \<noteq> []"
  shows "\<exists>out st'. process_fragments crc fs st = (replicate (length fs - 1) None @ [Some out], st') \<and> carries out P"
  using v4.any_order [of crc g st fs P] assms by (simp add: df_inv_def df_abs_def run_process_fragments)

text \<open>Two fragments of a datagram of eleven bytes, the second one first.\<close>

definition example_frame :: "u8 list \<Rightarrow> u8 list \<Rightarrow> u8 list" where
  "example_frame off payload = replicate 14 0 @ [0x45, 0, 0, of_nat (20 + length payload), 0, 7] @ off @ [64, 17, 0, 0, 10, 0, 0, 1, 10, 0, 0, 2] @ payload"

lemmas frag_eval = example_frame_def frag_ok_def frag_decode_def frag_header_len_def frag_ip_len_def frag_offset_bytes_def frag_offset_val_def
  frag_more_def frag_payload_def datagram_key_def ip_ihl_ver_def ip_len_def ip_id_def ip_frag_offset_def ip_protocol_def ip_src_def ip_dst_def
  ld16_def ld32_def network_to_host16_def byteswap16_def nth_append

lemma example_frames:
  "frag_ok (example_frame [0x20, 0] [1, 2, 3, 4, 5, 6, 7, 8])" "frag_decode (example_frame [0x20, 0] [1, 2, 3, 4, 5, 6, 7, 8]) = (0, [1, 2, 3, 4, 5, 6, 7, 8], True)"
  "frag_ok (example_frame [0, 1] [9, 10, 11])" "frag_decode (example_frame [0, 1] [9, 10, 11]) = (8, [9, 10, 11], False)"
  "datagram_key (example_frame [0x20, 0] [1, 2, 3, 4, 5, 6, 7, 8]) = datagram_key (example_frame [0, 1] [9, 10, 11])"
  by (simp_all add: frag_eval)

lemma df_new_free: "pow2_cap (length (df_slots (df_new 8)))" "\<not> rs_active (df_slots (df_new 8) ! home crc (length (df_slots (df_new 8))) f)"
proof -
  show p: "pow2_cap (length (df_slots (df_new 8)))" using pow2_cap_of [of 3] by (simp add: df_new_def)
  have "home crc (length (df_slots (df_new 8))) f < 8" using slot_less [OF p] by (simp add: home_def df_new_def)
  then show "\<not> rs_active (df_slots (df_new 8) ! home crc (length (df_slots (df_new 8))) f)" by (simp add: df_new_def rs_zero_def)
qed

theorem ip4_any_order_witness:
  "\<exists>out st'. process_fragments (\<lambda>_ _. 0) [(example_frame [0, 1] [9, 10, 11], 5), (example_frame [0x20, 0] [1, 2, 3, 4, 5, 6, 7, 8], 6)] (df_new 8)
     = ([None, Some out], st') \<and> carries out [1, 2, 3, 4, 5, 6, 7, 8, 9, 10, 11]"
proof -
  have "fragmentation [1, 2, 3, 4, 5, 6, 7, 8, 9, 10, 11] [(8, [9, 10, 11], False), (0, [1, 2, 3, 4, 5, 6, 7, 8], True)]"
    by (auto simp: fragmentation_def frag_of_def frag_range_def)
  then show ?thesis
    using ip4_any_order [where crc = "\<lambda>_ _. 0" and st = "df_new 8" and g = "example_frame [0, 1] [9, 10, 11]"
        and fs = "[(example_frame [0, 1] [9, 10, 11], 5), (example_frame [0x20, 0] [1, 2, 3, 4, 5, 6, 7, 8], 6)]"
        and P = "[1, 2, 3, 4, 5, 6, 7, 8, 9, 10, 11]", OF df_new_free]
    by (simp add: example_frames)
qed

subsubsection \<open>Memory safety\<close>

lemma frag_header_len_bound: "frag_header_len f \<le> 60"
proof -
  have "ip_ihl_ver f AND 0x0F = take_bit 4 (ip_ihl_ver f)" using take_bit_eq_mask [of 4 "ip_ihl_ver f"] by (simp add: mask_eq_exp_minus_1 and.commute)
  moreover have "unat (take_bit 4 (ip_ihl_ver f)) < 16" by (simp add: unsigned_take_bit_eq take_bit_nat_def)
  ultimately show ?thesis by (simp add: frag_header_len_def)
qed

lemma synthesize_bound:
  assumes "65664 \<le> i"
  shows "synthesize f (frag_header_len f) s m i = m i"
proof -
  have "14 + frag_header_len f + length (map (rs_buffer s) [0..<unat (rs_total_expected_length s)]) \<le> 65664"
    using frag_header_len_bound [of f] unsigned_less [of "rs_total_expected_length s", where 'a = nat] by simp
  moreover have "0 + length (take (14 + frag_header_len f) f) \<le> 65664" using frag_header_len_bound [of f] by simp
  ultimately show ?thesis unfolding synthesize_def Let_def
    using put_bytes_bound [OF _ assms] by (simp del: length_map length_upt)
qed

lemma probe_bound:
  assumes "pow2_cap (length slots)" "probe f now hash is slots = Some (idx, slots')"
  shows "idx < length slots \<and> length slots' = length slots \<and> (\<forall>k. rs_buffer (slots' ! k) = rs_buffer (slots ! k))"
  using assms(2)
proof (induction "is")
  case (Cons i "is")
  have "slot (length slots) (ucast hash + of_nat i) < length slots" using assms(1) by (rule slot_less)
  then show ?case using Cons by (auto simp: Let_def claim_slot_def rs_zero_def nth_list_update split: if_splits)
qed simp

lemma payload_in_frame:
  assumes "34 \<le> length f" "length f < 2 ^ 64" "\<not> frag_malformed f"
  shows "14 + frag_header_len f + (frag_ip_len f - frag_header_len f) \<le> length f"
    "unat (frag_offset_bytes f) + length (frag_payload f) \<le> 65535"
proof -
  have "unat (of_nat (length f) - 14 :: u64) = length f - 14" using assms(1,2) by (simp add: unat_sub word_le_nat_alt unat_of_nat take_bit_nat_def)
  moreover have "unat (of_nat (frag_ip_len f) :: u64) = frag_ip_len f" using unsigned_less [of "network_to_host16 (ip_len f)", where 'a = nat]
    by (simp add: frag_ip_len_def unat_of_nat take_bit_nat_def del: of_nat_unat)
  ultimately show "14 + frag_header_len f + (frag_ip_len f - frag_header_len f) \<le> length f"
    "unat (frag_offset_bytes f) + length (frag_payload f) \<le> 65535"
    using assms(1,3) by (auto simp: frag_malformed_def frag_payload_def Let_def word_less_nat_alt)
qed

text \<open>(C28) Whatever a frame with a full header claims about its lengths, the copies stay inside the
  frame, the slot's buffer of 65536 bytes and the output buffer of 65664 bytes.\<close>

theorem ip4_memory_safe:
  assumes "34 \<le> length f" "length f < 2 ^ 64" "pow2_cap (length (df_slots st))" "process_fragment crc f now st = (r, st')"
  shows "(\<not> frag_malformed f \<longrightarrow> 14 + frag_header_len f + (frag_ip_len f - frag_header_len f) \<le> length f)
    \<and> (\<forall>i\<ge>65664. df_reassembled_frame st' i = df_reassembled_frame st i)
    \<and> (\<forall>k. \<forall>i\<ge>65536. rs_buffer (df_slots st' ! k) i = rs_buffer (df_slots st ! k) i)"
proof (cases "probe f now (frag_hash crc (length (df_slots st)) f) [0..<8] (df_slots st)")
  case None
  then show ?thesis using assms(4) payload_in_frame [OF assms(1,2)] by (auto simp: process_fragment_def)
next
  case (Some p)
  obtain idx slots where p: "p = (idx, slots)" by (cases p)
  note pb = probe_bound [OF assms(3) Some [unfolded p]]
  have ib: "rs_buffer (slots[idx := x] ! k) i = rs_buffer (df_slots st ! k) i"
    if "rs_buffer x = put_bytes (rs_buffer (slots ! idx)) (unat (frag_offset_bytes f)) (frag_payload f)" "\<not> frag_malformed f" "65536 \<le> i" for x k i
    using that pb payload_in_frame(2) [OF assms(1,2)] put_bytes_bound [of "unat (frag_offset_bytes f)" "frag_payload f" 65536 i]
    by (cases "k = idx") (simp_all add: nth_list_update)
  show ?thesis using assms(4) Some p pb payload_in_frame(1) [OF assms(1,2)]
    by (auto simp: process_fragment_def Let_def synthesize_bound integrate_fields ib split: if_splits option.splits)
qed

theorem ip4_memory_safe_witness:
  "\<exists>r st'. process_fragment (\<lambda>_ _. 0) (example_frame [0, 1] [9, 10, 11]) 5 (df_new 8) = (r, st')
    \<and> (\<forall>i\<ge>65664. df_reassembled_frame st' i = df_reassembled_frame (df_new 8) i)"
proof -
  obtain r st' where r: "process_fragment (\<lambda>_ _. 0) (example_frame [0, 1] [9, 10, 11]) 5 (df_new 8) = (r, st')" by (metis surj_pair)
  have "34 \<le> length (example_frame [0, 1] [9, 10, 11])" "length (example_frame [0, 1] [9, 10, 11]) < 2 ^ 64" by (simp_all add: example_frame_def)
  then show ?thesis using ip4_memory_safe [OF _ _ df_new_free(1) r] r by auto
qed

text \<open>A fragment that finds its first probe free starts a datagram of its own, although a later probe
  holds the fragments that came before it. The slot becomes free when the datagram that pushed this
  one away is delivered, and from then on neither part completes.\<close>

lemma ip4_probe_forgets:
  assumes "pow2_cap (length (df_slots st))" "\<not> rs_active (df_slots st ! home crc (length (df_slots st)) f)" "frag_ok f"
    and "frag_more f \<or> frag_offset_bytes f \<noteq> 0"
  shows "fst (process_fragment crc f now st) = None"
proof -
  have inv: "df_inv crc f st" "df_abs crc f st = (\<lambda>_. None, 0)" using assms(1,2) by (simp_all add: df_inv_def df_abs_def)
  have "\<not> complete (add_frag (frag_decode f) (\<lambda>_. None, 0))"
  proof
    assume c: "complete (add_frag (frag_decode f) (\<lambda>_. None, 0))"
    then have "frag_offset_bytes f \<noteq> 0" using assms(4) by (auto simp: complete_def add_frag_def frag_decode_def split: if_splits)
    then have "0 < unat (frag_offset_bytes f)" by (simp add: unat_gt_0)
    moreover have "0 \<in> dom (\<lambda>i. if unat (frag_offset_bytes f) \<le> i \<and> i < unat (frag_offset_bytes f) + length (frag_payload f)
        then Some (frag_payload f ! (i - unat (frag_offset_bytes f))) else None)"
      using c by (auto simp: complete_def add_frag_def frag_decode_def)
    ultimately show False by (auto split: if_splits)
  qed
  then show ?thesis using process_refines [OF inv(1) assms(3) refl, of now] by (auto simp: inv(2))
qed

end
