(* ===== verification/Ip6_Defrag.thy ===== *)
theory Ip6_Defrag
  imports Reassembly_Spec "HOL-Library.Monad_Syntax"
begin

section \<open>The IPv6 defragmenter\<close>

text \<open>
  \<^verbatim>\<open>net/ip_spatial_defragmenter_ipv6.hpp\<close>. The walk over the extension headers adds a
  length that is read as a signed byte, so that it may go back, or stay, and need not end: it is a
  partial function whose value is \<^term>\<open>None\<close> when the loop runs forever. An access outside a
  buffer, and a shift by more than the width, is a value of the type \<open>fault\<close>. On fragments with
  ordinary extension headers and a payload length that covers them the defragmenter implements the
  contract of a reassembler; the properties at the end describe what the other packets do to it.
\<close>

datatype fault = Wild_Read | Wild_Write | Bad_Shift

subsection \<open>The frame\<close>

definition ipv6_plen :: "u8 list \<Rightarrow> u16" where "ipv6_plen f = ld16 f 18"
definition ipv6_nxt :: "u8 list \<Rightarrow> u8" where "ipv6_nxt f = f ! 20"
definition ipv6_src0 :: "u8 list \<Rightarrow> u64" where "ipv6_src0 f = ld64 f 22"
definition ipv6_src1 :: "u8 list \<Rightarrow> u64" where "ipv6_src1 f = ld64 f 30"
definition ipv6_dst0 :: "u8 list \<Rightarrow> u64" where "ipv6_dst0 f = ld64 f 38"
definition ipv6_dst1 :: "u8 list \<Rightarrow> u64" where "ipv6_dst1 f = ld64 f 46"

subsection \<open>The extension headers\<close>

datatype walk_result = Too_Short | Out_Of_Frame | At u8 u32

definition ext_step :: "u8 list \<Rightarrow> u32 \<Rightarrow> u32" where
  "ext_step data l4_offset = l4_offset + (scast (data ! (unat l4_offset + 1)) + 1) * 8"

partial_function (option) ext_walk :: "u8 list \<Rightarrow> u8 \<Rightarrow> u32 \<Rightarrow> walk_result option" where
  "ext_walk data nxt_hdr l4_offset =
     (if nxt_hdr \<noteq> 6 \<and> nxt_hdr \<noteq> 17 \<and> nxt_hdr \<noteq> 59
      then if length data < unat (l4_offset + 8) then Some Too_Short
           else if length data < unat l4_offset + 8 then Some Out_Of_Frame
           else if nxt_hdr = 44 then Some (At 44 l4_offset)
           else ext_walk data (data ! unat l4_offset) (ext_step data l4_offset)
      else Some (At nxt_hdr l4_offset))"

subsection \<open>Entries\<close>

record frag_entry =
  fe_src0 :: u64
  fe_src1 :: u64
  fe_dst0 :: u64
  fe_dst1 :: u64
  fe_frag_id :: u32
  fe_active :: bool
  fe_total_expected_length :: u32
  fe_current_bytes_received :: u32
  fe_highest_byte_received :: u32
  fe_first_active_ts :: u64
  fe_presence_mask :: mask
  fe_buffer :: memory
  fe_header_len :: u32
  fe_next_header :: u8
  fe_original_header :: memory

record ip_spatial_defragmenter_ipv6 =
  d6_slots :: "frag_entry list"
  d6_reassembled :: memory

definition fe_zero :: "frag_entry \<Rightarrow> frag_entry" where
  "fe_zero s = s\<lparr>fe_src0 := 0, fe_src1 := 0, fe_dst0 := 0, fe_dst1 := 0, fe_frag_id := 0, fe_active := False,
     fe_total_expected_length := 0, fe_current_bytes_received := 0, fe_highest_byte_received := 0, fe_first_active_ts := 0,
     fe_presence_mask := replicate 1024 0\<rparr>"

definition fe_new :: frag_entry where
  "fe_new = \<lparr>fe_src0 = 0, fe_src1 = 0, fe_dst0 = 0, fe_dst1 = 0, fe_frag_id = 0, fe_active = False, fe_total_expected_length = 0,
     fe_current_bytes_received = 0, fe_highest_byte_received = 0, fe_first_active_ts = 0, fe_presence_mask = replicate 1024 0,
     fe_buffer = (\<lambda>_. 0), fe_header_len = 0, fe_next_header = 0, fe_original_header = (\<lambda>_. 0)\<rparr>"

definition d6_new :: "nat \<Rightarrow> ip_spatial_defragmenter_ipv6" where
  "d6_new MaxConcurrentFrags = \<lparr>d6_slots = replicate MaxConcurrentFrags fe_new, d6_reassembled = (\<lambda>_. 0)\<rparr>"

definition frag6_hash :: "nat \<Rightarrow> u8 list \<Rightarrow> u32 \<Rightarrow> u32" where
  "frag6_hash MaxConcurrentFrags f frag_id =
     (let mix = ipv6_src0 f XOR ipv6_src1 f XOR ipv6_dst0 f XOR ipv6_dst1 f XOR ucast frag_id
      in ucast (ucast (ucast (mix XOR drop_bit 32 mix) :: u32) AND (of_nat MaxConcurrentFrags - 1 :: u64)))"

definition entry_matches :: "u8 list \<Rightarrow> u32 \<Rightarrow> frag_entry \<Rightarrow> bool" where
  "entry_matches f frag_id s = (fe_active s \<and> fe_frag_id s = frag_id \<and> fe_src0 s = ipv6_src0 f \<and> fe_src1 s = ipv6_src1 f
     \<and> fe_dst0 s = ipv6_dst0 f \<and> fe_dst1 s = ipv6_dst1 f)"

definition entry_free :: "u64 \<Rightarrow> frag_entry \<Rightarrow> bool" where
  "entry_free now s = (\<not> fe_active s \<or> now - fe_first_active_ts s > 30000)"

definition claim_entry :: "u8 list \<Rightarrow> u32 \<Rightarrow> u32 \<Rightarrow> u64 \<Rightarrow> frag_entry \<Rightarrow> frag_entry" where
  "claim_entry f frag_id l4_offset now s = (fe_zero s)\<lparr>fe_src0 := ipv6_src0 f, fe_src1 := ipv6_src1 f, fe_dst0 := ipv6_dst0 f,
     fe_dst1 := ipv6_dst1 f, fe_frag_id := frag_id, fe_active := True, fe_first_active_ts := now, fe_header_len := l4_offset,
     fe_next_header := f ! unat l4_offset, fe_original_header := put_bytes (fe_original_header s) 0 (take (min (unat l4_offset) 128) f)\<rparr>"

fun probe6 :: "u8 list \<Rightarrow> u32 \<Rightarrow> u32 \<Rightarrow> u64 \<Rightarrow> u32 \<Rightarrow> nat list \<Rightarrow> frag_entry list \<Rightarrow> (nat \<times> frag_entry list) option" where
  "probe6 f frag_id l4_offset now hash [] slots = None"
| "probe6 f frag_id l4_offset now hash (i # is) slots =
     (let idx = slot (length slots) (ucast hash + of_nat i)
      in if entry_matches f frag_id (slots ! idx) then Some (idx, slots)
         else if entry_free now (slots ! idx) then Some (idx, slots[idx := claim_entry f frag_id l4_offset now (slots ! idx)])
         else probe6 f frag_id l4_offset now hash is slots)"

subsection \<open>Adding a fragment\<close>

text \<open>One pass over the words of the mask that checks and marks at once: on an overlap the words
  already passed stay marked. The end of the range is a 32-bit sum.\<close>

fun fill_check :: "nat list \<Rightarrow> mask \<Rightarrow> bool \<times> mask" where
  "fill_check [] m = (True, m)"
| "fill_check (i # is) m = (if m ! i \<noteq> 0 then (False, m) else fill_check is (m[i := NOT 0]))"

definition check_and_set :: "u32 \<Rightarrow> u32 \<Rightarrow> mask \<Rightarrow> fault + bool \<times> mask" where
  "check_and_set offset_bytes payload_len m =
     (let start_word = unat (offset_bytes div 64); end_word = unat ((offset_bytes + payload_len) div 64);
          start_bit = unat (offset_bytes mod 64); end_bit = unat ((offset_bytes + payload_len) mod 64)
      in if start_word = end_word
         then if 64 < payload_len then Inl Bad_Shift
              else let msk = span_mask (unat payload_len) start_bit
                   in if m ! start_word AND msk \<noteq> 0 then Inr (False, m) else Inr (True, m[start_word := m ! start_word OR msk])
         else if m ! start_word AND head_mask start_bit \<noteq> 0 then Inr (False, m)
         else let (ok, m1) = fill_check [start_word + 1..<end_word] (m[start_word := m ! start_word OR head_mask start_bit])
              in if \<not> ok then Inr (False, m1)
                 else if 0 < end_bit
                      then if m1 ! end_word AND tail_mask end_bit \<noteq> 0 then Inr (False, m1)
                           else Inr (True, m1[end_word := m1 ! end_word OR tail_mask end_bit])
                      else Inr (True, m1))"

definition integrate6 :: "u32 \<Rightarrow> u8 list \<Rightarrow> bool \<Rightarrow> frag_entry \<Rightarrow> frag_entry" where
  "integrate6 offset_bytes payload more_fragments s =
     (let e = offset_bytes + of_nat (length payload);
          s1 = s\<lparr>fe_buffer := put_bytes (fe_buffer s) (unat offset_bytes) payload,
                 fe_current_bytes_received := fe_current_bytes_received s + of_nat (length payload)\<rparr>;
          s2 = (if fe_highest_byte_received s1 < e then s1\<lparr>fe_highest_byte_received := e\<rparr> else s1)
      in if more_fragments then s2 else s2\<lparr>fe_total_expected_length := e\<rparr>)"

definition reassembly6_complete :: "frag_entry \<Rightarrow> bool" where
  "reassembly6_complete s = (0 < fe_total_expected_length s \<and> fe_current_bytes_received s = fe_total_expected_length s
     \<and> fe_highest_byte_received s = fe_total_expected_length s)"

text \<open>The header is copied from an array of 128 bytes. With a header shorter than eight bytes, which a
  walk that has gone backwards can leave, the index \<^verbatim>\<open>header_len - 8\<close> wraps to the end of the 32-bit
  range and the store leaves the array \<^verbatim>\<open>reassembled\<close>.\<close>

definition synthesize6 :: "frag_entry \<Rightarrow> memory \<Rightarrow> fault + memory" where
  "synthesize6 s r =
     (let hl = unat (fe_header_len s); total = unat (fe_total_expected_length s)
      in if 128 < hl then Inl Wild_Read
         else if hl < 8 then Inl Wild_Write
         else let r1 = put_bytes r 0 (map (fe_original_header s) [0..<hl]);
                  r2 = put_bytes r1 hl (map (fe_buffer s) [0..<total]);
                  r3 = put_bytes r2 18 (le_bytes 2 (host_to_network16 (ucast (fe_header_len s - 54 + fe_total_expected_length s))))
              in Inr (if hl = 54 then r3(20 := fe_next_header s) else r3(hl - 8 := fe_next_header s)))"

text \<open>The part of the handler after the extension headers. The copy of the payload reads the frame
  from \<^verbatim>\<open>header_len\<close> and writes the buffer of 65536 bytes at the offset.\<close>

definition frag6_offset :: "u8 list \<Rightarrow> u32 \<Rightarrow> u16" where
  "frag6_offset f l4_offset = network_to_host16 (ld16 f (unat l4_offset + 2))"

definition frag6_id :: "u8 list \<Rightarrow> u32 \<Rightarrow> u32" where
  "frag6_id f l4_offset = network_to_host32 (ld32 f (unat l4_offset + 4))"

definition frag6_payload_len :: "u8 list \<Rightarrow> u32 \<Rightarrow> u32" where
  "frag6_payload_len f l4_offset = 14 + 40 + ucast (network_to_host16 (ipv6_plen f)) - (l4_offset + 8)"

definition add_to_entry :: "u8 list \<Rightarrow> u32 \<Rightarrow> nat \<Rightarrow> frag_entry list \<Rightarrow> ip_spatial_defragmenter_ipv6
    \<Rightarrow> fault + memory option \<times> ip_spatial_defragmenter_ipv6" where
  "add_to_entry f l4_offset idx slots st =
     (let offset_bytes = ucast (frag6_offset f l4_offset AND 0xFFF8); payload_len = frag6_payload_len f l4_offset;
          header_len = unat (l4_offset + 8)
      in case check_and_set offset_bytes payload_len (fe_presence_mask (slots ! idx)) of
           Inl e \<Rightarrow> Inl e
         | Inr (False, m) \<Rightarrow> Inr (None, st\<lparr>d6_slots := slots[idx := (slots ! idx)\<lparr>fe_presence_mask := m\<rparr>]\<rparr>)
         | Inr (True, m) \<Rightarrow>
             if length f < header_len + unat payload_len then Inl Wild_Read
             else if 65536 < unat offset_bytes + unat payload_len then Inl Wild_Write
             else let s = integrate6 offset_bytes (take (unat payload_len) (drop header_len f)) (frag6_offset f l4_offset AND 1 \<noteq> 0)
                            ((slots ! idx)\<lparr>fe_presence_mask := m\<rparr>)
                  in if reassembly6_complete s
                     then case synthesize6 s (d6_reassembled st) of
                            Inl e \<Rightarrow> Inl e
                          | Inr r \<Rightarrow> Inr (Some r, st\<lparr>d6_slots := slots[idx := s\<lparr>fe_active := False\<rparr>], d6_reassembled := r\<rparr>)
                     else Inr (None, st\<lparr>d6_slots := slots[idx := s]\<rparr>))"

definition process_fragment6_at :: "u8 list \<Rightarrow> u64 \<Rightarrow> u32 \<Rightarrow> ip_spatial_defragmenter_ipv6 \<Rightarrow> fault + memory option \<times> ip_spatial_defragmenter_ipv6" where
  "process_fragment6_at f now l4_offset st =
     (let plen = unat (network_to_host16 (ipv6_plen f)); payload_len = frag6_payload_len f l4_offset;
          offset_bytes = ucast (frag6_offset f l4_offset AND 0xFFF8); frag_id = frag6_id f l4_offset
      in if length f < 14 + 40 + plen then Inr (None, st)
         else if payload_len = 0 \<or> 65535 < offset_bytes + payload_len then Inr (None, st)
         else case probe6 f frag_id l4_offset now (frag6_hash (length (d6_slots st)) f frag_id) [0..<8] (d6_slots st) of
                None \<Rightarrow> Inr (None, st)
              | Some (idx, slots) \<Rightarrow> add_to_entry f l4_offset idx slots st)"

text \<open>The whole handler. \<^term>\<open>None\<close> means that it does not return.\<close>

definition process_fragment6 :: "u8 list \<Rightarrow> u64 \<Rightarrow> ip_spatial_defragmenter_ipv6 \<Rightarrow> (fault + memory option \<times> ip_spatial_defragmenter_ipv6) option" where
  "process_fragment6 f now st = do {
     w \<leftarrow> ext_walk f (ipv6_nxt f) 54;
     Some (case w of
       Too_Short \<Rightarrow> Inr (None, st)
     | Out_Of_Frame \<Rightarrow> Inl Wild_Read
     | At nxt l4_offset \<Rightarrow> if nxt \<noteq> 44 then Inr (None, st) else process_fragment6_at f now l4_offset st) }"

declare ext_walk.simps [code]

subsection \<open>Marking a range that is free\<close>

lemma fill_check_free:
  "\<lbrakk>distinct is; \<forall>i\<in>set is. i < length m \<and> m ! i = 0\<rbrakk> \<Longrightarrow> fill_check is m = (True, fill_words (NOT 0) is m)"
proof (induction "is" arbitrary: m)
  case (Cons i "is")
  then have "fill_check is (m[i := NOT 0]) = (True, fill_words (NOT 0) is (m[i := NOT 0]))"
    by (intro Cons.IH) (auto simp: nth_list_update)
  with Cons.prems show ?case by (simp add: fill_words_def)
qed (simp add: fill_words_def)

lemma unat_div_mod_64: "unat (w div 64 :: u32) = unat w div 64" "unat (w mod 64 :: u32) = unat w mod 64"
  by (simp_all add: unat_div unat_mod)

lemma unat_sum_u32: "unat (a :: u32) + unat b \<le> 65535 \<Longrightarrow> unat (a + b) = unat a + unat b"
  by (simp add: unat_word_ariths)

lemma check_and_set_free:
  assumes "0 < len" "unat off + unat len \<le> 65535" "length m = 1024" "\<not> range_hits (unat off) (unat len) m"
  shows "check_and_set off len m = Inr (True, range_set (unat off) (unat len) m)"
proof -
  let ?o = "unat off" and ?l = "unat len"
  have s: "unat (off + len) = ?o + ?l" using unat_sum_u32 assms(2) by blast
  have pos: "0 < ?l" using assms(1) by (simp add: word_less_nat_alt)
  note rw = range_words [OF pos, of ?o m]
  show ?thesis
  proof (cases "?o div 64 = (?o + ?l) div 64")
    case True
    then have "?l < 64" using range_one_word [of ?o ?l] by simp
    then have "\<not> 64 < len" by (simp add: word_less_nat_alt)
    then show ?thesis using True assms(4)
      by (simp add: check_and_set_def range_hits_def range_set_def unat_div_mod_64 s Let_def)
  next
    case False
    have w: "(?o + ?l) div 64 \<le> 1024" "?o div 64 < 1024" using rw assms(2,3) by simp_all
    have z: "m ! (?o div 64) AND head_mask (?o mod 64) = 0" "\<forall>i\<in>set [?o div 64 + 1..<(?o + ?l) div 64]. m ! i = 0"
      "0 < (?o + ?l) mod 64 \<longrightarrow> m ! ((?o + ?l) div 64) AND tail_mask ((?o + ?l) mod 64) = 0"
      using False assms(4) by (auto simp: range_hits_def Let_def list_ex_iff)
    let ?m1 = "m[?o div 64 := m ! (?o div 64) OR head_mask (?o mod 64)]"
    have fc: "fill_check [?o div 64 + 1..<(?o + ?l) div 64] ?m1 = (True, fill_words (NOT 0) [?o div 64 + 1..<(?o + ?l) div 64] ?m1)"
      using z(2) w assms(3) by (intro fill_check_free) auto
    have t: "fill_words (NOT 0) [?o div 64 + 1..<(?o + ?l) div 64] ?m1 ! ((?o + ?l) div 64) = m ! ((?o + ?l) div 64)"
      if "0 < (?o + ?l) mod 64"
    proof -
      have "(?o + ?l) div 64 < 1024" using rw(2) False that assms(2,3) by simp
      then show ?thesis using False assms(3) by (simp add: nth_fill_words)
    qed
    show ?thesis using False z(1,3) fc t
      by (simp add: check_and_set_def range_set_def unat_div_mod_64 s Let_def)
  qed
qed

subsection \<open>One entry against the abstract datagram\<close>

definition fe_inv :: "frag_entry \<Rightarrow> bool" where
  "fe_inv s = counted (fe_presence_mask s) (unat (fe_highest_byte_received s)) (unat (fe_current_bytes_received s))"

definition fe_abs :: "frag_entry \<Rightarrow> datagram" where
  "fe_abs s = (received (fe_presence_mask s) (fe_buffer s), unat (fe_total_expected_length s))"

lemma claim_entry_fresh: "fe_inv (claim_entry f i l now s)" "fe_abs (claim_entry f i l now s) = (\<lambda>_. None, 0)"
  "entry_matches f i (claim_entry f i l now s)" "fe_header_len (claim_entry f i l now s) = l"
  using counted_empty by (simp_all add: fe_inv_def fe_abs_def claim_entry_def fe_zero_def entry_matches_def received_def)

lemma integrate6_fields:
  fixes s m off p mf
  defines "s' \<equiv> integrate6 off p mf (s\<lparr>fe_presence_mask := m\<rparr>)"
  shows "fe_presence_mask s' = m" "fe_buffer s' = put_bytes (fe_buffer s) (unat off) p"
    "fe_current_bytes_received s' = fe_current_bytes_received s + of_nat (length p)"
    "fe_highest_byte_received s' = (if fe_highest_byte_received s < off + of_nat (length p) then off + of_nat (length p) else fe_highest_byte_received s)"
    "fe_total_expected_length s' = (if mf then fe_total_expected_length s else off + of_nat (length p))"
    "fe_active s' = fe_active s" "fe_src0 s' = fe_src0 s" "fe_src1 s' = fe_src1 s" "fe_dst0 s' = fe_dst0 s" "fe_dst1 s' = fe_dst1 s"
    "fe_frag_id s' = fe_frag_id s" "fe_header_len s' = fe_header_len s"
  by (simp_all add: s'_def integrate6_def Let_def)

lemma integrate6_adds:
  fixes mf :: bool
  assumes inv: "fe_inv s" and p: "p \<noteq> []" "unat off + length p \<le> 65535" and disj: "present (fe_presence_mask s) \<inter> {unat off..<unat off + length p} = {}"
  defines "s' \<equiv> integrate6 off p mf (s\<lparr>fe_presence_mask := range_set (unat off) (length p) (fe_presence_mask s)\<rparr>)"
  shows "fe_inv s'" "fe_abs s' = add_frag (unat off, p, mf) (fe_abs s)"
proof -
  note f = integrate6_fields [where off = off and p = p and mf = mf and s = s and m = "range_set (unat off) (length p) (fe_presence_mask s)", folded s'_def]
  note c = counted_add [OF inv [unfolded fe_inv_def] _ p(2) disj]
  have l: "unat (of_nat (length p) :: u32) = length p" using p(2) by (intro unat_of_nat_u32) simp
  have cur: "unat (fe_current_bytes_received s') = unat (fe_current_bytes_received s) + length p"
    unfolding f using l c(2) p(1) by (simp add: unat_word_ariths)
  have e: "unat (off + of_nat (length p)) = unat off + length p" using p(2) l by (simp add: unat_word_ariths)
  have h: "unat (fe_highest_byte_received s') = max (unat (fe_highest_byte_received s)) (unat off + length p)"
    unfolding f using e by (simp add: word_less_nat_alt max_def)
  show "fe_inv s'" unfolding fe_inv_def cur h using c(1) p(1) by (simp add: f)
  show "fe_abs s' = add_frag (unat off, p, mf) (fe_abs s)"
    unfolding fe_abs_def using received_add [OF c(3)] p(1) e by (simp add: f)
qed

lemma reassembly6_complete_iff:
  assumes "fe_inv s"
  shows "reassembly6_complete s \<longleftrightarrow> complete (fe_abs s)"
  using counted_complete [OF assms [unfolded fe_inv_def]]
  by (auto simp: reassembly6_complete_def fe_abs_def complete_received word_less_nat_alt word_unat_eq_iff)

subsection \<open>The packet that is handed out\<close>

lemma of_nat_u16_of_u32: "ucast (of_nat n :: u32) = (of_nat n :: u16)"
  by (simp add: word_unat_eq_iff unsigned_ucast_eq unat_of_nat take_bit_nat_def mod_mod_cancel)

definition carries6 :: "nat \<Rightarrow> memory \<Rightarrow> u8 list \<Rightarrow> bool" where
  "carries6 hl out P \<longleftrightarrow> (\<forall>i<length P. out (hl + i) = P ! i) \<and> network_to_host16 (ld16 (map out [0..<hl]) 18) = of_nat (hl - 54 + length P)"

lemma synthesize6_carries:
  assumes hl: "54 \<le> unat (fe_header_len s)" "unat (fe_header_len s) \<le> 128"
  shows "\<exists>out. synthesize6 s r = Inr out \<and> carries6 (unat (fe_header_len s)) out (map (fe_buffer s) [0..<unat (fe_total_expected_length s)])"
proof -
  let ?h = "unat (fe_header_len s)" and ?n = "unat (fe_total_expected_length s)"
  let ?w = "host_to_network16 (ucast (fe_header_len s - 54 + fe_total_expected_length s))"
  define r2 where "r2 = put_bytes (put_bytes r 0 (map (fe_original_header s) [0..<?h])) ?h (map (fe_buffer s) [0..<?n])"
  define r3 where "r3 = put_bytes r2 18 (le_bytes 2 ?w)"
  define out where "out = (if ?h = 54 then r3(20 := fe_next_header s) else r3(?h - 8 := fe_next_header s))"
  have syn: "synthesize6 s r = Inr out" using hl by (simp add: synthesize6_def Let_def out_def r3_def r2_def)
  have pay: "out (?h + i) = fe_buffer s i" if "i < ?n" for i
  proof -
    have "out (?h + i) = r3 (?h + i)" using hl by (auto simp: out_def)
    also have "\<dots> = r2 (?h + i)" using hl by (simp add: r3_def put_bytes_other)
    finally show ?thesis using that by (simp add: r2_def put_bytes_def)
  qed
  have "out 18 = r3 18" "out 19 = r3 19" using hl by (auto simp: out_def)
  then have b: "out 18 = le_bytes 2 ?w ! 0" "out 19 = le_bytes 2 ?w ! 1" by (simp_all add: r3_def put_bytes_def)
  have "ld16 (map out [0..<?h]) 18 = ?w" using b ld16_map [of 18 ?h out] hl(1) le_word_2 [of "le_bytes 2 ?w", where 'a = 16] le_word_bytes [of 2 ?w] by simp
  moreover have "ucast (fe_header_len s - 54 + fe_total_expected_length s) = (of_nat (?h - 54 + ?n) :: u16)"
  proof -
    have "fe_header_len s - 54 + fe_total_expected_length s = of_nat (?h - 54 + ?n)" using hl(1) by (simp add: of_nat_diff)
    then show ?thesis by (simp only: of_nat_u16_of_u32)
  qed
  ultimately have "network_to_host16 (ld16 (map out [0..<?h]) 18) = of_nat (?h - 54 + ?n)"
    by (simp add: host_to_network16_def network_to_host16_def byteswap_involutive)
  then show ?thesis using syn pay by (simp add: carries6_def)
qed

subsection \<open>The table\<close>

text \<open>A fragment with its fragment header at \<open>L\<close>, reached over extension headers of ordinary
  length, whose payload length covers the headers and ends inside the frame.\<close>

definition frag6_ok :: "u32 \<Rightarrow> u8 list \<Rightarrow> bool" where
  "frag6_ok L f \<longleftrightarrow> ext_walk f (ipv6_nxt f) 54 = Some (At 44 L) \<and> 54 \<le> unat L \<and> unat L \<le> 128
     \<and> unat L + 8 < 54 + unat (network_to_host16 (ipv6_plen f)) \<and> 54 + unat (network_to_host16 (ipv6_plen f)) \<le> length f
     \<and> unat (frag6_offset f L AND 0xFFF8) + (54 + unat (network_to_host16 (ipv6_plen f)) - (unat L + 8)) \<le> 65535"

definition frag6_decode :: "u32 \<Rightarrow> u8 list \<Rightarrow> fragment" where
  "frag6_decode L f = (unat (frag6_offset f L AND 0xFFF8), take (unat (frag6_payload_len f L)) (drop (unat L + 8) f), frag6_offset f L AND 1 \<noteq> 0)"

definition datagram6_key :: "u32 \<Rightarrow> u8 list \<Rightarrow> u64 \<times> u64 \<times> u64 \<times> u64 \<times> u32" where
  "datagram6_key L f = (ipv6_src0 f, ipv6_src1 f, ipv6_dst0 f, ipv6_dst1 f, frag6_id f L)"

definition home6 :: "nat \<Rightarrow> u32 \<Rightarrow> u8 list \<Rightarrow> nat" where
  "home6 cap L f = slot cap (ucast (frag6_hash cap f (frag6_id f L)))"

lemma home6_key: "datagram6_key L f = datagram6_key L g \<Longrightarrow> home6 c L f = home6 c L g \<and> entry_matches f (frag6_id f L) s = entry_matches g (frag6_id g L) s"
  by (auto simp: datagram6_key_def home6_def frag6_hash_def entry_matches_def)

lemma frag6_ok_facts:
  assumes "frag6_ok L f"
  shows "unat (frag6_payload_len f L) = 54 + unat (network_to_host16 (ipv6_plen f)) - (unat L + 8)" "unat (L + 8) = unat L + 8"
    "unat (ucast (frag6_offset f L AND 0xFFF8) :: u32) = unat (frag6_offset f L AND 0xFFF8)"
    "0 < frag6_payload_len f L" "unat L + 8 + unat (frag6_payload_len f L) \<le> length f"
    "unat (frag6_offset f L AND 0xFFF8) + unat (frag6_payload_len f L) \<le> 65535"
proof -
  let ?p = "network_to_host16 (ipv6_plen f)"
  have L: "unat L \<le> 128" "unat L + 8 < 54 + unat ?p" using assms by (simp_all add: frag6_ok_def)
  show u: "unat (L + 8) = unat L + 8" using L(1) by (simp add: unat_word_ariths)
  have p: "unat ?p < 65536" using unsigned_less [of ?p, where 'a = nat] by simp
  then have "unat (14 + 40 + ucast ?p :: u32) = 54 + unat ?p" by (simp add: unat_word_ariths unsigned_ucast_eq take_bit_nat_def)
  then show pl: "unat (frag6_payload_len f L) = 54 + unat ?p - (unat L + 8)" unfolding frag6_payload_len_def
    using u L(2) by (subst unat_sub) (simp_all add: word_le_nat_alt)
  then show "0 < frag6_payload_len f L" using L(2) by (simp add: word_less_nat_alt)
  show "unat (ucast (frag6_offset f L AND 0xFFF8) :: u32) = unat (frag6_offset f L AND 0xFFF8)"
    using unsigned_less [of "frag6_offset f L AND 0xFFF8", where 'a = nat] by (simp add: unsigned_ucast_eq take_bit_nat_def)
  show "unat L + 8 + unat (frag6_payload_len f L) \<le> length f" "unat (frag6_offset f L AND 0xFFF8) + unat (frag6_payload_len f L) \<le> 65535"
    using assms pl L by (simp_all add: frag6_ok_def)
qed

definition d6_inv :: "u32 \<Rightarrow> u8 list \<Rightarrow> ip_spatial_defragmenter_ipv6 \<Rightarrow> bool" where
  "d6_inv L g st \<longleftrightarrow> pow2_cap (length (d6_slots st))
     \<and> (let s = d6_slots st ! home6 (length (d6_slots st)) L g in fe_active s \<longrightarrow> entry_matches g (frag6_id g L) s \<and> fe_inv s \<and> fe_header_len s = L)"

definition d6_abs :: "u32 \<Rightarrow> u8 list \<Rightarrow> ip_spatial_defragmenter_ipv6 \<Rightarrow> datagram" where
  "d6_abs L g st = (let s = d6_slots st ! home6 (length (d6_slots st)) L g in if fe_active s then fe_abs s else (\<lambda>_. None, 0))"

lemma probe6_home:
  assumes "entry_matches f i s \<or> \<not> fe_active s" "s = slots ! slot (length slots) (ucast hash)"
  shows "probe6 f i l now hash [0..<8] slots = Some (slot (length slots) (ucast hash),
     slots[slot (length slots) (ucast hash) := if fe_active s then s else claim_entry f i l now s])"
proof -
  have "[0..<8] = 0 # [1..<8 :: nat]" by (simp add: upt_conv_Cons)
  then show ?thesis using assms by (auto simp: entry_free_def entry_matches_def Let_def)
qed

lemma process6_refines:
  fixes now
  assumes inv: "d6_inv L g st" and ok: "frag6_ok L f" "datagram6_key L f = datagram6_key L g"
    and disj: "frag_range (frag6_decode L f) \<inter> dom (fst (d6_abs L g st)) = {}"
  defines "d \<equiv> add_frag (frag6_decode L f) (d6_abs L g st)"
  shows "if complete d then \<exists>out st'. process_fragment6 f now st = Some (Inr (Some out, st')) \<and> carries6 (unat L) out (datagram_bytes d)
     else \<exists>st'. process_fragment6 f now st = Some (Inr (None, st')) \<and> d6_inv L g st' \<and> d6_abs L g st' = d"
proof -
  let ?c = "length (d6_slots st)" and ?i = "frag6_id f L"
  define h where "h = home6 ?c L f"
  note hd = home6_key [OF ok(2)]
  have hg: "home6 ?c L g = h" using hd by (simp add: h_def)
  have pc: "pow2_cap ?c" using inv by (simp add: d6_inv_def)
  then have h: "h < ?c" unfolding h_def home6_def by (rule slot_less)
  define s0 where "s0 = (if fe_active (d6_slots st ! h) then d6_slots st ! h else claim_entry f ?i L now (d6_slots st ! h))"
  have act: "entry_matches f ?i (d6_slots st ! h) \<or> \<not> fe_active (d6_slots st ! h)"
    using inv hd by (auto simp: d6_inv_def Let_def hg)
  have s0: "fe_inv s0" "fe_abs s0 = d6_abs L g st" "entry_matches f ?i s0" "fe_header_len s0 = L"
    using inv act claim_entry_fresh [of f ?i L now "d6_slots st ! h"] by (auto simp: d6_inv_def d6_abs_def Let_def hg s0_def)
  have pr: "probe6 f ?i L now (frag6_hash ?c f ?i) [0..<8] (d6_slots st) = Some (h, (d6_slots st)[h := s0])"
    using probe6_home [OF act, of "d6_slots st" "frag6_hash ?c f ?i" L now] by (simp add: h_def home6_def s0_def)
  note okf = frag6_ok_facts [OF ok(1)]
  let ?off = "ucast (frag6_offset f L AND 0xFFF8) :: u32" and ?n = "frag6_payload_len f L"
  define p where "p = take (unat ?n) (drop (unat L + 8) f)"
  have lp: "length p = unat ?n" using okf(5) by (simp add: p_def)
  have p: "p \<noteq> []" "unat ?off + length p \<le> 65535" using okf(3,4,6) lp by (auto simp: word_less_nat_alt)
  have m: "length (fe_presence_mask s0) = 1024" "present (fe_presence_mask s0) \<inter> {unat ?off..<unat ?off + length p} = {}"
    using s0(1) disj by (auto simp: fe_inv_def counted_def fe_abs_def frag6_decode_def frag_range_def okf(3) p_def simp flip: s0(2))
  have nh: "\<not> range_hits (unat ?off) (unat ?n) (fe_presence_mask s0)"
    using range_hits_iff [of "unat ?n" "unat ?off" "fe_presence_mask s0"] m p lp okf(4) by (auto simp: word_less_nat_alt)
  have cs: "check_and_set ?off ?n (fe_presence_mask s0) = Inr (True, range_set (unat ?off) (length p) (fe_presence_mask s0))"
    using check_and_set_free [OF okf(4) _ m(1) nh] p(2) lp by simp
  define mf where "mf = (frag6_offset f L AND 1 \<noteq> 0)"
  define s1 where "s1 = integrate6 ?off p mf (s0\<lparr>fe_presence_mask := range_set (unat ?off) (length p) (fe_presence_mask s0)\<rparr>)"
  have s1: "fe_inv s1" "fe_abs s1 = d"
    using integrate6_adds [OF s0(1) p m(2), of mf] s0(2) by (simp_all add: s1_def d_def frag6_decode_def okf(3) p_def mf_def)
  have k: "entry_matches f ?i s1" "fe_header_len s1 = L" using s0(3,4) by (simp_all add: s1_def entry_matches_def integrate6_fields)
  have bound: "\<not> 65535 < ?off + ?n" using okf(3,6) unat_sum_u32 [of ?off ?n] by (simp add: word_less_nat_alt)
  have len: "\<not> length f < 54 + unat (network_to_host16 (ipv6_plen f))" using ok(1) by (simp add: frag6_ok_def)
  have at: "process_fragment6_at f now L st = add_to_entry f L h ((d6_slots st)[h := s0]) st"
    using pr bound len okf(4) by (simp add: process_fragment6_at_def Let_def word_gt_0)
  have res: "process_fragment6 f now st = Some (if complete d
     then (case synthesize6 s1 (d6_reassembled st) of Inl e \<Rightarrow> Inl e
           | Inr r \<Rightarrow> Inr (Some r, st\<lparr>d6_slots := (d6_slots st)[h := s1\<lparr>fe_active := False\<rparr>], d6_reassembled := r\<rparr>))
     else Inr (None, st\<lparr>d6_slots := (d6_slots st)[h := s1]\<rparr>))"
  proof -
    have "process_fragment6 f now st = Some (process_fragment6_at f now L st)" using ok(1) by (simp add: process_fragment6_def frag6_ok_def)
    moreover have "\<not> length f < unat (L + 8) + unat ?n" "\<not> 65536 < unat ?off + unat ?n" using okf(2,3,5,6) by simp_all
    moreover have "nth ((d6_slots st)[h := s0]) h = s0" using h by simp
    ultimately show ?thesis using reassembly6_complete_iff [OF s1(1)]
      unfolding s1(2) at add_to_entry_def Let_def list_update_overwrite okf(2) p_def [symmetric] mf_def [symmetric]
      by (simp only: cs sum.case prod.case bool.case s1_def [symmetric] if_False)
  qed
  show ?thesis
  proof (cases "complete d")
    case True
    obtain out where "synthesize6 s1 (d6_reassembled st) = Inr out" "carries6 (unat L) out (map (fe_buffer s1) [0..<unat (fe_total_expected_length s1)])"
      using synthesize6_carries [of s1 "d6_reassembled st"] ok(1) k(2) by (auto simp: frag6_ok_def)
    moreover have "datagram_bytes d = map (fe_buffer s1) [0..<unat (fe_total_expected_length s1)]"
      using received_bytes True s1(2) by (metis fe_abs_def)
    ultimately show ?thesis using True res by simp
  next
    case False
    then show ?thesis using res s1 k pc h hd hg by (auto simp: d6_inv_def d6_abs_def entry_matches_def Let_def)
  qed
qed

subsection \<open>Sequences of fragments\<close>

text \<open>A run keeps going until a packet makes it fault or loop; from then on nothing is handed out.\<close>

definition step6 :: "u8 list \<times> u64 \<Rightarrow> (fault + ip_spatial_defragmenter_ipv6) option
    \<Rightarrow> memory option \<times> (fault + ip_spatial_defragmenter_ipv6) option" where
  "step6 p x = (case p of (f, now) \<Rightarrow> case x of
      Some (Inr st) \<Rightarrow> (case process_fragment6 f now st of
          Some (Inr (r, st')) \<Rightarrow> (r, Some (Inr st')) | Some (Inl e) \<Rightarrow> (None, Some (Inl e)) | None \<Rightarrow> (None, None))
    | _ \<Rightarrow> (None, x))"

fun process_fragments6 :: "(u8 list \<times> u64) list \<Rightarrow> (fault + ip_spatial_defragmenter_ipv6) option
    \<Rightarrow> memory option list \<times> (fault + ip_spatial_defragmenter_ipv6) option" where
  "process_fragments6 [] x = ([], x)"
| "process_fragments6 (p # ps) x = (let (r, x1) = step6 p x; (rs, x2) = process_fragments6 ps x1 in (r # rs, x2))"

definition run6_inv :: "u32 \<Rightarrow> u8 list \<Rightarrow> (fault + ip_spatial_defragmenter_ipv6) option \<Rightarrow> bool" where
  "run6_inv L g x = (case x of Some (Inr st) \<Rightarrow> d6_inv L g st | _ \<Rightarrow> False)"

definition run6_abs :: "u32 \<Rightarrow> u8 list \<Rightarrow> (fault + ip_spatial_defragmenter_ipv6) option \<Rightarrow> datagram" where
  "run6_abs L g x = (case x of Some (Inr st) \<Rightarrow> d6_abs L g st | _ \<Rightarrow> (\<lambda>_. None, 0))"

interpretation v6: reassembler step6 "\<lambda>(f, now). frag6_decode L f"
  "\<lambda>(f, now). frag6_ok L f \<and> datagram6_key L f = datagram6_key L g" "run6_inv L g" "run6_abs L g" "carries6 (unat L)" for L g
proof
  fix x and p :: "u8 list \<times> u64"
  obtain f now where p: "p = (f, now)" by (cases p)
  assume "run6_inv L g x"
  then obtain st where x: "x = Some (Inr st)" "d6_inv L g st" by (auto simp: run6_inv_def split: option.splits sum.splits)
  assume "case p of (f, now) \<Rightarrow> frag6_ok L f \<and> datagram6_key L f = datagram6_key L g"
    "frag_range (case p of (f, now) \<Rightarrow> frag6_decode L f) \<inter> dom (fst (run6_abs L g x)) = {}"
  then have f: "frag6_ok L f" "datagram6_key L f = datagram6_key L g" "frag_range (frag6_decode L f) \<inter> dom (fst (d6_abs L g st)) = {}"
    by (simp_all add: p x run6_abs_def)
  note r = process6_refines [OF x(2) f, of now]
  have a: "run6_abs L g x = d6_abs L g st" by (simp add: x run6_abs_def)
  show "\<exists>out s'. step6 p x = (Some out, s') \<and> carries6 (unat L) out (datagram_bytes (add_frag (case p of (f, now) \<Rightarrow> frag6_decode L f) (run6_abs L g x)))"
    if "complete (add_frag (case p of (f, now) \<Rightarrow> frag6_decode L f) (run6_abs L g x))"
    using r that by (auto simp: p step6_def x(1) a [unfolded x(1)])
  show "\<exists>s'. step6 p x = (None, s') \<and> run6_inv L g s' \<and> run6_abs L g s' = add_frag (case p of (f, now) \<Rightarrow> frag6_decode L f) (run6_abs L g x)"
    if "\<not> complete (add_frag (case p of (f, now) \<Rightarrow> frag6_decode L f) (run6_abs L g x))"
    using r that by (auto simp: p step6_def x(1) a [unfolded x(1)] run6_inv_def run6_abs_def)
qed

lemma run_process_fragments6: "v6.run fs x = process_fragments6 fs x"
  by (induction fs arbitrary: x) (auto split: prod.splits)

subsection \<open>Properties\<close>

text \<open>(C29) The fragments of an IPv6 payload that follow ordinary extension headers, fed in any order
  to a defragmenter whose first entry for the datagram is free, hand out nothing until the last of
  them, which hands out a packet that carries the payload.\<close>

theorem ip6_any_order:
  assumes "pow2_cap (length (d6_slots st))" "\<not> fe_active (d6_slots st ! home6 (length (d6_slots st)) L g)"
    and "\<forall>(f, now)\<in>set fs. frag6_ok L f \<and> datagram6_key L f = datagram6_key L g"
    and "fragmentation P (map (\<lambda>(f, now). frag6_decode L f) fs)" "P \<noteq> []"
  shows "\<exists>out x. process_fragments6 fs (Some (Inr st)) = (replicate (length fs - 1) None @ [Some out], x) \<and> carries6 (unat L) out P"
  using v6.any_order [of L g "Some (Inr st)" fs P] assms
  by (simp add: run6_inv_def run6_abs_def d6_inv_def d6_abs_def run_process_fragments6)

definition example6_frame :: "u8 \<Rightarrow> u8 list \<Rightarrow> u8 list" where
  "example6_frame off payload = replicate 14 0 @ [0x60, 0, 0, 0, 0, of_nat (8 + length payload), 44, 64] @ replicate 15 0 @ [1] @ replicate 15 0 @ [2]
     @ [17, 0, 0, off, 0, 0, 0, 9] @ payload"

lemmas frag6_eval = example6_frame_def frag6_ok_def frag6_decode_def frag6_offset_def frag6_payload_len_def frag6_id_def datagram6_key_def
  ipv6_plen_def ipv6_nxt_def ipv6_src0_def ipv6_src1_def ipv6_dst0_def ipv6_dst1_def ld16_def ld32_def ld64_def network_to_host16_def byteswap16_def
  network_to_host32_def byteswap32_def nth_append ext_walk.simps [of _ 44]

lemma example6_frames:
  "frag6_ok 54 (example6_frame 1 [1, 2, 3, 4, 5, 6, 7, 8])" "frag6_decode 54 (example6_frame 1 [1, 2, 3, 4, 5, 6, 7, 8]) = (0, [1, 2, 3, 4, 5, 6, 7, 8], True)"
  "frag6_ok 54 (example6_frame 8 [9, 10, 11])" "frag6_decode 54 (example6_frame 8 [9, 10, 11]) = (8, [9, 10, 11], False)"
  "datagram6_key 54 (example6_frame 1 [1, 2, 3, 4, 5, 6, 7, 8]) = datagram6_key 54 (example6_frame 8 [9, 10, 11])"
  by (simp_all add: frag6_eval)

lemma d6_new_free: "pow2_cap (length (d6_slots (d6_new 8)))" "\<not> fe_active (d6_slots (d6_new 8) ! home6 (length (d6_slots (d6_new 8))) L f)"
proof -
  show p: "pow2_cap (length (d6_slots (d6_new 8)))" using pow2_cap_of [of 3] by (simp add: d6_new_def)
  have "home6 (length (d6_slots (d6_new 8))) L f < 8" using slot_less [OF p] by (simp add: home6_def d6_new_def)
  then show "\<not> fe_active (d6_slots (d6_new 8) ! home6 (length (d6_slots (d6_new 8))) L f)" by (simp add: d6_new_def fe_new_def)
qed

theorem ip6_any_order_witness:
  "\<exists>out x. process_fragments6 [(example6_frame 8 [9, 10, 11], 5), (example6_frame 1 [1, 2, 3, 4, 5, 6, 7, 8], 6)] (Some (Inr (d6_new 8)))
     = ([None, Some out], x) \<and> carries6 54 out [1, 2, 3, 4, 5, 6, 7, 8, 9, 10, 11]"
proof -
  have "fragmentation [1, 2, 3, 4, 5, 6, 7, 8, 9, 10, 11] [(8, [9, 10, 11], False), (0, [1, 2, 3, 4, 5, 6, 7, 8], True)]"
    by (auto simp: fragmentation_def frag_of_def frag_range_def)
  then show ?thesis
    using ip6_any_order [where L = 54 and st = "d6_new 8" and g = "example6_frame 8 [9, 10, 11]"
        and fs = "[(example6_frame 8 [9, 10, 11], 5), (example6_frame 1 [1, 2, 3, 4, 5, 6, 7, 8], 6)]"
        and P = "[1, 2, 3, 4, 5, 6, 7, 8, 9, 10, 11]", OF d6_new_free]
    by (simp add: example6_frames)
qed

subsubsection \<open>Extension headers that do not advance\<close>

text \<open>The walk ends when every byte that may be the length of an extension header is below 128: the
  offset then grows with every header and stays inside the frame.\<close>

lemma small_byte_bits: "unat (b :: u8) < 128 \<Longrightarrow> bit b n \<Longrightarrow> n < 7"
proof -
  assume "unat b < 128" "bit b n"
  then have "unat (take_bit 7 b) = unat b" by (simp add: unsigned_take_bit_eq take_bit_nat_def)
  then have "take_bit 7 b = b" by (simp add: word_unat_eq_iff)
  with \<open>bit b n\<close> show "n < 7" by (metis bit_take_bit_iff)
qed

lemma ext_step_forward:
  assumes "unat l4 + 8 \<le> length f" "length f < 2 ^ 31" "f ! (unat l4 + 1) < 0x80"
  shows "unat l4 < unat (ext_step f l4)" "8 dvd unat (ext_step f l4) - unat l4"
proof -
  let ?b = "f ! (unat l4 + 1)"
  have b: "unat ?b < 128" using assms(3) by (simp add: word_less_nat_alt)
  have "(scast ?b :: u32) = ucast ?b"
  proof (rule bit_word_eqI)
    fix n assume "n < LENGTH(32)"
    then show "bit (scast ?b :: u32) n \<longleftrightarrow> bit (ucast ?b :: u32) n"
      using small_byte_bits [OF b, of n] small_byte_bits [OF b, of "min 7 n"] by (auto simp: bit_simps min_def split: if_splits)
  qed
  then have "unat (scast ?b :: u32) = unat ?b" using b by (simp add: unsigned_ucast_eq take_bit_nat_def)
  then have "unat ((scast ?b + 1) * 8 :: u32) = (unat ?b + 1) * 8" using b by (simp add: unat_word_ariths)
  then have "unat (ext_step f l4) = unat l4 + (unat ?b + 1) * 8" using b assms(1,2) by (simp add: ext_step_def unat_word_ariths)
  then show "unat l4 < unat (ext_step f l4)" "8 dvd unat (ext_step f l4) - unat l4" by simp_all
qed

lemma ext_walk_ends:
  assumes "length f < 2 ^ 31" "\<And>k. 54 \<le> k \<Longrightarrow> k mod 8 = 6 \<Longrightarrow> k + 8 \<le> length f \<Longrightarrow> f ! (k + 1) < 0x80"
  shows "54 \<le> unat l4 \<Longrightarrow> unat l4 mod 8 = 6 \<Longrightarrow> \<exists>w. ext_walk f nxt l4 = Some w"
proof (induction "length f - unat l4" arbitrary: nxt l4 rule: less_induct)
  case less
  show ?case
  proof (cases "unat l4 + 8 \<le> length f")
    case True
    note s = ext_step_forward [OF True assms(1) assms(2) [OF less.prems True]]
    have "unat (ext_step f l4) mod 8 = 6" using s less.prems(2) by (metis add_diff_inverse_nat dvd_eq_mod_eq_0 mod_add_right_eq add.right_neutral nat_less_le not_less)
    then have "\<exists>w. ext_walk f n (ext_step f l4) = Some w" for n using s(1) less.prems(1) True by (intro less.hyps) auto
    then show ?thesis by (subst ext_walk.simps) auto
  next
    case False
    then show ?thesis by (subst ext_walk.simps) auto
  qed
qed

text \<open>(C30) A first extension header whose length byte is 255 is taken to be zero bytes long. When the
  next header it names is again none of those that end the walk (TCP, UDP, no next header,
  fragment), the walk reads it again and again, and the handler never returns. One packet of 62
  bytes stops the receiving thread.\<close>

theorem ip6_walk_hangs:
  assumes "62 \<le> length f" "f ! 55 = 0xFF" "ipv6_nxt f \<notin> {6, 17, 59, 44}" "f ! 54 \<notin> {6, 17, 59, 44}"
  shows "process_fragment6 f now st = None"
proof -
  have step: "ext_step f 54 = 54" using assms(2) by (simp add: ext_step_def)
  have "\<not> (data = f \<and> l4 = 54 \<and> nxt \<notin> {6, 17, 59, 44})" if "ext_walk data nxt l4 = Some w" for data nxt l4 w
  proof (rule ext_walk.raw_induct [where P = "\<lambda>data nxt l4 w. \<not> (data = f \<and> l4 = 54 \<and> nxt \<notin> {6, 17, 59, 44})", OF _ that], rule notI)
    fix walk data nxt l4 w
    assume ih: "\<And>data nxt l4 w. walk data nxt l4 = Some w \<Longrightarrow> \<not> (data = f \<and> l4 = 54 \<and> nxt \<notin> {6, 17, 59, 44})"
      and eq: "(if nxt \<noteq> 6 \<and> nxt \<noteq> 17 \<and> nxt \<noteq> 59
        then if length data < unat (l4 + 8) then Some Too_Short else if length data < unat l4 + 8 then Some Out_Of_Frame
             else if nxt = 44 then Some (At 44 l4) else walk data (data ! unat l4) (ext_step data l4)
        else Some (At nxt l4)) = Some w"
      and a: "data = f \<and> l4 = 54 \<and> nxt \<notin> {6, 17, 59, 44}"
    then have "walk f (f ! 54) 54 = Some w" using assms(1) step by (simp split: if_splits)
    then show False using ih [of f "f ! 54" 54 w] assms(4) by blast
  qed
  then have "ext_walk f (ipv6_nxt f) 54 = None" using assms(3) by (metis not_None_eq)
  then show ?thesis by (simp add: process_fragment6_def)
qed

definition hanging_frame :: "u8 list" where
  "hanging_frame = replicate 20 0 @ [60, 64] @ replicate 32 0 @ [60, 0xFF] @ replicate 6 0"

theorem ip6_walk_hangs_witness: "process_fragment6 hanging_frame 0 (d6_new 8) = None"
  by (rule ip6_walk_hangs) (simp_all add: hanging_frame_def ipv6_nxt_def nth_append)

text \<open>A payload length that misses \<open>d\<close> bytes of the headers gives a copy of \<open>2 ^ 32 - d\<close> bytes.\<close>

lemma short_payload_wraps:
  assumes "54 \<le> unat L" "unat L + 8 < 2 ^ 31" "54 + unat (network_to_host16 (ipv6_plen f)) < unat L + 8"
  defines "d \<equiv> unat L + 8 - (54 + unat (network_to_host16 (ipv6_plen f)))"
  shows "unat (frag6_payload_len f L) = 2 ^ 32 - d" "d \<le> unat off \<Longrightarrow> unat (off + frag6_payload_len f L) = unat off - d" "0 < d" "d < 2 ^ 31"
proof -
  let ?p = "network_to_host16 (ipv6_plen f)"
  have dd: "54 + unat ?p + d = unat L + 8" using assms(3) by (simp add: d_def)
  have "54 + ucast ?p + of_nat d = (of_nat (54 + unat ?p + d) :: u32)" by simp
  also have "\<dots> = of_nat (unat L + 8)" by (simp only: dd)
  also have "\<dots> = L + 8" by simp
  finally have "54 + ucast ?p + of_nat d = L + 8" .
  then have n: "frag6_payload_len f L = - of_nat d" by (simp add: frag6_payload_len_def algebra_simps)
  show "0 < d" "d < 2 ^ 31" using assms(2,3) by (simp_all add: d_def)
  then have u: "unat (of_nat d :: u32) = d" by (intro unat_of_nat_u32) simp
  show "unat (frag6_payload_len f L) = 2 ^ 32 - d"
    unfolding n using unat_plus_if' [of "- of_nat d" "of_nat d :: u32"] u \<open>0 < d\<close> by (simp split: if_splits)
  show "unat (off + frag6_payload_len f L) = unat off - d" if "d \<le> unat off" using unat_sub_of_nat32 [OF that] by (simp add: n)
qed

lemma check_and_set_wrapped:
  assumes "64 < n" "unat (off + n) < unat off" "unat off \<le> 65535"
  shows "(\<exists>e. check_and_set off n (replicate 1024 0) = Inl e) \<or> (\<exists>m. check_and_set off n (replicate 1024 0) = Inr (True, m))"
proof (cases "unat off div 64 = unat (off + n) div 64")
  case True
  then show ?thesis using assms(1) by (simp add: check_and_set_def unat_div_mod_64 Let_def)
next
  case False
  have "unat off div 64 < 1024" using assms(3) by linarith
  moreover have "unat (off + n) div 64 < unat off div 64" using False div_le_mono [of "unat (off + n)" "unat off" 64] assms(2) by simp
  ultimately show ?thesis using False by (simp add: check_and_set_def unat_div_mod_64 Let_def)
qed

text \<open>(C31) A fragment whose payload length does not cover its headers, at an offset not below what is
  missing, passes the length check, because the 32-bit sum wraps around, and the copy of nearly four
  gigabytes runs out of the frame, unless the shift before it is already undefined.\<close>

theorem ip6_short_plen_faults:
  assumes walk: "ext_walk f (ipv6_nxt f) 54 = Some (At 44 L)" and L: "54 \<le> unat L" "unat L + 8 \<le> length f" "length f < 2 ^ 31"
    and short: "54 + unat (network_to_host16 (ipv6_plen f)) < unat L + 8"
    and off: "unat L + 8 - (54 + unat (network_to_host16 (ipv6_plen f))) \<le> unat (frag6_offset f L AND 0xFFF8)"
    and "pow2_cap (length (d6_slots st))" and inactive: "\<not> fe_active (d6_slots st ! home6 (length (d6_slots st)) L f)"
  shows "\<exists>e. process_fragment6 f now st = Some (Inl e)"
proof -
  let ?n = "frag6_payload_len f L" and ?o = "ucast (frag6_offset f L AND 0xFFF8) :: u32" and ?c = "length (d6_slots st)" and ?i = "frag6_id f L"
  define h where "h = home6 ?c L f"
  have h: "h < ?c" unfolding h_def home6_def using assms(7) by (rule slot_less)
  have o: "unat ?o = unat (frag6_offset f L AND 0xFFF8)" "unat ?o \<le> 65535"
    using unsigned_less [of "frag6_offset f L AND 0xFFF8", where 'a = nat] by (simp_all add: unsigned_ucast_eq take_bit_nat_def)
  have "unat L + 8 < 2 ^ 31" using L(2,3) by linarith
  note w = short_payload_wraps [OF L(1) this short]
  have big: "2 ^ 31 \<le> unat ?n" using w(1,4) by simp
  have sum: "unat (?o + ?n) \<le> 65535" "unat (?o + ?n) < unat ?o" using w(2) [of ?o] w(3) off o by simp_all
  let ?s = "claim_entry f ?i L now (d6_slots st ! h)"
  have pr: "probe6 f ?i L now (frag6_hash ?c f ?i) [0..<8] (d6_slots st) = Some (h, (d6_slots st)[h := ?s])"
    using probe6_home [of f ?i "d6_slots st ! h" "d6_slots st" "frag6_hash ?c f ?i" L now] inactive by (simp add: h_def home6_def)
  have at: "process_fragment6_at f now L st = add_to_entry f L h ((d6_slots st)[h := ?s]) st"
    using pr sum(1) big short L(2) by (auto simp: process_fragment6_at_def Let_def word_less_nat_alt)
  have m: "fe_presence_mask ?s = replicate 1024 0" by (simp add: claim_entry_def fe_zero_def)
  have "64 < ?n" using big by (simp add: word_less_nat_alt)
  note cs = check_and_set_wrapped [OF this sum(2) o(2)]
  have "length f < unat (L + 8) + unat ?n" using big L(3) by simp
  with cs have "\<exists>e. add_to_entry f L h ((d6_slots st)[h := ?s]) st = Inl e"
    using h m by (auto simp: add_to_entry_def Let_def)
  then show ?thesis using walk at by (auto simp: process_fragment6_def)
qed

definition short_frame :: "u8 list" where
  "short_frame = replicate 18 0 @ [0, 0, 44, 64] @ replicate 32 0 @ [17, 0, 0, 8, 0, 0, 0, 9]"

theorem ip6_short_plen_faults_witness: "\<exists>e. process_fragment6 short_frame 0 (d6_new 8) = Some (Inl e)"
proof (rule ip6_short_plen_faults [where L = 54])
  show "pow2_cap (length (d6_slots (d6_new 8)))" "\<not> fe_active (d6_slots (d6_new 8) ! home6 (length (d6_slots (d6_new 8))) 54 short_frame)"
    by (rule d6_new_free)+
qed (simp_all add: short_frame_def frag6_eval)

text \<open>The pass over the mask that refuses a fragment leaves the words before the overlap marked: the
  bytes of the first word count as received although they were never copied, and the fragment that
  brings them is refused.\<close>

lemma ip6_refusal_marks:
  assumes "w + 2 \<le> 1023" "length m = 1024" "m ! w = 0" "m ! (w + 1) \<noteq> 0" "128 \<le> unat len" "64 * w + unat len \<le> 65535"
  shows "check_and_set (of_nat (64 * w)) len m = Inr (False, m[w := NOT 0])"
    "check_and_set (of_nat (64 * w)) 64 (m[w := NOT 0]) = Inr (False, m[w := NOT 0])"
proof -
  have u: "unat (of_nat (64 * w) :: u32) = 64 * w" using assms(1) by (intro unat_of_nat_u32) simp
  have e: "unat (of_nat (64 * w) + len) = 64 * w + unat len" "unat (of_nat (64 * w) + 64 :: u32) = 64 * w + 64"
    using unat_sum_u32 [of "of_nat (64 * w)" len] unat_sum_u32 [of "of_nat (64 * w)" 64] u assms(1,6) by simp_all
  have d: "(64 * w + unat len) div 64 \<noteq> w" "[Suc w..<(64 * w + unat len) div 64] = Suc w # [Suc (Suc w)..<(64 * w + unat len) div 64]"
    using assms(5) by (simp_all add: upt_conv_Cons div_less_iff_less_mult)
  show "check_and_set (of_nat (64 * w)) len m = Inr (False, m[w := NOT 0])"
    using assms(3,4) d unfolding check_and_set_def Let_def unat_div_mod_64 u e by (simp add: head_mask_def)
  show "check_and_set (of_nat (64 * w)) 64 (m[w := NOT 0]) = Inr (False, m[w := NOT 0])"
    using assms(1,2) unfolding check_and_set_def Let_def unat_div_mod_64 u e by (simp add: head_mask_def)
qed

end
