(* ===== verification/Tcp_Block.thy ===== *)
theory Tcp_Block
  imports Spsc_Ring_Conduit Ooo_Matrix Wire
begin

section \<open>The TCP transmission control block\<close>

text \<open>
  \<^verbatim>\<open>net/tcp_transmission_control_block.hpp\<close>: the phases, the flags and the block of a
  connection, one record per cache line of the structure, each extending the one before. The conduits
  and the reassembly matrix it points to are parts of the record (\<^term>\<open>None\<close> is the null
  pointer). The second half is \<^verbatim>\<open>outbound_tcp_segment\<close> of
  \<^verbatim>\<open>net/tcp_flow_engine.hpp\<close>: a handle on a packet buffer. Packet buffers belong to DPDK,
  whose reference counting and allocation are parameters; the bytes of a buffer are a memory, by the
  number of the buffer, where zero is the null pointer.
\<close>

subsection \<open>Phases and flags\<close>

definition PHASE_CLOSED :: u16 where "PHASE_CLOSED = 0x00"
definition PHASE_LISTEN :: u16 where "PHASE_LISTEN = 0x01"
definition PHASE_SYN_SENT :: u16 where "PHASE_SYN_SENT = 0x02"
definition PHASE_SYN_RCVD :: u16 where "PHASE_SYN_RCVD = 0x04"
definition PHASE_ESTABLISHED :: u16 where "PHASE_ESTABLISHED = 0x08"
definition PHASE_FIN_WAIT1 :: u16 where "PHASE_FIN_WAIT1 = 0x10"
definition PHASE_FIN_WAIT2 :: u16 where "PHASE_FIN_WAIT2 = 0x20"
definition PHASE_TIME_WAIT :: u16 where "PHASE_TIME_WAIT = 0x40"
definition PHASE_CLOSE_WAIT :: u16 where "PHASE_CLOSE_WAIT = 0x80"
definition PHASE_LAST_ACK :: u16 where "PHASE_LAST_ACK = 0x0100"
definition PHASE_CLOSING :: u16 where "PHASE_CLOSING = 0x0200"

lemmas phase_defs = PHASE_CLOSED_def PHASE_LISTEN_def PHASE_SYN_SENT_def PHASE_SYN_RCVD_def PHASE_ESTABLISHED_def
  PHASE_FIN_WAIT1_def PHASE_FIN_WAIT2_def PHASE_TIME_WAIT_def PHASE_CLOSE_WAIT_def PHASE_LAST_ACK_def PHASE_CLOSING_def

definition TEMP_FLAG_ACK_PENDING :: u8 where "TEMP_FLAG_ACK_PENDING = 0x01"
definition TEMP_FLAG_ZWP_ACTIVE :: u8 where "TEMP_FLAG_ZWP_ACTIVE = 0x02"
definition TEMP_FLAG_KEEPALIVE :: u8 where "TEMP_FLAG_KEEPALIVE = 0x04"
definition TEMP_FLAG_ARP_WAIT :: u8 where "TEMP_FLAG_ARP_WAIT = 0x08"
definition TEMP_FLAG_RETRANSMIT :: u8 where "TEMP_FLAG_RETRANSMIT = 0x10"
definition TEMP_FLAG_KEEPALIVE_PROBE :: u8 where "TEMP_FLAG_KEEPALIVE_PROBE = 0x20"
definition TEMP_FLAG_ECN_ECHO :: u8 where "TEMP_FLAG_ECN_ECHO = 0x40"
definition TEMP_FLAG_CWR :: u8 where "TEMP_FLAG_CWR = 0x80"

lemmas temp_flag_defs = TEMP_FLAG_ACK_PENDING_def TEMP_FLAG_ZWP_ACTIVE_def TEMP_FLAG_KEEPALIVE_def TEMP_FLAG_ARP_WAIT_def
  TEMP_FLAG_RETRANSMIT_def TEMP_FLAG_KEEPALIVE_PROBE_def TEMP_FLAG_ECN_ECHO_def TEMP_FLAG_CWR_def

definition FLAG_FIN :: u8 where "FLAG_FIN = 0x01"
definition FLAG_SYN :: u8 where "FLAG_SYN = 0x02"
definition FLAG_RST :: u8 where "FLAG_RST = 0x04"
definition FLAG_PSH :: u8 where "FLAG_PSH = 0x08"
definition FLAG_ACK :: u8 where "FLAG_ACK = 0x10"
definition FLAG_URG :: u8 where "FLAG_URG = 0x20"
definition FLAG_ECE :: u8 where "FLAG_ECE = 0x40"
definition FLAG_CWR :: u8 where "FLAG_CWR = 0x80"

lemmas tcp_flag_defs = FLAG_FIN_def FLAG_SYN_def FLAG_RST_def FLAG_PSH_def FLAG_ACK_def FLAG_URG_def FLAG_ECE_def FLAG_CWR_def

text \<open>\<^verbatim>\<open>x & f\<close> as a condition.\<close>

definition has :: "'a::len word \<Rightarrow> 'a word \<Rightarrow> bool" where
  "has x f = (x AND f \<noteq> 0)"

subsection \<open>The block\<close>

record outbound_tcp_segment =
  seg_mbuf :: nat
  seg_is_sacked :: bool

record tcb_line1 =
  snd_una :: u32
  snd_nxt :: u32
  rcv_nxt :: u32
  snd_wnd :: u32
  rcv_wnd :: u32
  cwnd :: u32
  ssthresh :: u32
  remote_ipv4 :: u32
  local_ipv4 :: u32
  remote_port :: u16
  local_port :: u16
  phase_mask :: u16
  remote_mss :: u16
  dup_acks :: u8
  snd_wscale :: u8
  rcv_wscale :: u8
  temporal_flags :: u8
  rto_deadline_tsc :: u64
  flags_pending :: u8
  rto_retries :: u8
  zwp_retries :: u8
  sack_permitted :: u8
  ts_permitted :: u8
  keepalive_retries :: u8
  ecn_permitted :: u8
  control_payload_len :: u8

record tcb_line2 = tcb_line1 +
  rx_stream_ring :: "u8 ring_state option"
  tx_egress_conduit :: "outbound_tcp_segment ring_state option"
  tx_unacked_ring :: "outbound_tcp_segment ring_state option"
  tx_mbuf_pool :: bool
  tcb_ooo_matrix :: "ooo_matrix option"
  target_mac :: "u8 list"
  expected_ttl :: u8
  challenge_ack_cnt :: u8
  last_challenge_tsc :: u64
  highest_rtx_seq :: u32

record tcb_line3 = tcb_line2 +
  delayed_ack_deadline_tsc :: u64
  persist_deadline_tsc :: u64
  time_wait_deadline_tsc :: u64
  keepalive_deadline_tsc :: u64
  srtt :: u64
  rttvar :: u64
  rto :: u32
  otsp_t_base :: u64

record tcb_line4 = tcb_line3 +
  otsp_d_shadow :: u64
  otsp_d_active :: u64
  otsp_epoch :: u32
  recover :: u32
  ts_recent :: u32
  ts_val :: u32
  sack_left_edges :: "u32 list"
  sack_right_edges :: "u32 list"
  sack_valid :: "bool list"
  quick_ack_cnt :: u8
  idle_start_ms :: u32

record tcb = tcb_line4 +
  remote_ipv6 :: "u64 \<times> u64"
  local_ipv6 :: "u64 \<times> u64"
  is_ipv6 :: u8

subsection \<open>Packet buffers\<close>

text \<open>What the engine uses of DPDK: reading and raising the reference count of a buffer, freeing it and
  allocating one, on the state of the pool.\<close>

record 'p dpdk =
  refcnt_read :: "nat \<Rightarrow> 'p \<Rightarrow> u16"
  refcnt_update :: "nat \<Rightarrow> 'p \<Rightarrow> 'p"
  pktmbuf_free :: "nat \<Rightarrow> 'p \<Rightarrow> 'p"
  pktmbuf_alloc :: "'p \<Rightarrow> nat \<times> 'p"

record 'p buffers =
  bf_pool :: 'p
  bf_data :: "nat \<Rightarrow> memory"
  bf_data_len :: "nat \<Rightarrow> u16"
  bf_pkt_len :: "nat \<Rightarrow> u32"

text \<open>Fields of the frame in a buffer.\<close>

definition mem16 :: "memory \<Rightarrow> nat \<Rightarrow> u16" where
  "mem16 m i = le_word [m i, m (i + 1)]"

definition mem32 :: "memory \<Rightarrow> nat \<Rightarrow> u32" where
  "mem32 m i = le_word [m i, m (i + 1), m (i + 2), m (i + 3)]"

definition frame_write :: "nat \<Rightarrow> nat \<Rightarrow> u8 list \<Rightarrow> 'p buffers \<Rightarrow> 'p buffers" where
  "frame_write b i bs B = B\<lparr>bf_data := (bf_data B)(b := put_bytes (bf_data B b) i bs)\<rparr>"

definition frame_bytes :: "nat \<Rightarrow> nat \<Rightarrow> nat \<Rightarrow> 'p buffers \<Rightarrow> u8 list" where
  "frame_bytes b i n B = map (bf_data B b) [i..<i + n]"

subsection \<open>Outbound segments\<close>

definition tcp_seq_of :: "memory \<Rightarrow> u32" where
  "tcp_seq_of m = network_to_host32 (mem32 m 38)"

definition tcp_flags_of :: "memory \<Rightarrow> u8" where
  "tcp_flags_of m = m 47"

definition data_offset_words :: "bool \<Rightarrow> memory \<Rightarrow> u8" where
  "data_offset_words v6 m = drop_bit 4 (m (if v6 then 66 else 46))"

definition get_payload :: "bool \<Rightarrow> memory \<Rightarrow> nat" where
  "get_payload v6 m = (if v6 then 54 else 34) + unat (data_offset_words v6 m) * 4"

definition get_payload_length :: "bool \<Rightarrow> memory \<Rightarrow> u32" where
  "get_payload_length v6 m =
     (if v6
      then let plen = ucast (network_to_host16 (mem16 m 18)); tcp_header_len = ucast (data_offset_words True m) * 4
           in if tcp_header_len < plen then plen - tcp_header_len else 0
      else let len = ucast (network_to_host16 (mem16 m 16)); ip_hlen = ucast ((m 14 AND 0x0F) * 4);
               headers = ip_hlen + ucast (data_offset_words False m) * 4
           in if headers < len then len - headers else 0)"

text \<open>The frame is padded to 60 bytes with one 64-bit store of zeros.\<close>

definition set_payload_length :: "nat \<Rightarrow> u32 \<Rightarrow> bool \<Rightarrow> 'p buffers \<Rightarrow> 'p buffers" where
  "set_payload_length b len v6 B =
     (let header_len = of_nat (get_payload v6 (bf_data B b));
          len1 = (if 65535 - header_len < len then 65535 - header_len else len);
          total_len = header_len + len1;
          B1 = (if total_len < 60 then frame_write b (unat total_len) (replicate 8 0) B else B);
          total = (if total_len < 60 then 60 else total_len)
      in B1\<lparr>bf_data_len := (bf_data_len B1)(b := ucast total), bf_pkt_len := (bf_pkt_len B1)(b := total)\<rparr>)"

definition retain :: "'p dpdk \<Rightarrow> nat \<Rightarrow> 'p buffers \<Rightarrow> bool \<times> 'p buffers" where
  "retain D b B =
     (if b \<noteq> 0
      then if 0xFF00 \<le> refcnt_read D b (bf_pool B) then (False, B) else (True, B\<lparr>bf_pool := refcnt_update D b (bf_pool B)\<rparr>)
      else (True, B))"

definition release :: "'p dpdk \<Rightarrow> outbound_tcp_segment \<Rightarrow> 'p buffers \<Rightarrow> outbound_tcp_segment \<times> 'p buffers" where
  "release D s B =
     (if seg_mbuf s \<noteq> 0 then (s\<lparr>seg_mbuf := 0\<rparr>, B\<lparr>bf_pool := pktmbuf_free D (seg_mbuf s) (bf_pool B)\<rparr>) else (s, B))"

end
