(* ===== verification/Tcp_Timers.thy ===== *)
theory Tcp_Timers
  imports Tcp_Block
begin

section \<open>TCP timers\<close>

text \<open>
  \<^verbatim>\<open>net/tcp_retransmit_timer.hpp\<close>, the round-trip estimator and the retransmission
  timeout, and \<^verbatim>\<open>net/tcp_temporal_wheel.hpp\<close>, the tick that drives all timers of a
  connection, with the retransmission of the first unacknowledged segment over the ring conduits. Times
  are in milliseconds. A part of the tick that returns early says so with a flag.
\<close>

subsection \<open>The round-trip estimator\<close>

record rto_tracker =
  tr_srtt :: u64
  tr_rttvar :: u64
  tr_rto :: u32

definition sync_receive_window :: "u64 \<Rightarrow> tcb \<Rightarrow> tcb" where
  "sync_receive_window available_rx_capacity t = t\<lparr>rcv_wnd := (if 65535 < available_rx_capacity then 65535 else ucast available_rx_capacity)\<rparr>"

definition RTO_MIN_MS :: u64 where
  "RTO_MIN_MS = 200"

text \<open>Jacobson's filter: signed differences, shifted arithmetically.\<close>

definition rtt_filter :: "u64 \<Rightarrow> u64 \<times> u64 \<Rightarrow> u64 \<times> u64" where
  "rtt_filter delta_t e = (case e of (s, v) \<Rightarrow>
     if s = 0 then (delta_t, drop_bit 1 delta_t)
     else let err = delta_t - s;
              s' = s + signed_drop_bit 3 err;
              abs_err = (if err <s 0 then - err else err);
              var_err = abs_err - v
          in (s', v + signed_drop_bit 2 var_err))"

definition record_coordinate :: "u64 \<Rightarrow> u64 \<Rightarrow> u32 \<Rightarrow> tcb \<Rightarrow> tcb" where
  "record_coordinate t_tx t_rx seq_rx t =
     (if has (temporal_flags t) TEMP_FLAG_RETRANSMIT then t
      else let (s, v) = rtt_filter (t_rx - t_tx) (srtt t, rttvar t) in t\<lparr>srtt := s, rttvar := v\<rparr>)"

definition record_ack_rtt :: "u64 \<Rightarrow> rto_tracker \<Rightarrow> rto_tracker" where
  "record_ack_rtt delta_t r =
     (let (s, v) = rtt_filter delta_t (tr_srtt r, tr_rttvar r) in r\<lparr>tr_srtt := s, tr_rttvar := v, tr_rto := ucast (s + push_bit 2 v)\<rparr>)"

definition extract_rto_boundary :: "tcb \<Rightarrow> u64" where
  "extract_rto_boundary t =
     (if srtt t = 0 then 1000
      else let r = srtt t + push_bit 2 (rttvar t);
               r' = (if r < RTO_MIN_MS then RTO_MIN_MS else r)
           in push_bit (min (unat (rto_retries t)) 6) r')"

subsection \<open>The retransmission timer\<close>

definition safe_half :: "u32 \<Rightarrow> u32" where
  "safe_half c = (if 2920 < drop_bit 1 c then drop_bit 1 c else 2920)"

definition on_temporal_tick :: "u64 \<Rightarrow> tcb \<Rightarrow> tcb" where
  "on_temporal_tick now t =
     (if phase_mask t = PHASE_CLOSED \<or> phase_mask t = PHASE_LISTEN then t
      else if snd_una t \<noteq> snd_nxt t
      then if rto_deadline_tsc t = 0 then t\<lparr>rto_deadline_tsc := now + extract_rto_boundary t\<rparr>
           else if rto_deadline_tsc t < now
           then if 15 \<le> rto_retries t then t\<lparr>phase_mask := PHASE_CLOSED, flags_pending := flags_pending t OR FLAG_RST\<rparr>
                else let t1 = t\<lparr>rto_retries := min (rto_retries t + 1) 15\<rparr>;
                         safe_cwnd = (if 1460 \<le> cwnd t1 then cwnd t1 else 1460);
                         t2 = t1\<lparr>ssthresh := safe_half safe_cwnd, cwnd := 1460, dup_acks := 0\<rparr>;
                         next_rto = extract_rto_boundary t2
                     in t2\<lparr>rto_deadline_tsc := now + min next_rto 180000000000, snd_nxt := snd_una t2,
                           temporal_flags := temporal_flags t2 OR TEMP_FLAG_RETRANSMIT\<rparr>
           else t
      else t\<lparr>rto_deadline_tsc := 0\<rparr>)"

subsection \<open>Retransmitting a segment\<close>

text \<open>Acknowledgement and window of the frame are brought up to date, and both checksums.\<close>

definition advertised_window :: "u32 \<Rightarrow> u16" where
  "advertised_window wnd = host_to_network16 (if 65535 < wnd then 65535 else ucast wnd)"

definition pseudo_header_sum :: "u32 \<Rightarrow> u32 \<Rightarrow> u16 \<Rightarrow> u32" where
  "pseudo_header_sum src dst tcp_len =
     (src AND 0xFFFF) + drop_bit 16 src + ((dst AND 0xFFFF) + drop_bit 16 dst)
     + ucast (host_to_network16 6) + ucast (host_to_network16 tcp_len)"

definition refresh_frame :: "tcb \<Rightarrow> nat \<Rightarrow> 'p buffers \<Rightarrow> 'p buffers" where
  "refresh_frame t b B =
     (let B1 = frame_write b 42 (le_bytes 4 (host_to_network32 (rcv_nxt t))) B;
          B2 = frame_write b 48 (le_bytes 2 (advertised_window (drop_bit (unat (rcv_wscale t)) (rcv_wnd t)))) B1;
          B3 = frame_write b 24 (le_bytes 2 (0 :: u16)) B2;
          B4 = frame_write b 24 (le_bytes 2 (compute_checksum False (frame_bytes b 14 20 B3) 0)) B3;
          m = bf_data B4 b;
          tcp_len = network_to_host16 (mem16 m 16) - ucast (m 14 AND 0x0F) * 4;
          pseudo_sum = pseudo_header_sum (mem32 m 26) (mem32 m 30) tcp_len;
          B5 = frame_write b 50 (le_bytes 2 (0 :: u16)) B4
      in frame_write b 50 (le_bytes 2 (compute_checksum False (frame_bytes b 34 (unat tcp_len) B5) pseudo_sum)) B5)"

text \<open>The frame of a lost segment is put into the slot behind the last one of the egress conduit.
  \<^verbatim>\<open>get_reserved_slot\<close> always gives a slot, whether or not the conduit has room.\<close>

definition requeue :: "'p dpdk \<Rightarrow> outbound_tcp_segment \<Rightarrow> outbound_tcp_segment ring_state \<Rightarrow> tcb \<times> 'p buffers \<Rightarrow> bool \<times> tcb \<times> 'p buffers" where
  "requeue D lost_frame egress c = (case c of (t, B) \<Rightarrow>
     let i = rc_get_reserved_slot 0 egress;
         egress1 = ring_poke i ((ring_buf egress ! i)\<lparr>seg_mbuf := seg_mbuf lost_frame\<rparr>) egress;
         (ok, B1) = retain D (seg_mbuf lost_frame) B
     in if \<not> ok then (True, t\<lparr>tx_egress_conduit := Some egress1, phase_mask := PHASE_CLOSED, flags_pending := flags_pending t OR FLAG_RST\<rparr>, B1)
        else (False, t\<lparr>tx_egress_conduit := Some (rc_commit_n 1 egress1)\<rparr>, refresh_frame t (seg_mbuf lost_frame) B1))"

definition clear_sacked :: "outbound_tcp_segment ring_state \<Rightarrow> outbound_tcp_segment ring_state" where
  "clear_sacked r =
     (let (n, r1) = rc_available_to_peek r
      in fold (\<lambda>j r. let i = rc_get_peek_slot (of_nat j) r in ring_poke i ((ring_buf r ! i)\<lparr>seg_is_sacked := False\<rparr>) r) [0..<unat n] r1)"

definition rto_retransmit :: "'p dpdk \<Rightarrow> tcb \<times> 'p buffers \<Rightarrow> bool \<times> tcb \<times> 'p buffers" where
  "rto_retransmit D c = (case c of (t, B) \<Rightarrow>
     case (tx_unacked_ring t, tx_egress_conduit t) of
       (Some unacked, Some egress) \<Rightarrow>
         let u1 = clear_sacked unacked; (n, u2) = rc_available_to_peek u1; t1 = t\<lparr>tx_unacked_ring := Some u2\<rparr>
         in if 0 < n then requeue D (ring_buf u2 ! rc_get_peek_slot 0 u2) egress (t1, B) else (False, t1, B)
     | _ \<Rightarrow> (False, t, B))"

subsection \<open>Draining a conduit\<close>

text \<open>A loop that consumes while items are visible ends: the cursors can be refreshed once only before
  the conduit is seen empty.\<close>

definition ring_rank :: "'a ring_state \<Rightarrow> nat" where
  "ring_rank r =
     (if cached_ingress r = physical_ingress r then unat (physical_ingress r - local_egress r)
      else if cached_ingress r = local_egress r then 2 ^ 64 + unat (physical_ingress r - local_egress r)
      else 2 ^ 65 + unat (cached_ingress r - local_egress r))"

lemma ring_rank_poke [simp]: "ring_rank (rc_consume_n n (ring_poke i x r)) = ring_rank (rc_consume_n n r)"
  by (simp add: ring_rank_def ring_poke_def rc_consume_n_def)

lemma unat_step: "a \<noteq> b \<Longrightarrow> unat (a - (b + 1) :: u64) < unat (a - b)"
proof -
  assume "a \<noteq> b"
  then have "a - b \<noteq> 0" by simp
  then have "unat (a - b - 1) = unat (a - b) - 1" "0 < unat (a - b)" by (simp_all add: unat_minus_one unat_gt_0)
  then have "unat (a - b - 1) < unat (a - b)" by linarith
  then show ?thesis by (simp only: diff_diff_add)
qed

lemma ring_rank_consume:
  assumes "rc_available_to_peek r = (n, r1)" "0 < n"
  shows "ring_rank (rc_consume_n 1 r1) < ring_rank r"
proof (cases "local_egress r = cached_ingress r")
  case True
  then have r1: "r1 = r\<lparr>cached_ingress := physical_ingress r\<rparr>" "physical_ingress r \<noteq> local_egress r"
    using assms by (auto simp: rc_available_to_peek_def refresh_ingress_def)
  have "unat (physical_ingress r - (local_egress r + 1)) < unat (physical_ingress r - local_egress r)" using r1(2) by (intro unat_step)
  with True r1 show ?thesis by (auto simp: ring_rank_def rc_consume_n_def)
next
  case False
  then have r1: "r1 = r" using assms by (auto simp: rc_available_to_peek_def refresh_ingress_def)
  have "unat (cached_ingress r - (local_egress r + 1)) < unat (cached_ingress r - local_egress r)" using False by (intro unat_step) simp
  then show ?thesis using False r1 unat_lt_u64 [of "physical_ingress r - (local_egress r + 1)"]
    by (auto simp: ring_rank_def rc_consume_n_def)
qed

function release_all :: "'p dpdk \<Rightarrow> outbound_tcp_segment ring_state \<Rightarrow> 'p buffers \<Rightarrow> outbound_tcp_segment ring_state \<times> 'p buffers" where
  "release_all D unacked B =
     (let (n, u1) = rc_available_to_peek unacked
      in if 0 < n
         then let i = rc_get_peek_slot 0 u1; (s, B1) = release D (ring_buf u1 ! i) B
              in release_all D (rc_consume_n 1 (ring_poke i s u1)) B1
         else (u1, B))"
  by pat_completeness auto
termination by (relation "measure (\<lambda>(D, u, B). ring_rank u)") (auto intro: ring_rank_consume [OF sym])

declare release_all.simps [simp del]

subsection \<open>The tick\<close>

text \<open>1. Retransmission timeout, and the decay of an idle congestion window.\<close>

definition tick_rto :: "'p dpdk \<Rightarrow> u64 \<Rightarrow> u32 \<Rightarrow> tcb \<times> 'p buffers \<Rightarrow> bool \<times> tcb \<times> 'p buffers" where
  "tick_rto D now tracker_rto c = (case c of (t, B) \<Rightarrow>
     if snd_una t \<noteq> snd_nxt t
     then let t0 = t\<lparr>idle_start_ms := 0\<rparr>
          in if rto_deadline_tsc t0 = 0 then (False, t0\<lparr>rto_deadline_tsc := now + extract_rto_boundary t0\<rparr>, B)
             else if rto_deadline_tsc t0 \<le> now
             then if 15 \<le> rto_retries t0 then (True, t0\<lparr>phase_mask := PHASE_CLOSED, flags_pending := flags_pending t0 OR FLAG_RST\<rparr>, B)
                  else let t1 = t0\<lparr>rto_retries := rto_retries t0 + 1\<rparr>;
                           t2 = t1\<lparr>ssthresh := safe_half (cwnd t1), cwnd := 1460, dup_acks := 0\<rparr>;
                           t3 = t2\<lparr>rto_deadline_tsc := now + extract_rto_boundary t2, temporal_flags := temporal_flags t2 OR TEMP_FLAG_RETRANSMIT\<rparr>
                       in rto_retransmit D (t3, B)
             else (False, t0, B)
     else let t0 = t\<lparr>rto_deadline_tsc := 0\<rparr>
          in if idle_start_ms t0 = 0 then (False, t0\<lparr>idle_start_ms := ucast now\<rparr>, B)
             else if 14600 < cwnd t0 \<and> ucast (max tracker_rto 200) \<le> now - ucast (idle_start_ms t0) then (False, t0\<lparr>cwnd := 14600\<rparr>, B)
             else (False, t0, B))"

text \<open>2. Delayed acknowledgement.\<close>

definition tick_delayed_ack :: "u64 \<Rightarrow> tcb \<Rightarrow> tcb" where
  "tick_delayed_ack now t =
     (if has (temporal_flags t) TEMP_FLAG_ACK_PENDING
      then if delayed_ack_deadline_tsc t = 0 then t\<lparr>delayed_ack_deadline_tsc := now + 200\<rparr>
           else if delayed_ack_deadline_tsc t \<le> now
           then t\<lparr>temporal_flags := temporal_flags t AND NOT TEMP_FLAG_ACK_PENDING, flags_pending := flags_pending t OR FLAG_ACK,
                  delayed_ack_deadline_tsc := 0\<rparr>
           else t
      else t\<lparr>delayed_ack_deadline_tsc := 0\<rparr>)"

text \<open>3. Zero-window probes.\<close>

definition tick_persist :: "u64 \<Rightarrow> tcb \<Rightarrow> bool \<times> tcb" where
  "tick_persist now t =
     (if snd_wnd t = 0 \<and> (snd_una t \<noteq> snd_nxt t \<or> has (temporal_flags t) TEMP_FLAG_ZWP_ACTIVE)
      then if \<not> has (temporal_flags t) TEMP_FLAG_ZWP_ACTIVE \<or> persist_deadline_tsc t = 0
           then (False, t\<lparr>temporal_flags := temporal_flags t OR TEMP_FLAG_ZWP_ACTIVE, persist_deadline_tsc := now + 1000, zwp_retries := 0\<rparr>)
           else if persist_deadline_tsc t \<le> now
           then if 5 \<le> zwp_retries t then (True, t\<lparr>phase_mask := PHASE_CLOSED, flags_pending := flags_pending t OR FLAG_RST\<rparr>)
                else (False, t\<lparr>zwp_retries := zwp_retries t + 1, flags_pending := flags_pending t OR FLAG_ACK, control_payload_len := 1,
                               persist_deadline_tsc := now + 5000\<rparr>)
           else (False, t)
      else (False, t\<lparr>temporal_flags := temporal_flags t AND NOT TEMP_FLAG_ZWP_ACTIVE, zwp_retries := 0\<rparr>))"

text \<open>4. The end of the closing phases.\<close>

definition tick_time_wait :: "u64 \<Rightarrow> tcb \<Rightarrow> tcb" where
  "tick_time_wait now t =
     (if phase_mask t = PHASE_TIME_WAIT \<or> phase_mask t = PHASE_FIN_WAIT2 \<or> phase_mask t = PHASE_CLOSING
      then if time_wait_deadline_tsc t = 0 then t\<lparr>time_wait_deadline_tsc := now + 60000\<rparr>
           else if time_wait_deadline_tsc t \<le> now then t\<lparr>phase_mask := PHASE_CLOSED, time_wait_deadline_tsc := 0\<rparr>
           else t
      else t)"

text \<open>5. Keep-alive probes.\<close>

definition tick_keepalive :: "u64 \<Rightarrow> tcb \<Rightarrow> bool \<times> tcb" where
  "tick_keepalive now t =
     (if has (temporal_flags t) TEMP_FLAG_KEEPALIVE \<and> phase_mask t = PHASE_ESTABLISHED
      then if snd_una t = snd_nxt t
           then if keepalive_deadline_tsc t = 0 then (False, t\<lparr>keepalive_deadline_tsc := now + 7200000, keepalive_retries := 0\<rparr>)
                else if keepalive_deadline_tsc t \<le> now
                then if 9 \<le> keepalive_retries t then (True, t\<lparr>phase_mask := PHASE_CLOSED, flags_pending := flags_pending t OR FLAG_RST\<rparr>)
                     else (False, t\<lparr>keepalive_retries := keepalive_retries t + 1, flags_pending := flags_pending t OR FLAG_ACK,
                                    temporal_flags := temporal_flags t OR TEMP_FLAG_KEEPALIVE_PROBE, keepalive_deadline_tsc := now + 75000\<rparr>)
                else (False, t)
           else (False, t\<lparr>keepalive_deadline_tsc := 0, keepalive_retries := 0\<rparr>)
      else (False, t))"

text \<open>6. Address resolution, on the deadline of the retransmission timer.\<close>

definition tick_arp :: "'p dpdk \<Rightarrow> u64 \<Rightarrow> tcb \<times> 'p buffers \<Rightarrow> tcb \<times> 'p buffers" where
  "tick_arp D now c = (case c of (t, B) \<Rightarrow>
     if has (temporal_flags t) TEMP_FLAG_ARP_WAIT
     then if rto_deadline_tsc t = 0 then (t\<lparr>rto_deadline_tsc := now + 3000\<rparr>, B)
          else if rto_deadline_tsc t \<le> now
          then let t1 = t\<lparr>phase_mask := PHASE_CLOSED, temporal_flags := temporal_flags t AND NOT TEMP_FLAG_ARP_WAIT, rto_deadline_tsc := 0\<rparr>
               in case tx_unacked_ring t1 of
                    Some unacked \<Rightarrow> let (u, B1) = release_all D unacked B in (t1\<lparr>tx_unacked_ring := Some u\<rparr>, B1)
                  | None \<Rightarrow> (t1, B)
          else (t, B)
     else (t, B))"

definition on_tick :: "'p dpdk \<Rightarrow> u64 \<Rightarrow> u32 \<Rightarrow> tcb \<times> 'p buffers \<Rightarrow> tcb \<times> 'p buffers" where
  "on_tick D now tracker_rto c =
     (if phase_mask (fst c) = PHASE_CLOSED then c
      else let (done1, t1, B1) = tick_rto D now tracker_rto c
           in if done1 then (t1, B1)
              else let (done2, t2) = tick_persist now (tick_delayed_ack now t1)
                   in if done2 then (t2, B1)
                      else let (done3, t3) = tick_keepalive now (tick_time_wait now t2)
                           in if done3 then (t3, B1) else tick_arp D now (t3, B1))"

subsection \<open>The estimate stays among the samples\<close>

lemma uint_lt_62: "unat (a :: u64) < 2 ^ 62 \<Longrightarrow> uint a < 2 ^ 62"
proof -
  assume "unat a < 2 ^ 62"
  then have "int (unat a) < int (2 ^ 62)" by (simp only: of_nat_less_iff)
  then show ?thesis by simp
qed

lemma sint_diff_small:
  assumes "unat (a :: u64) < 2 ^ 62" "unat b < 2 ^ 62"
  shows "sint (a - b) = int (unat a) - int (unat b)"
proof -
  have "sint (a - b) = signed_take_bit 63 (uint a - uint b)" by (simp add: sint_uint uint_word_arith_bintrs(2) signed_take_bit_take_bit)
  also have "\<dots> = uint a - uint b"
  proof -
    have r: "0 \<le> x \<Longrightarrow> 0 \<le> y \<Longrightarrow> x < 2 ^ 62 \<Longrightarrow> y < 2 ^ 62 \<Longrightarrow> signed_take_bit 63 (x - y) = x - y" for x y :: int
      by (intro signed_take_bit_int_eq_self) simp_all
    show ?thesis using uint_lt_62 [OF assms(1)] uint_lt_62 [OF assms(2)] by (intro r) (rule uint_ge_0 | assumption)+
  qed
  finally show ?thesis by simp
qed

lemma unat_add_signed:
  assumes "sint (d :: u64) = k" "0 \<le> int (unat s) + k" "int (unat s) + k < 2 ^ 64"
  shows "int (unat (s + d)) = int (unat s) + k"
proof -
  have "uint (s + d) = (uint s + uint d) mod 2 ^ 64" by (simp add: uint_word_ariths)
  moreover have "uint d = k mod 2 ^ 64" unfolding assms(1) [symmetric] by (simp add: uint_sint take_bit_eq_mod)
  ultimately have "uint (s + d) = (uint s + k) mod 2 ^ 64" by (simp add: mod_add_right_eq)
  then show ?thesis using assms(2,3) by simp
qed

lemma filter_between: "(min a b :: int) \<le> a + (b - a) div 2 ^ k" "a + (b - a) div 2 ^ k \<le> max a b"
proof -
  have "b - a < 0 \<Longrightarrow> b - a \<le> (b - a) div 2 ^ k" using zdiv_mono2_neg [of "b - a" 1 "2 ^ k"] by simp
  moreover have "0 \<le> b - a \<Longrightarrow> (b - a) div 2 ^ k \<le> b - a" using zdiv_mono2 [of "b - a" 1 "2 ^ k"] by simp
  moreover have "b - a < 0 \<Longrightarrow> (b - a) div 2 ^ k < 0" "0 \<le> b - a \<Longrightarrow> 0 \<le> (b - a) div 2 ^ k"
    by (simp_all add: div_neg_pos_less0 pos_imp_zdiv_nonneg_iff)
  ultimately show "(min a b :: int) \<le> a + (b - a) div 2 ^ k" "a + (b - a) div 2 ^ k \<le> max a b" by linarith+
qed

text \<open>One step of either filter, on values below \<open>2 ^ 62\<close>: the result lies between the old value and
  the new one.\<close>

lemma filter_step:
  assumes "unat (a :: u64) < 2 ^ 62" "unat b < 2 ^ 62"
  shows "min (unat a) (unat b) \<le> unat (a + signed_drop_bit k (b - a))" "unat (a + signed_drop_bit k (b - a)) \<le> max (unat a) (unat b)"
proof -
  let ?d = "(int (unat b) - int (unat a)) div 2 ^ k"
  have s: "sint (signed_drop_bit k (b - a)) = ?d"
    using sint_diff_small [OF assms(2,1)] by (simp add: sint_signed_drop_bit_eq drop_bit_eq_div)
  note f = filter_between [of "int (unat a)" "int (unat b)" k]
  have i: "int (unat a) < 2 ^ 62" "int (unat b) < 2 ^ 62" using uint_lt_62 assms by simp_all
  have "(2 :: int) ^ 62 < 2 ^ 64" by simp
  have "int (unat (a + signed_drop_bit k (b - a))) = int (unat a) + ?d" using f i \<open>(2 :: int) ^ 62 < 2 ^ 64\<close> by (intro unat_add_signed [OF s]) linarith+
  with f show "min (unat a) (unat b) \<le> unat (a + signed_drop_bit k (b - a))" "unat (a + signed_drop_bit k (b - a)) \<le> max (unat a) (unat b)"
    by linarith+
qed

lemma abs_err_bound:
  assumes "unat (a :: u64) < 2 ^ 62" "unat b < 2 ^ 62"
  shows "unat (if a - b <s 0 then - (a - b) else a - b) \<le> max (unat a) (unat b)"
proof (cases "a - b <s 0")
  case True
  then have "a < b" using sint_diff_small [OF assms] by (simp add: word_sless_alt word_less_def)
  then have "unat a < unat b" by (simp add: word_less_nat_alt)
  then have "unat (b - a) = unat b - unat a" by (simp add: unat_sub word_le_nat_alt)
  with True show ?thesis by simp
next
  case False
  then have "b \<le> a" using sint_diff_small [OF assms] by (simp add: word_sless_alt word_le_def)
  then have "unat b \<le> unat a" by (simp add: word_le_nat_alt)
  then have "unat (a - b) = unat a - unat b" by (simp add: unat_sub word_le_nat_alt)
  with False show ?thesis by simp
qed

lemma rtt_filter_bound:
  assumes "unat s \<le> M" "unat v \<le> M" "unat x \<le> M" "M < 2 ^ 62" "rtt_filter x (s, v) = (s', v')"
  shows "unat s' \<le> M \<and> unat v' \<le> M"
proof (cases "s = 0")
  case True
  have "unat (drop_bit 1 x) \<le> unat x" using drop_bit_eq_div [of 1 "unat x"] by (simp add: unat_drop_bit_eq)
  then show ?thesis using True assms by (auto simp: rtt_filter_def)
next
  case False
  define e where "e = (if x - s <s 0 then - (x - s) else x - s)"
  have b: "unat s < 2 ^ 62" "unat v < 2 ^ 62" "unat x < 2 ^ 62" using assms(1-4) by linarith+
  have e: "unat e \<le> M" using abs_err_bound [OF b(3,1)] assms(1,3) unfolding e_def by linarith
  have r: "s' = s + signed_drop_bit 3 (x - s)" "v' = v + signed_drop_bit 2 (e - v)"
    using False assms(5) unfolding e_def rtt_filter_def Let_def by simp_all
  have "unat e < 2 ^ 62" using e assms(4) by linarith
  with filter_step(2) [OF b(1,3), of 3] filter_step(2) [OF b(2), of e 2] show ?thesis unfolding r using assms(1-3) e by linarith
qed

lemma rtt_samples_bound:
  assumes "\<forall>x\<in>set xs. unat x \<le> M" "M < 2 ^ 62" "fold rtt_filter xs (s, v) = (s', v')" "unat s \<le> M" "unat v \<le> M"
  shows "unat s' \<le> M \<and> unat v' \<le> M"
  using assms
proof (induction xs arbitrary: s v)
  case (Cons x xs)
  obtain s1 v1 where "rtt_filter x (s, v) = (s1, v1)" by (cases "rtt_filter x (s, v)")
  with Cons rtt_filter_bound [of s M v x s1 v1] show ?case by simp
qed simp

lemma record_coordinate_rtt:
  "(srtt (record_coordinate tx rx q t), rttvar (record_coordinate tx rx q t)) =
     (if has (temporal_flags t) TEMP_FLAG_RETRANSMIT then (srtt t, rttvar t) else rtt_filter (rx - tx) (srtt t, rttvar t))"
  by (simp add: record_coordinate_def split: prod.split)

lemma record_coordinates_bound:
  assumes "\<forall>(tx, rx, q)\<in>set xs. unat (rx - tx) \<le> M" "M < 2 ^ 62" "unat (srtt t) \<le> M" "unat (rttvar t) \<le> M"
  shows "unat (srtt (fold (\<lambda>(tx, rx, q). record_coordinate tx rx q) xs t)) \<le> M
    \<and> unat (rttvar (fold (\<lambda>(tx, rx, q). record_coordinate tx rx q) xs t)) \<le> M"
  using assms
proof (induction xs arbitrary: t)
  case (Cons x xs)
  obtain tx rx q where x: "x = (tx, rx, q)" by (cases x)
  let ?t = "record_coordinate tx rx q t"
  have "unat (srtt ?t) \<le> M \<and> unat (rttvar ?t) \<le> M"
  proof (cases "has (temporal_flags t) TEMP_FLAG_RETRANSMIT")
    case True
    with Cons.prems show ?thesis by (simp add: record_coordinate_def)
  next
    case False
    with record_coordinate_rtt [of tx rx q t] have "rtt_filter (rx - tx) (srtt t, rttvar t) = (srtt ?t, rttvar ?t)" by simp
    with Cons.prems x show ?thesis by (intro rtt_filter_bound [of "srtt t" M "rttvar t" "rx - tx"]) auto
  qed
  with Cons x show ?case by simp
qed simp

text \<open>Without wrap-around, the timeout is the estimate, at least 200 ms, doubled per retry up to six times.\<close>

lemma unat_push_small: "unat (w :: u64) * 2 ^ k < 2 ^ 64 \<Longrightarrow> unat (push_bit k w) = unat w * 2 ^ k"
  unfolding unsigned_push_bit_eq by (simp add: push_bit_eq_mult take_bit_eq_mod)

lemma extract_rto_exact:
  assumes "unat (srtt t) \<le> M" "unat (rttvar t) \<le> M" "M < 2 ^ 55" "srtt t \<noteq> 0"
  shows "unat (extract_rto_boundary t) =
    max 200 (unat (srtt t) + 4 * unat (rttvar t)) * 2 ^ min (unat (rto_retries t)) 6"
proof -
  let ?r = "srtt t + push_bit 2 (rttvar t)"
  have p: "unat (push_bit 2 (rttvar t)) = 4 * unat (rttvar t)" using assms(2,3) by (subst unat_push_small) simp_all
  have r: "unat ?r = unat (srtt t) + 4 * unat (rttvar t)"
    using p assms(1-3) by (subst unat_add_lem [THEN iffD1]) simp_all
  define w where "w = (if ?r < RTO_MIN_MS then RTO_MIN_MS else ?r)"
  have w: "unat w = max 200 (unat (srtt t) + 4 * unat (rttvar t))"
    using r by (auto simp: w_def RTO_MIN_MS_def word_less_nat_alt)
  have "(2 :: nat) ^ min (unat (rto_retries t)) 6 \<le> 2 ^ 6" by (intro power_increasing) simp_all
  moreover have "unat w < 2 ^ 58" using w assms(1-3) by simp
  ultimately have "unat w * 2 ^ min (unat (rto_retries t)) 6 < 2 ^ 58 * 2 ^ 6" by (intro mult_less_le_imp_less) simp_all
  then have "unat (push_bit (min (unat (rto_retries t)) 6) w) = unat w * 2 ^ min (unat (rto_retries t)) 6" by (intro unat_push_small) simp
  with w assms(4) show ?thesis by (simp add: extract_rto_boundary_def Let_def w_def)
qed

lemma extract_rto_range:
  assumes "unat (srtt t) \<le> M" "unat (rttvar t) \<le> M" "M < 2 ^ 55"
  shows "200 \<le> unat (extract_rto_boundary t)" "unat (extract_rto_boundary t) \<le> max 200 (5 * M) * 64"
proof -
  have p: "(1 :: nat) \<le> 2 ^ min (unat (rto_retries t)) 6" "(2 :: nat) ^ min (unat (rto_retries t)) 6 \<le> 2 ^ 6"
    by (simp, intro power_increasing) simp_all
  have "max 200 (unat (srtt t) + 4 * unat (rttvar t)) * 2 ^ min (unat (rto_retries t)) 6 \<le> max 200 (5 * M) * 2 ^ 6"
    using assms p by (intro mult_le_mono) simp_all
  moreover have "200 * 1 \<le> max 200 (unat (srtt t) + 4 * unat (rttvar t)) * 2 ^ min (unat (rto_retries t)) 6"
    using p by (intro mult_le_mono) simp_all
  ultimately have "srtt t \<noteq> 0 \<Longrightarrow> 200 \<le> unat (extract_rto_boundary t) \<and> unat (extract_rto_boundary t) \<le> max 200 (5 * M) * 64"
    using extract_rto_exact [OF assms] by simp
  then show "200 \<le> unat (extract_rto_boundary t)" "unat (extract_rto_boundary t) \<le> max 200 (5 * M) * 64"
    by (cases "srtt t = 0"; simp add: extract_rto_boundary_def)+
qed

text \<open>(C35) The retransmission timeout after any sequence of round-trip samples into a fresh block, with
  any number of retries and whichever samples are dropped because a retransmission is outstanding: it
  never falls below 200 ms and never exceeds 64 times five times the largest sample (or the floors of
  200 ms); nothing in the signed filters wraps around.\<close>

theorem rto_follows_samples:
  assumes "srtt t = 0" "rttvar t = 0" "\<forall>(tx, rx, q)\<in>set xs. unat (rx - tx) \<le> M" "M < 2 ^ 55"
  shows "200 \<le> unat (extract_rto_boundary (fold (\<lambda>(tx, rx, q). record_coordinate tx rx q) xs t))
    \<and> unat (extract_rto_boundary (fold (\<lambda>(tx, rx, q). record_coordinate tx rx q) xs t)) \<le> max 200 (5 * M) * 64"
proof -
  have "M < 2 ^ 62" using assms(4) by simp
  with record_coordinates_bound [of xs M t] assms(1-3) show ?thesis by (intro conjI extract_rto_range [OF _ _ assms(4)]) simp_all
qed

text \<open>A fresh block after one sample of 300 ms; the concrete values are those of a new connection.\<close>

definition fresh_tcb :: tcb where
  "fresh_tcb = \<lparr>snd_una = 0, snd_nxt = 0, rcv_nxt = 0, snd_wnd = 65535, rcv_wnd = 65535, cwnd = 14600, ssthresh = 65535,
     remote_ipv4 = 0, local_ipv4 = 0, remote_port = 0, local_port = 0, phase_mask = PHASE_ESTABLISHED, remote_mss = 1460,
     dup_acks = 0, snd_wscale = 0, rcv_wscale = 0, temporal_flags = 0, rto_deadline_tsc = 0, flags_pending = 0, rto_retries = 0,
     zwp_retries = 0, sack_permitted = 0, ts_permitted = 0, keepalive_retries = 0, ecn_permitted = 0, control_payload_len = 0,
     rx_stream_ring = None, tx_egress_conduit = None, tx_unacked_ring = None, tx_mbuf_pool = False, tcb_ooo_matrix = None,
     target_mac = replicate 6 0, expected_ttl = 0, challenge_ack_cnt = 0, last_challenge_tsc = 0, highest_rtx_seq = 0,
     delayed_ack_deadline_tsc = 0, persist_deadline_tsc = 0, time_wait_deadline_tsc = 0, keepalive_deadline_tsc = 0,
     srtt = 0, rttvar = 0, rto = 0, otsp_t_base = 0, otsp_d_shadow = 0, otsp_d_active = 0, otsp_epoch = 0, recover = 0,
     ts_recent = 0, ts_val = 0, sack_left_edges = replicate 3 0, sack_right_edges = replicate 3 0,
     sack_valid = replicate 3 False, quick_ack_cnt = 0, idle_start_ms = 0, remote_ipv6 = (0, 0), local_ipv6 = (0, 0), is_ipv6 = 0\<rparr>"

theorem rto_follows_samples_witness:
  "200 \<le> unat (extract_rto_boundary (fold (\<lambda>(tx, rx, q). record_coordinate tx rx q) [(1000, 1300, 7)] fresh_tcb))
    \<and> unat (extract_rto_boundary (fold (\<lambda>(tx, rx, q). record_coordinate tx rx q) [(1000, 1300, 7)] fresh_tcb)) \<le> max 200 (5 * 300) * 64"
  by (rule rto_follows_samples) (simp_all add: fresh_tcb_def)

subsection \<open>A silent peer\<close>

text \<open>What a tick leaves alone while segments are in flight.\<close>

definition in_flight :: "nat \<Rightarrow> tcb \<Rightarrow> bool" where
  "in_flight M t = (snd_una t \<noteq> snd_nxt t \<and> phase_mask t \<notin> {PHASE_CLOSED, PHASE_TIME_WAIT, PHASE_FIN_WAIT2, PHASE_CLOSING}
     \<and> unat (srtt t) \<le> M \<and> unat (rttvar t) \<le> M)"

definition aborted :: "tcb \<Rightarrow> bool" where
  "aborted t = (phase_mask t = PHASE_CLOSED \<and> has (flags_pending t) FLAG_RST)"

definition same_flight :: "tcb \<Rightarrow> tcb \<Rightarrow> bool" where
  "same_flight t t' = (snd_una t' = snd_una t \<and> snd_nxt t' = snd_nxt t \<and> phase_mask t' = phase_mask t \<and> srtt t' = srtt t
     \<and> rttvar t' = rttvar t \<and> rto_retries t' = rto_retries t \<and> rto_deadline_tsc t' = rto_deadline_tsc t)"

lemma same_flight_refl [simp]: "same_flight t t"
  by (simp add: same_flight_def)

lemma same_flight_trans: "same_flight t u \<Longrightarrow> same_flight u v \<Longrightarrow> same_flight t v"
  by (simp add: same_flight_def)

lemma has_or [simp]: "has (x OR f) f \<longleftrightarrow> f \<noteq> 0"
proof -
  have "(x OR f) AND f = f" by (simp add: bit_eq_iff bit_simps)
  then show ?thesis by (simp add: has_def)
qed

lemma rto_retransmit_flight:
  "rto_retransmit D (t, B) = (e, t', B') \<Longrightarrow> (if e then aborted t' else same_flight t t')"
  by (auto simp: rto_retransmit_def requeue_def Let_def aborted_def FLAG_RST_def same_flight_def split: option.splits prod.splits if_splits)

lemma tick_persist_flight:
  "tick_persist now (tick_delayed_ack now t) = (e, t') \<Longrightarrow> (if e then aborted t' else same_flight t t')"
  by (auto simp: tick_persist_def tick_delayed_ack_def aborted_def FLAG_RST_def same_flight_def split: if_splits)

lemma tick_keepalive_flight:
  assumes "in_flight M t" "tick_keepalive now (tick_time_wait now t) = (e, t')"
  shows "\<not> e \<and> same_flight t t'"
  using assms by (auto simp: tick_keepalive_def tick_time_wait_def in_flight_def same_flight_def split: if_splits)

lemma in_flight_same: "same_flight t t' \<Longrightarrow> in_flight M t \<Longrightarrow> in_flight M t'"
  by (simp add: same_flight_def in_flight_def)

lemma rest_of_tick:
  assumes "in_flight M t1" "tick_persist now (tick_delayed_ack now t1) = (e2, t2)" "now < rto_deadline_tsc t1"
    "(if e2 then (t2, B1) else let (e3, t3) = tick_keepalive now (tick_time_wait now t2) in if e3 then (t3, B1) else tick_arp D now (t3, B1)) = (t', B')"
  shows "aborted t' \<or> same_flight t1 t'"
proof (cases e2)
  case True
  with tick_persist_flight [OF assms(2)] assms(4) show ?thesis by simp
next
  case False
  then have s2: "same_flight t1 t2" using tick_persist_flight [OF assms(2)] by simp
  obtain e3 t3 where k: "tick_keepalive now (tick_time_wait now t2) = (e3, t3)" by (cases "tick_keepalive now (tick_time_wait now t2)")
  from tick_keepalive_flight [OF in_flight_same [OF s2 assms(1)] k] have s3: "\<not> e3" "same_flight t1 t3" using same_flight_trans [OF s2] by simp_all
  then have "now < rto_deadline_tsc t3" using assms(3) by (simp add: same_flight_def)
  then have "tick_arp D now (t3, B1) = (t3, B1)" by (auto simp: tick_arp_def)
  with False k s3 assms(4) show ?thesis by simp
qed

definition retry_budget :: "tcb \<Rightarrow> nat" where
  "retry_budget t = (if rto_deadline_tsc t = 0 then 1 else 0) + (15 - unat (rto_retries t))"

lemma deadline_after:
  assumes "in_flight M t" "M < 2 ^ 53" "unat now < 2 ^ 62"
  shows "now < now + extract_rto_boundary t" "now + extract_rto_boundary t \<noteq> 0"
proof -
  have M: "unat (srtt t) \<le> M" "unat (rttvar t) \<le> M" "M < 2 ^ 55" using assms by (simp_all add: in_flight_def)
  note r = extract_rto_range [OF M]
  have "max 200 (5 * M) * 64 < 2 ^ 62" using assms(2) by simp
  then have u: "unat (extract_rto_boundary t) < 2 ^ 62" using r(2) by (rule le_less_trans [rotated])
  have "unat (now + extract_rto_boundary t) = unat now + unat (extract_rto_boundary t)"
    using u assms(3) by (subst unat_add_lem [THEN iffD1]) simp_all
  then have n: "unat now < unat (now + extract_rto_boundary t)" using r(1) by linarith
  then show "now < now + extract_rto_boundary t" by (simp add: word_less_nat_alt)
  show "now + extract_rto_boundary t \<noteq> 0" using n by auto
qed

lemma tick_rto_flight:
  assumes "in_flight M t" "rto_deadline_tsc t \<le> now" "M < 2 ^ 53" "unat now < 2 ^ 62" "tick_rto D now r (t, B) = (e, t', B')"
  shows "if e then aborted t' else in_flight M t' \<and> now < rto_deadline_tsc t' \<and> retry_budget t' < retry_budget t"
proof -
  let ?t0 = "t\<lparr>idle_start_ms := 0\<rparr>"
  have una: "snd_una t \<noteq> snd_nxt t" and f0: "in_flight M ?t0" using assms(1) by (simp_all add: in_flight_def)
  consider (arm) "rto_deadline_tsc t = 0" | (out) "rto_deadline_tsc t \<noteq> 0" "15 \<le> rto_retries t"
    | (retry) "rto_deadline_tsc t \<noteq> 0" "rto_retries t < 15" by fastforce
  then show ?thesis
  proof cases
    case arm
    with una assms(5) have "\<not> e" "t' = ?t0\<lparr>rto_deadline_tsc := now + extract_rto_boundary ?t0\<rparr>" by (simp_all add: tick_rto_def Let_def)
    with f0 arm deadline_after [OF f0 assms(3,4)] show ?thesis by (simp add: in_flight_def retry_budget_def)
  next
    case out
    with una assms(2,5) have "e" "t' = ?t0\<lparr>phase_mask := PHASE_CLOSED, flags_pending := flags_pending t OR FLAG_RST\<rparr>" by (simp_all add: tick_rto_def Let_def)
    then show ?thesis by (simp add: aborted_def FLAG_RST_def)
  next
    case retry
    define t2 where "t2 = ?t0\<lparr>rto_retries := rto_retries t + 1, ssthresh := safe_half (cwnd t), cwnd := 1460, dup_acks := 0\<rparr>"
    define t3 where "t3 = t2\<lparr>rto_deadline_tsc := now + extract_rto_boundary t2, temporal_flags := temporal_flags t2 OR TEMP_FLAG_RETRANSMIT\<rparr>"
    have "\<not> 15 \<le> rto_retries t" using retry(2) by simp
    have f2: "in_flight M t2" using f0 by (simp add: t2_def in_flight_def)
    have "unat (rto_retries t) < 15" using retry(2) by (simp add: word_less_nat_alt)
    then have n: "unat (rto_retries t + 1) = unat (rto_retries t) + 1" "unat (rto_retries t) < 15" by (simp_all add: unat_word_ariths)
    have s: "now < rto_deadline_tsc t3" "rto_deadline_tsc t3 \<noteq> 0" "in_flight M t3" "rto_retries t3 = rto_retries t + 1"
      using deadline_after [OF f2 assms(3,4)] f2 by (simp_all add: t3_def in_flight_def) (simp add: t2_def)
    have "rto_retransmit D (t3, B) = (e, t', B')"
      using retry(1) \<open>\<not> 15 \<le> rto_retries t\<close> una assms(2,5) by (simp add: tick_rto_def t3_def t2_def Let_def)
    from rto_retransmit_flight [OF this] have r: "if e then aborted t' else same_flight t3 t'" .
    show ?thesis
    proof (cases e)
      case False
      with r have "same_flight t3 t'" by simp
      then have "in_flight M t'" "rto_deadline_tsc t' = rto_deadline_tsc t3" "rto_retries t' = rto_retries t + 1"
        using s(3,4) in_flight_same [of t3 t' M] by (simp_all add: same_flight_def)
      with False s(1,2) n retry(1) show ?thesis by (simp add: retry_budget_def)
    qed (use r in simp)
  qed
qed

lemma late_tick:
  assumes "in_flight M t" "rto_deadline_tsc t \<le> now" "M < 2 ^ 53" "unat now < 2 ^ 62" "on_tick D now r (t, B) = (t', B')"
  shows "aborted t' \<or> in_flight M t' \<and> retry_budget t' < retry_budget t"
proof -
  obtain e t1 B1 where t1: "tick_rto D now r (t, B) = (e, t1, B1)" by (cases "tick_rto D now r (t, B)")
  obtain e2 t2 where t2: "tick_persist now (tick_delayed_ack now t1) = (e2, t2)" by (cases "tick_persist now (tick_delayed_ack now t1)")
  have op: "phase_mask t \<noteq> PHASE_CLOSED" using assms(1) by (simp add: in_flight_def)
  show ?thesis
  proof (cases "e")
    case True
    with tick_rto_flight [OF assms(1-4) t1] op t1 assms(5) show ?thesis by (simp add: on_tick_def)
  next
    case False
    then have "(if e2 then (t2, B1) else let (e3, t3) = tick_keepalive now (tick_time_wait now t2) in if e3 then (t3, B1) else tick_arp D now (t3, B1)) = (t', B')"
      using op t1 t2 assms(5) by (simp add: on_tick_def)
    moreover have f1: "in_flight M t1" "now < rto_deadline_tsc t1" "retry_budget t1 < retry_budget t"
      using tick_rto_flight [OF assms(1-4) t1] False by simp_all
    ultimately have "aborted t' \<or> same_flight t1 t'" by (intro rest_of_tick [OF f1(1) t2 f1(2)])
    with f1 in_flight_same [of t1 t' M] show ?thesis by (auto simp: same_flight_def retry_budget_def)
  qed
qed

text \<open>The peer answers nothing, and every tick comes at or after the deadline in force.\<close>

primrec late :: "'p dpdk \<Rightarrow> (u64 \<times> u32) list \<Rightarrow> tcb \<times> 'p buffers \<Rightarrow> bool" where
  "late D [] c = True"
| "late D (x # xs) c = (rto_deadline_tsc (fst c) \<le> fst x \<and> late D xs (on_tick D (fst x) (snd x) c))"

lemma aborted_stays: "aborted (fst c) \<Longrightarrow> fold (\<lambda>(now, r). on_tick D now r) xs c = c"
  by (induction xs) (auto simp: on_tick_def aborted_def)

lemma late_ticks:
  assumes "in_flight M (fst c)" "late D xs c" "retry_budget (fst c) < length xs" "M < 2 ^ 53" "\<forall>x\<in>set xs. unat (fst x) < 2 ^ 62"
  shows "aborted (fst (fold (\<lambda>(now, r). on_tick D now r) xs c))"
  using assms
proof (induction xs arbitrary: c)
  case (Cons x xs)
  obtain now r t B where x: "x = (now, r)" "c = (t, B)" by (cases x, cases c)
  obtain t' B' where s: "on_tick D now r (t, B) = (t', B')" by (cases "on_tick D now r (t, B)")
  have "aborted t' \<or> in_flight M t' \<and> retry_budget t' < retry_budget t"
    using Cons.prems x by (intro late_tick [OF _ _ _ _ s]) simp_all
  then show ?case
  proof
    assume "aborted t'"
    with aborted_stays [of "(t', B')" D xs] s x show ?thesis by simp
  next
    assume "in_flight M t' \<and> retry_budget t' < retry_budget t"
    with Cons.prems x s show ?thesis using Cons.IH [of "(t', B')"] by simp
  qed
qed simp

text \<open>(C34) A peer that never answers does not hold a connection forever: with data in flight, outside
  \<^verbatim>\<open>FIN_WAIT2\<close>, \<^verbatim>\<open>CLOSING\<close> and \<^verbatim>\<open>TIME_WAIT\<close>, which have deadlines of their own, with round-trip
  estimates below \<open>2 ^ 53\<close> and clock values below \<open>2 ^ 62\<close> milliseconds, the seventeenth tick that comes after its deadline has closed the connection and left an RST to send,
  whatever the conduits, the pool and the other timers did (one tick to arm the timer, fifteen retries,
  one to give up).\<close>

theorem silent_peer_aborted:
  assumes "in_flight M (fst c)" "M < 2 ^ 53" "late D xs c" "17 \<le> length xs" "\<forall>x\<in>set xs. unat (fst x) < 2 ^ 62"
  shows "aborted (fst (fold (\<lambda>(now, r). on_tick D now r) xs c))"
proof -
  have "retry_budget (fst c) < length xs" using assms(4) by (auto simp: retry_budget_def)
  with assms show ?thesis by (intro late_ticks)
qed

text \<open>A connection with 100 bytes in flight to a peer that is gone, ticked once a second.\<close>

definition plain_dpdk :: "unit dpdk" where
  "plain_dpdk = \<lparr>refcnt_read = (\<lambda>_ _. 1), refcnt_update = (\<lambda>_ p. p), pktmbuf_free = (\<lambda>_ p. p), pktmbuf_alloc = (\<lambda>p. (1, p))\<rparr>"

definition silent_example :: "tcb \<times> unit buffers" where
  "silent_example = (fresh_tcb\<lparr>snd_nxt := 100\<rparr>, \<lparr>bf_pool = (), bf_data = (\<lambda>_ _. 0), bf_data_len = (\<lambda>_. 0), bf_pkt_len = (\<lambda>_. 0)\<rparr>)"

definition silent_ticks :: "(u64 \<times> u32) list" where
  "silent_ticks = map (\<lambda>k. (1000 * of_nat k, 0)) [1..<18]"

lemma silent_example_late: "late plain_dpdk silent_ticks silent_example"
  by code_simp

theorem silent_peer_aborted_witness:
  "aborted (fst (fold (\<lambda>(now, r). on_tick plain_dpdk now r) silent_ticks silent_example))"
proof (rule silent_peer_aborted [of 0])
  show "in_flight 0 (fst silent_example)" by (simp add: in_flight_def silent_example_def fresh_tcb_def phase_defs)
  show "late plain_dpdk silent_ticks silent_example" by (rule silent_example_late)
qed (simp_all add: silent_ticks_def upt_rec)


subsection \<open>Waiting for an address\<close>

lemma has_and_not: "f AND g = 0 \<Longrightarrow> has (x AND NOT f) g = has x g"
proof -
  assume "f AND g = 0"
  then have "\<not> (bit f n \<and> bit g n)" for n by (metis bit_and_iff bit_0_eq bot_apply bot_bool_def)
  then have "(x AND NOT f) AND g = x AND g" by (intro bit_eqI) (auto simp: bit_simps)
  then show ?thesis by (simp add: has_def)
qed

text \<open>A connection attempt that is put off until the address of the peer is known: nothing is in flight.\<close>

definition awaiting_address :: "tcb \<Rightarrow> bool" where
  "awaiting_address t = (phase_mask t = PHASE_SYN_SENT \<and> snd_una t = snd_nxt t \<and> has (temporal_flags t) TEMP_FLAG_ARP_WAIT
     \<and> \<not> has (temporal_flags t) TEMP_FLAG_ZWP_ACTIVE)"

lemma clear_keeps:
  "has (x AND NOT TEMP_FLAG_ACK_PENDING) TEMP_FLAG_ARP_WAIT = has x TEMP_FLAG_ARP_WAIT"
  "has (x AND NOT TEMP_FLAG_ACK_PENDING) TEMP_FLAG_ZWP_ACTIVE = has x TEMP_FLAG_ZWP_ACTIVE"
  "has (x AND NOT TEMP_FLAG_ZWP_ACTIVE) TEMP_FLAG_ARP_WAIT = has x TEMP_FLAG_ARP_WAIT"
  by (rule has_and_not, simp add: temp_flag_defs)+

lemma clear_clears: "\<not> has (x AND NOT f) f"
  by (simp add: has_def and.assoc)

lemma delayed_ack_awaiting: "awaiting_address t \<Longrightarrow> awaiting_address (tick_delayed_ack now t)"
  by (auto simp: awaiting_address_def tick_delayed_ack_def clear_keeps)

lemma persist_awaiting:
  assumes "awaiting_address t"
  shows "\<not> fst (tick_persist now t) \<and> awaiting_address (snd (tick_persist now t)) \<and> rto_deadline_tsc (snd (tick_persist now t)) = rto_deadline_tsc t"
  using assms by (auto simp: awaiting_address_def tick_persist_def clear_keeps clear_clears)

lemma on_tick_awaiting:
  assumes "awaiting_address t" "on_tick D now r (t, B) = (t', B')"
  shows "awaiting_address t' \<and> rto_deadline_tsc t' = now + 3000"
proof -
  obtain e t1 where t1: "tick_rto D now r (t, B) = (e, t1, B)" "\<not> e" "awaiting_address t1" "rto_deadline_tsc t1 = 0"
    using assms(1) by (cases "tick_rto D now r (t, B)") (auto simp: tick_rto_def awaiting_address_def Let_def split: if_splits)
  obtain e2 t2 where t2: "tick_persist now (tick_delayed_ack now t1) = (e2, t2)" by (cases "tick_persist now (tick_delayed_ack now t1)")
  have "rto_deadline_tsc (tick_delayed_ack now t1) = 0" using t1(4) by (simp add: tick_delayed_ack_def)
  with t2 persist_awaiting [OF delayed_ack_awaiting [OF t1(3)], of now now] have p: "\<not> e2" "awaiting_address t2" "rto_deadline_tsc t2 = 0" by simp_all
  then have k: "tick_keepalive now (tick_time_wait now t2) = (False, t2)"
    by (simp add: awaiting_address_def tick_keepalive_def tick_time_wait_def phase_defs)
  have "phase_mask t \<noteq> PHASE_CLOSED" using assms(1) by (simp add: awaiting_address_def phase_defs)
  then have "tick_arp D now (t2, B) = (t', B')" using assms(2) t1 t2 p k by (simp add: on_tick_def)
  with p show ?thesis by (auto simp: tick_arp_def awaiting_address_def)
qed

text \<open>(C36) An address that is never resolved is never given up: the deadline for it is the deadline of
  the retransmission timer, which every tick clears first because nothing is in flight, so however
  many ticks pass, and however late they come, the connection stays in \<^verbatim>\<open>SYN_SENT\<close>.\<close>

theorem arp_wait_never_expires:
  assumes "awaiting_address (fst c)"
  shows "phase_mask (fst (fold (\<lambda>(now, r). on_tick D now r) xs c)) = PHASE_SYN_SENT"
proof -
  have "awaiting_address (fst (fold (\<lambda>(now, r). on_tick D now r) xs c))" using assms
  proof (induction xs arbitrary: c)
    case (Cons x xs)
    obtain now r t B where x: "x = (now, r)" "c = (t, B)" by (cases x, cases c)
    obtain t' B' where s: "on_tick D now r (t, B) = (t', B')" by (cases "on_tick D now r (t, B)")
    with Cons on_tick_awaiting [OF _ s] x show ?case by simp
  qed simp
  then show ?thesis by (simp add: awaiting_address_def)
qed

theorem arp_wait_never_expires_witness:
  "phase_mask (fst (fold (\<lambda>(now, r). on_tick plain_dpdk now r) silent_ticks
     (fresh_tcb\<lparr>phase_mask := PHASE_SYN_SENT, temporal_flags := TEMP_FLAG_ARP_WAIT\<rparr>, snd silent_example))) = PHASE_SYN_SENT"
  by (rule arp_wait_never_expires) (simp add: awaiting_address_def fresh_tcb_def has_def temp_flag_defs)

subsection \<open>Retransmission into a full conduit\<close>

text \<open>The slot behind the last one is the first one again when 1024 segments are waiting: the oldest of
  them is replaced by the retransmitted one, and the count of segments passes the capacity.\<close>

lemma requeue_full:
  assumes "ring_wf egress" "ring_cap egress = 1024" "ring_fill egress = 1024" "fst (retain D (seg_mbuf lost) B)" "requeue D lost egress (t, B) = (e, t', B')"
  shows "\<exists>eg. tx_egress_conduit t' = Some eg \<and> ring_fill eg = 1025
    \<and> seg_mbuf (ring_buf eg ! slot (ring_cap eg) (local_egress eg)) = seg_mbuf lost"
proof -
  let ?i = "rc_get_reserved_slot 0 egress"
  let ?eg = "rc_commit_n 1 (ring_poke ?i ((ring_buf egress ! ?i)\<lparr>seg_mbuf := seg_mbuf lost\<rparr>) egress)"
  have p: "pow2_cap (ring_cap egress)" using assms(1) by (simp add: ring_wf_def)
  have li: "local_ingress egress = local_egress egress + of_nat (ring_cap egress)" using ring_fill_li [of egress] assms(2,3) by simp
  then have i: "?i = slot (ring_cap egress) (local_egress egress)" "?i < length (ring_buf egress)"
    using slot_plus_cap [OF p, of "local_egress egress" 0] slot_less [OF p] by (simp_all add: rc_get_reserved_slot_def ring_cap_def)
  have f: "ring_fill ?eg = 1025" using assms(2) by (simp add: ring_fill_def rc_commit_n_def ring_poke_def li)
  have "tx_egress_conduit t' = Some ?eg"
    using assms(4,5) by (auto simp: requeue_def Let_def split: prod.splits)
  moreover have "ring_cap ?eg = ring_cap egress" "local_egress ?eg = local_egress egress"
    by (simp_all add: rc_commit_n_def ring_poke_def ring_cap_def)
  moreover have "seg_mbuf (ring_buf ?eg ! ?i) = seg_mbuf lost" using i(2) by (simp add: rc_commit_n_def ring_poke_def)
  ultimately show ?thesis using f i(1) by auto
qed

end
