(* ===== verification/Syn_Cookie.thy ===== *)
theory Syn_Cookie
  imports Wire
begin

section \<open>SYN cookies\<close>

text \<open>
  \<^verbatim>\<open>net/tcp_syn_cookie.hpp\<close>: the initial sequence number of a server that keeps no
  state for a half-open connection, made of a time stamp, an index for the segment size and a MAC. The
  AES instructions are parameters (\<open>aesenc\<close>, \<open>aesenclast\<close>), the clock, the entropy file
  and the random number instruction are inputs. A cookie is proved to validate within its period, to
  carry the segment size, and to validate once.
\<close>

type_synonym u128 = "128 word"

type_synonym aes = "(u128 \<Rightarrow> u128 \<Rightarrow> u128) \<times> (u128 \<Rightarrow> u128 \<Rightarrow> u128)"

record syn_cookie =
  ck_rk :: "u128 list"
  ck_is_seeded :: bool
  ck_replay_cache :: "nat \<Rightarrow> u32"
  ck_mac_registry :: "nat \<Rightarrow> u64"
  ck_global_temporal_registry :: u32

definition mss_table :: "u16 list" where
  "mss_table = [64, 256, 512, 536, 1024, 1440, 1460, 8960]"

subsection \<open>Keys\<close>

text \<open>Reading the entropy file: each call returns some bytes, or none at an error.\<close>

fun read_loop :: "nat \<Rightarrow> u8 list list \<Rightarrow> u8 list" where
  "read_loop n [] = []"
| "read_loop n (c # cs) = (if n = 0 \<or> c = [] then [] else take n c @ read_loop (n - length (take n c)) cs)"

text \<open>The random number instruction: a success flag and a value, which is zero without success.\<close>

type_synonym rdrand = "nat \<Rightarrow> bool \<times> u64"

function rdrand_wait :: "rdrand \<Rightarrow> nat \<Rightarrow> int \<Rightarrow> u64 \<times> nat \<times> int" where
  "rdrand_wait step pos retries =
     (if fst (step pos) then (snd (step pos), pos + 1, retries)
      else if 0 < retries - 1 then rdrand_wait step (pos + 1) (retries - 1)
      else (snd (step pos), pos + 1, retries - 1))"
  by pat_completeness auto
termination by (relation "measure (\<lambda>(step, pos, retries). nat retries)") auto

declare rdrand_wait.simps [simp del]

definition set_epi64x :: "u64 \<Rightarrow> u64 \<Rightarrow> u128" where
  "set_epi64x hi lo = push_bit 64 (ucast hi) OR ucast lo"

definition set_epi32 :: "u32 \<Rightarrow> u32 \<Rightarrow> u32 \<Rightarrow> u32 \<Rightarrow> u128" where
  "set_epi32 e3 e2 e1 e0 = push_bit 96 (ucast e3) OR push_bit 64 (ucast e2) OR push_bit 32 (ucast e1) OR ucast e0"

text \<open>One key of the fallback; \<open>tsc\<close> gives the two values mixed from the time stamp counter.\<close>

definition fallback_key :: "rdrand \<Rightarrow> u64 \<times> u64 \<Rightarrow> nat \<Rightarrow> u128 \<times> nat" where
  "fallback_key step tsc pos =
     (let (r1, pos1, retries1) = rdrand_wait step pos 1000;
          (r2, pos2, retries2) = rdrand_wait step pos1 retries1;
          (r1', r2') = (if retries2 = 0 then tsc else (r1, r2))
      in (set_epi64x r1' r2', pos2))"

fun fallback_keys :: "rdrand \<Rightarrow> (u64 \<times> u64) list \<Rightarrow> nat \<Rightarrow> u128 list" where
  "fallback_keys step [] pos = []"
| "fallback_keys step (tsc # tscs) pos = (let (k, pos') = fallback_key step tsc pos in k # fallback_keys step tscs pos')"

definition keys_of_bytes :: "u8 list \<Rightarrow> u128 list" where
  "keys_of_bytes bs = map (\<lambda>i. le_word (take 16 (drop (16 * i) bs))) [0..<11]"

text \<open>\<open>fd\<close> is the result of opening the file, \<open>chunks\<close> what its reads return.\<close>

definition seed_keys :: "int \<Rightarrow> u8 list list \<Rightarrow> rdrand \<Rightarrow> (nat \<Rightarrow> u64 \<times> u64) \<Rightarrow> syn_cookie \<Rightarrow> syn_cookie" where
  "seed_keys fd chunks step tscs st =
     (if ck_is_seeded st then st
      else let bytes = (if 0 \<le> fd then read_loop 176 chunks else []);
               rk = (if 0 \<le> fd \<and> length bytes = 176 then keys_of_bytes bytes else fallback_keys step (map tscs [0..<11]) 0)
           in st\<lparr>ck_rk := rk, ck_is_seeded := True\<rparr>)"

subsection \<open>Time\<close>

definition get_time_counter :: "u64 \<Rightarrow> syn_cookie \<Rightarrow> u32 \<times> syn_cookie" where
  "get_time_counter tv_sec st =
     (let now = ucast (drop_bit 6 tv_sec); registered = ck_global_temporal_registry st
      in if now < registered then (registered, st) else (now, st\<lparr>ck_global_temporal_registry := now\<rparr>))"

definition cookie_time :: "u64 \<Rightarrow> u64 \<Rightarrow> syn_cookie \<Rightarrow> u32 \<times> syn_cookie" where
  "cookie_time current_time_ms tv_sec st =
     (if 0 < current_time_ms then (ucast (current_time_ms div 64000), st) else get_time_counter tv_sec st)"

subsection \<open>The MAC\<close>

definition aes_encrypt :: "aes \<Rightarrow> u128 list \<Rightarrow> u128 \<Rightarrow> u128" where
  "aes_encrypt A rk b = (case A of (aesenc, aesenclast) \<Rightarrow>
     aesenclast (fold (\<lambda>i b. aesenc b (rk ! i)) [1..<10] (b XOR rk ! 0)) (rk ! 10))"

definition compute_mac :: "aes \<Rightarrow> u128 list \<Rightarrow> u32 \<Rightarrow> u16 \<Rightarrow> u32 \<Rightarrow> u16 \<Rightarrow> u32 \<Rightarrow> u32 \<Rightarrow> u64" where
  "compute_mac A rk src_ip src_port dst_ip dst_port client_isn t =
     (let block1 = aes_encrypt A rk (set_epi32 src_ip dst_ip (push_bit 16 (ucast src_port) OR ucast dst_port) client_isn);
          block2 = aes_encrypt A rk (set_epi32 t 0 0 0 XOR block1)
      in ucast block2)"

definition compute_mac_ipv6 :: "aes \<Rightarrow> u128 list \<Rightarrow> u64 \<times> u64 \<Rightarrow> u16 \<Rightarrow> u64 \<times> u64 \<Rightarrow> u16 \<Rightarrow> u32 \<Rightarrow> u32 \<Rightarrow> u64" where
  "compute_mac_ipv6 A rk src_ip src_port dst_ip dst_port client_isn t =
     (let block1 = aes_encrypt A rk (set_epi64x (fst src_ip) (snd src_ip));
          block2 = aes_encrypt A rk (set_epi64x (fst dst_ip) (snd dst_ip) XOR block1);
          block3 = aes_encrypt A rk (set_epi32 t client_isn (push_bit 16 (ucast src_port) OR ucast dst_port) 0 XOR block2)
      in ucast block3)"

subsection \<open>Cookies\<close>

text \<open>The segment size index: the last entry of the table that is not above the client's.\<close>

fun mss_index :: "u16 \<Rightarrow> nat list \<Rightarrow> nat" where
  "mss_index client_mss [] = 0"
| "mss_index client_mss (i # is) = (if mss_table ! i \<le> client_mss then i else mss_index client_mss is)"

definition make_cookie :: "u32 \<Rightarrow> nat \<Rightarrow> u32 \<Rightarrow> u32" where
  "make_cookie t mss_idx mac = push_bit 27 (t AND 0x1F) OR push_bit 24 (of_nat mss_idx AND 0x7) OR (mac AND 0x00FFFFFF)"

text \<open>Issuing and checking, for the MAC function of the connection and its index in the registry.\<close>

definition issue :: "(u32 \<Rightarrow> u64) \<Rightarrow> nat \<Rightarrow> u32 \<Rightarrow> u16 \<Rightarrow> u64 \<Rightarrow> u64 \<Rightarrow> syn_cookie \<Rightarrow> u32 \<times> syn_cookie" where
  "issue mac_at reg_idx client_isn client_mss current_time_ms tv_sec st =
     (let (t0, st1) = cookie_time current_time_ms tv_sec st;
          t = t0 AND 0x1F;
          full_mac = mac_at t;
          mac = ucast (full_mac AND 0x00FFFFFF);
          st2 = st1\<lparr>ck_mac_registry := (ck_mac_registry st1)(reg_idx := full_mac)\<rparr>;
          mss_idx = mss_index client_mss [7, 6, 5, 4, 3, 2, 1, 0]
      in (client_isn + make_cookie t mss_idx mac, st2))"

datatype cookie_status = Cookie_Status (is_valid: bool) (cookie_mss: u16)

definition check :: "(u32 \<Rightarrow> u64) \<Rightarrow> nat \<Rightarrow> u32 \<Rightarrow> u32 \<Rightarrow> u64 \<Rightarrow> u64 \<Rightarrow> syn_cookie \<Rightarrow> cookie_status \<times> syn_cookie" where
  "check mac_at reg_idx server_isn client_isn current_time_ms tv_sec st =
     (let cookie = server_isn - client_isn;
          t_rx = drop_bit 27 cookie;
          mss_idx = drop_bit 24 cookie AND 0x7;
          mac_rx = cookie AND 0x00FFFFFF;
          (t0, st1) = cookie_time current_time_ms tv_sec st;
          t_local = t0 AND 0x1F;
          diff = (t_local - t_rx) AND 0x1F
      in if 2 \<le> diff then (Cookie_Status False 0, st1)
         else let original_t = (t_local - diff) AND 0x1F; full_mac = mac_at original_t
              in if ucast mac_rx = full_mac AND 0x00FFFFFF
                 then if ck_mac_registry st1 reg_idx \<noteq> full_mac then (Cookie_Status False 0, st1)
                      else let h = unat (mac_rx AND 4095)
                           in if ck_replay_cache st1 h = mac_rx then (Cookie_Status False 0, st1)
                              else (Cookie_Status True (mss_table ! unat mss_idx), st1\<lparr>ck_replay_cache := (ck_replay_cache st1)(h := mac_rx)\<rparr>)
                 else (Cookie_Status False 0, st1))"

definition registry_index :: "u32 \<Rightarrow> u16 \<Rightarrow> u32 \<Rightarrow> nat" where
  "registry_index src_ip src_port client_isn = unat ((src_ip XOR ucast src_port XOR client_isn) AND 0xFFFF)"

definition registry_index_ipv6 :: "u64 \<times> u64 \<Rightarrow> u16 \<Rightarrow> u32 \<Rightarrow> nat" where
  "registry_index_ipv6 src_ip src_port client_isn = unat ((fst src_ip XOR snd src_ip XOR ucast src_port XOR ucast client_isn) AND 0xFFFF)"

definition generate :: "aes \<Rightarrow> u32 \<Rightarrow> u16 \<Rightarrow> u32 \<Rightarrow> u16 \<Rightarrow> u32 \<Rightarrow> u16 \<Rightarrow> u64 \<Rightarrow> u64 \<Rightarrow> syn_cookie \<Rightarrow> u32 \<times> syn_cookie" where
  "generate A src_ip src_port dst_ip dst_port client_isn client_mss current_time_ms tv_sec st =
     issue (compute_mac A (ck_rk st) src_ip src_port dst_ip dst_port client_isn) (registry_index src_ip src_port client_isn)
       client_isn client_mss current_time_ms tv_sec st"

definition validate :: "aes \<Rightarrow> u32 \<Rightarrow> u16 \<Rightarrow> u32 \<Rightarrow> u16 \<Rightarrow> u32 \<Rightarrow> u32 \<Rightarrow> u64 \<Rightarrow> u64 \<Rightarrow> syn_cookie \<Rightarrow> cookie_status \<times> syn_cookie" where
  "validate A src_ip src_port dst_ip dst_port server_isn client_isn current_time_ms tv_sec st =
     check (compute_mac A (ck_rk st) src_ip src_port dst_ip dst_port client_isn) (registry_index src_ip src_port client_isn)
       server_isn client_isn current_time_ms tv_sec st"

definition generate_ipv6 :: "aes \<Rightarrow> u64 \<times> u64 \<Rightarrow> u16 \<Rightarrow> u64 \<times> u64 \<Rightarrow> u16 \<Rightarrow> u32 \<Rightarrow> u16 \<Rightarrow> u64 \<Rightarrow> u64 \<Rightarrow> syn_cookie \<Rightarrow> u32 \<times> syn_cookie" where
  "generate_ipv6 A src_ip src_port dst_ip dst_port client_isn client_mss current_time_ms tv_sec st =
     issue (compute_mac_ipv6 A (ck_rk st) src_ip src_port dst_ip dst_port client_isn) (registry_index_ipv6 src_ip src_port client_isn)
       client_isn client_mss current_time_ms tv_sec st"

definition validate_ipv6 :: "aes \<Rightarrow> u64 \<times> u64 \<Rightarrow> u16 \<Rightarrow> u64 \<times> u64 \<Rightarrow> u16 \<Rightarrow> u32 \<Rightarrow> u32 \<Rightarrow> u64 \<Rightarrow> u64 \<Rightarrow> syn_cookie \<Rightarrow> cookie_status \<times> syn_cookie" where
  "validate_ipv6 A src_ip src_port dst_ip dst_port server_isn client_isn current_time_ms tv_sec st =
     check (compute_mac_ipv6 A (ck_rk st) src_ip src_port dst_ip dst_port client_isn) (registry_index_ipv6 src_ip src_port client_isn)
       server_isn client_isn current_time_ms tv_sec st"

subsection \<open>The fields of a cookie\<close>

lemma low_masks: "(x :: 'a::len word) AND 0x1F = take_bit 5 x" "x AND 0x7 = take_bit 3 x" "x AND 0xFFFFFF = take_bit 24 x"
  using take_bit_eq_mask [of 5 x] take_bit_eq_mask [of 3 x] take_bit_eq_mask [of 24 x] by (simp_all add: mask_eq_exp_minus_1 and.commute)

lemma make_cookie_fields:
  "drop_bit 27 (make_cookie t i mac) = take_bit 5 t"
  "drop_bit 24 (make_cookie t i mac) AND 0x7 = of_nat i AND 0x7"
  "make_cookie t i mac AND 0xFFFFFF = mac AND 0xFFFFFF"
  unfolding make_cookie_def low_masks by (rule bit_word_eqI; auto simp: bit_simps)+

lemma mss_index_less: "\<forall>i\<in>set is. i < 8 \<Longrightarrow> mss_index m is < 8"
  by (induction "is") auto

lemma mss_roundtrip: "i < 8 \<Longrightarrow> unat (of_nat i AND 0x7 :: u32) = i"
  by (simp add: low_masks unsigned_take_bit_eq unat_of_nat take_bit_nat_def)

lemma take_bit_diff_word: "n \<le> LENGTH('a) \<Longrightarrow> take_bit n (take_bit n a - take_bit n b) = take_bit n (a - b :: 'a::len word)"
  by (simp add: word_uint_eq_iff unsigned_take_bit_eq uint_word_arith_bintrs(2) take_bit_take_bit min_def take_bit_diff)

lemma time_window:
  fixes a b :: u32
  assumes "b = a \<or> b = a + 1"
  shows "take_bit 5 (take_bit 5 b - take_bit 5 a) < 2" "take_bit 5 (take_bit 5 b - take_bit 5 (take_bit 5 b - take_bit 5 a)) = take_bit 5 a"
proof -
  have d: "take_bit 5 (take_bit 5 b - take_bit 5 a) = take_bit 5 (b - a)" by (simp add: take_bit_diff_word)
  then have "take_bit 5 (take_bit 5 b - take_bit 5 a) = 0 \<or> take_bit 5 (take_bit 5 b - take_bit 5 a) = 1" using assms by auto
  then show "take_bit 5 (take_bit 5 b - take_bit 5 a) < 2" by auto
  show "take_bit 5 (take_bit 5 b - take_bit 5 (take_bit 5 b - take_bit 5 a)) = take_bit 5 a" unfolding d by (simp add: take_bit_diff_word)
qed

text \<open>A cookie that is checked in its own time period or the next, while its registry entry stands.\<close>

lemma check_issued:
  assumes "issue mac_at idx isn mss ms tv st = (c, st1)" "cookie_time ms tv st = (t1, sta)" "cookie_time ms' tv' st' = (t2, stb)"
    and "t2 = t1 \<or> t2 = t1 + 1" "ck_mac_registry stb idx = mac_at (t1 AND 0x1F)"
  defines "mac \<equiv> ucast (mac_at (t1 AND 0x1F) AND 0xFFFFFF) :: u32"
  shows "check mac_at idx c isn ms' tv' st' = (if ck_replay_cache stb (unat (mac AND 4095)) = mac then (Cookie_Status False 0, stb)
     else (Cookie_Status True (mss_table ! mss_index mss [7, 6, 5, 4, 3, 2, 1, 0]), stb\<lparr>ck_replay_cache := (ck_replay_cache stb)(unat (mac AND 4095) := mac)\<rparr>))"
proof -
  let ?i = "mss_index mss [7, 6, 5, 4, 3, 2, 1, 0]"
  have c: "c - isn = make_cookie (t1 AND 0x1F) ?i mac" using assms(1,2) by (auto simp: issue_def Let_def mac_def)
  have m: "mac AND 0xFFFFFF = mac" unfolding mac_def low_masks by (rule bit_word_eqI) (auto simp: bit_simps)
  have u: "ucast mac = mac_at (t1 AND 0x1F) AND 0xFFFFFF" unfolding mac_def low_masks by (rule bit_word_eqI) (auto simp: bit_simps)
  have i: "unat (of_nat ?i AND 0x7 :: u32) = ?i" by (intro mss_roundtrip mss_index_less) simp
  note tw = time_window [OF assms(4)]
  have d: "\<not> 2 \<le> take_bit 5 (take_bit 5 t2 - take_bit 5 t1)" using tw(1) by (simp add: not_le)
  show ?thesis
    unfolding check_def Let_def c make_cookie_fields m using assms(3,5) u i tw(2) d
    by (simp add: low_masks del: mss_index.simps)
qed

text \<open>The segment size a cookie carries: the largest of the table that is not above the client's.\<close>

definition best_mss :: "u16 \<Rightarrow> u16 \<Rightarrow> bool" where
  "best_mss mss m \<longleftrightarrow> m \<in> set mss_table \<and> (if 64 \<le> mss then m \<le> mss \<and> (\<forall>x\<in>set mss_table. x \<le> mss \<longrightarrow> x \<le> m) else m = 64)"

lemma mss_index_best: "best_mss mss (mss_table ! mss_index mss [7, 6, 5, 4, 3, 2, 1, 0])"
  by (auto simp: best_mss_def mss_table_def word_le_nat_alt)

lemma cookie_time_keeps:
  assumes "cookie_time ms tv st = (t, st')"
  shows "ck_rk st' = ck_rk st" "ck_mac_registry st' = ck_mac_registry st" "ck_replay_cache st' = ck_replay_cache st"
  using assms by (auto simp: cookie_time_def get_time_counter_def Let_def split: if_splits)

text \<open>The slot of the replay cache a cookie belongs to, and what is kept there.\<close>

abbreviation cookie_mac :: "u32 \<Rightarrow> u32" where
  "cookie_mac cookie \<equiv> cookie AND 0xFFFFFF"

abbreviation replay_slot :: "u32 \<Rightarrow> nat" where
  "replay_slot cookie \<equiv> unat (cookie_mac cookie AND 4095)"

lemma issued_validates:
  assumes gen: "issue mac_at idx isn mss ms tv st = (c, st1)"
    and period: "fst (cookie_time ms' tv' st') \<in> {fst (cookie_time ms tv st), fst (cookie_time ms tv st) + 1}"
    and reg: "ck_mac_registry st' idx = ck_mac_registry st1 idx"
    and new: "ck_replay_cache st' (replay_slot (c - isn)) \<noteq> cookie_mac (c - isn)"
  shows "\<exists>m st2. check mac_at idx c isn ms' tv' st' = (Cookie_Status True m, st2) \<and> best_mss mss m \<and> ck_rk st2 = ck_rk st'
     \<and> ck_replay_cache st2 (replay_slot (c - isn)) = cookie_mac (c - isn)"
proof -
  obtain t1 sta t2 stb where ct: "cookie_time ms tv st = (t1, sta)" "cookie_time ms' tv' st' = (t2, stb)" by (metis surj_pair)
  note k = cookie_time_keeps [OF ct(1)] cookie_time_keeps [OF ct(2)]
  let ?mac = "ucast (mac_at (t1 AND 0x1F) AND 0xFFFFFF) :: u32" and ?m = "mss_table ! mss_index mss [7, 6, 5, 4, 3, 2, 1, 0]"
  have t: "t2 = t1 \<or> t2 = t1 + 1" using period ct by simp
  have r: "ck_mac_registry stb idx = mac_at (t1 AND 0x1F)" and c: "c - isn = make_cookie (t1 AND 0x1F) (mss_index mss [7, 6, 5, 4, 3, 2, 1, 0]) ?mac"
    using gen reg ct(1) k by (auto simp: issue_def Let_def)
  have mm: "?mac AND 0xFFFFFF = ?mac" unfolding low_masks by (rule bit_word_eqI) (auto simp: bit_simps)
  then have cm: "cookie_mac (c - isn) = ?mac" unfolding c make_cookie_fields .
  have "check mac_at idx c isn ms' tv' st' = (Cookie_Status True ?m, stb\<lparr>ck_replay_cache := (ck_replay_cache stb)(unat (?mac AND 4095) := ?mac)\<rparr>)"
    using check_issued [OF gen ct t r] new k unfolding cm by simp
  then show ?thesis using mss_index_best k unfolding cm by auto
qed

text \<open>A cookie whose MAC is in its slot of the replay cache is refused, whatever the time and the keys.\<close>

lemma check_replayed:
  assumes "ck_replay_cache st (replay_slot (c - isn)) = cookie_mac (c - isn)"
  shows "fst (check mac_at idx c isn ms tv st) = Cookie_Status False 0"
proof -
  obtain t st1 where t: "cookie_time ms tv st = (t, st1)" by (metis surj_pair)
  then show ?thesis using assms cookie_time_keeps(3) [OF t] by (simp add: check_def Let_def)
qed

text \<open>The calls of the cookie engine, and those that leave the slot of a cookie alone: a cookie that is
  checked has another slot or the same MAC.\<close>

datatype cookie_call =
    Generate u32 u16 u32 u16 u32 u16 u64 u64
  | Validate u32 u16 u32 u16 u32 u32 u64 u64
  | Generate_Ipv6 "u64 \<times> u64" u16 "u64 \<times> u64" u16 u32 u16 u64 u64
  | Validate_Ipv6 "u64 \<times> u64" u16 "u64 \<times> u64" u16 u32 u32 u64 u64

fun cookie_run :: "aes \<Rightarrow> cookie_call \<Rightarrow> syn_cookie \<Rightarrow> syn_cookie" where
  "cookie_run A (Generate src sp dst dp isn mss ms tv) st = snd (generate A src sp dst dp isn mss ms tv st)"
| "cookie_run A (Validate src sp dst dp c isn ms tv) st = snd (validate A src sp dst dp c isn ms tv st)"
| "cookie_run A (Generate_Ipv6 src sp dst dp isn mss ms tv) st = snd (generate_ipv6 A src sp dst dp isn mss ms tv st)"
| "cookie_run A (Validate_Ipv6 src sp dst dp c isn ms tv) st = snd (validate_ipv6 A src sp dst dp c isn ms tv st)"

fun spares :: "u32 \<Rightarrow> cookie_call \<Rightarrow> bool" where
  "spares k (Validate src sp dst dp c isn ms tv) \<longleftrightarrow> replay_slot (c - isn) = replay_slot k \<longrightarrow> cookie_mac (c - isn) = cookie_mac k"
| "spares k (Validate_Ipv6 src sp dst dp c isn ms tv) \<longleftrightarrow> replay_slot (c - isn) = replay_slot k \<longrightarrow> cookie_mac (c - isn) = cookie_mac k"
| "spares k _ \<longleftrightarrow> True"

lemma issue_cache: "ck_replay_cache (snd (issue mac_at idx isn mss ms tv st)) = ck_replay_cache st"
proof -
  obtain t st1 where t: "cookie_time ms tv st = (t, st1)" by (metis surj_pair)
  then show ?thesis using cookie_time_keeps(3) [OF t] by (simp add: issue_def Let_def)
qed

lemma check_cache:
  "ck_replay_cache (snd (check mac_at idx c isn ms tv st)) = ck_replay_cache st
   \<or> ck_replay_cache (snd (check mac_at idx c isn ms tv st)) = (ck_replay_cache st)(replay_slot (c - isn) := cookie_mac (c - isn))"
proof -
  obtain t st1 where t: "cookie_time ms tv st = (t, st1)" by (metis surj_pair)
  then show ?thesis using cookie_time_keeps(3) [OF t] by (simp add: check_def Let_def)
qed

lemma spared:
  assumes "spares k call" "ck_replay_cache st (replay_slot k) = cookie_mac k"
  shows "ck_replay_cache (cookie_run A call st) (replay_slot k) = cookie_mac k"
proof (cases call)
  case (Validate src sp dst dp c isn ms tv)
  then show ?thesis using assms check_cache [of "compute_mac A (ck_rk st) src sp dst dp isn" "registry_index src sp isn" c isn ms tv st]
    by (auto simp: validate_def)
next
  case (Validate_Ipv6 src sp dst dp c isn ms tv)
  then show ?thesis using assms check_cache [of "compute_mac_ipv6 A (ck_rk st) src sp dst dp isn" "registry_index_ipv6 src sp isn" c isn ms tv st]
    by (auto simp: validate_ipv6_def)
qed (use assms in \<open>simp_all add: generate_def generate_ipv6_def issue_cache\<close>)

lemma spared_all:
  "list_all (spares k) calls \<Longrightarrow> ck_replay_cache st (replay_slot k) = cookie_mac k
   \<Longrightarrow> ck_replay_cache (fold (cookie_run A) calls st) (replay_slot k) = cookie_mac k"
  by (induction calls arbitrary: st) (auto simp: spared)

subsection \<open>Properties\<close>

text \<open>(C32) A cookie that comes back in the period of 64 seconds it was made in, or the next, by the time
  the caller passes or by the engine's own clock, while its registry entry stands and its MAC is not in
  its slot of the replay cache, validates with the largest segment size of the table that is not above
  the client's. After any calls of the engine that check no cookie with the same slot and another MAC,
  at whatever time, a second copy of it is refused.\<close>

theorem syn_cookie_validates_once:
  assumes "generate A src_ip src_port dst_ip dst_port isn mss ms tv st = (c, st1)"
    and "fst (cookie_time ms' tv' st') \<in> {fst (cookie_time ms tv st), fst (cookie_time ms tv st) + 1}"
    and "ck_rk st' = ck_rk st" "ck_mac_registry st' (registry_index src_ip src_port isn) = ck_mac_registry st1 (registry_index src_ip src_port isn)"
    and "ck_replay_cache st' (replay_slot (c - isn)) \<noteq> cookie_mac (c - isn)"
  shows "\<exists>m st2. validate A src_ip src_port dst_ip dst_port c isn ms' tv' st' = (Cookie_Status True m, st2) \<and> best_mss mss m
     \<and> (\<forall>calls ms'' tv''. list_all (spares (c - isn)) calls \<longrightarrow>
          fst (validate A src_ip src_port dst_ip dst_port c isn ms'' tv'' (fold (cookie_run A) calls st2)) = Cookie_Status False 0)"
proof -
  let ?mac = "compute_mac A (ck_rk st) src_ip src_port dst_ip dst_port isn" and ?i = "registry_index src_ip src_port isn"
  obtain m st2 where v: "check ?mac ?i c isn ms' tv' st' = (Cookie_Status True m, st2)" "best_mss mss m"
    "ck_replay_cache st2 (replay_slot (c - isn)) = cookie_mac (c - isn)"
    using issued_validates [OF assms(1) [unfolded generate_def] assms(2,4,5)] by blast
  then show ?thesis using assms(3) spared_all [OF _ v(3)] check_replayed
    by (intro exI [of _ m] exI [of _ st2]) (simp add: validate_def)
qed

text \<open>The same for IPv6.\<close>

lemma syn_cookie_ipv6_validates_once:
  assumes "generate_ipv6 A src_ip src_port dst_ip dst_port isn mss ms tv st = (c, st1)"
    and "fst (cookie_time ms' tv' st') \<in> {fst (cookie_time ms tv st), fst (cookie_time ms tv st) + 1}"
    and "ck_rk st' = ck_rk st" "ck_mac_registry st' (registry_index_ipv6 src_ip src_port isn) = ck_mac_registry st1 (registry_index_ipv6 src_ip src_port isn)"
    and "ck_replay_cache st' (replay_slot (c - isn)) \<noteq> cookie_mac (c - isn)"
  shows "\<exists>m st2. validate_ipv6 A src_ip src_port dst_ip dst_port c isn ms' tv' st' = (Cookie_Status True m, st2) \<and> best_mss mss m
     \<and> (\<forall>calls ms'' tv''. list_all (spares (c - isn)) calls \<longrightarrow>
          fst (validate_ipv6 A src_ip src_port dst_ip dst_port c isn ms'' tv'' (fold (cookie_run A) calls st2)) = Cookie_Status False 0)"
proof -
  let ?mac = "compute_mac_ipv6 A (ck_rk st) src_ip src_port dst_ip dst_port isn" and ?i = "registry_index_ipv6 src_ip src_port isn"
  obtain m st2 where v: "check ?mac ?i c isn ms' tv' st' = (Cookie_Status True m, st2)" "best_mss mss m"
    "ck_replay_cache st2 (replay_slot (c - isn)) = cookie_mac (c - isn)"
    using issued_validates [OF assms(1) [unfolded generate_ipv6_def] assms(2,4,5)] by blast
  then show ?thesis using assms(3) spared_all [OF _ v(3)] check_replayed
    by (intro exI [of _ m] exI [of _ st2]) (simp add: validate_ipv6_def)
qed

text \<open>An instance, with the exclusive or of block and key in place of the cipher rounds.\<close>

definition cookie_example :: syn_cookie where
  "cookie_example = \<lparr>ck_rk = replicate 11 3, ck_is_seeded = True, ck_replay_cache = (\<lambda>_. 0), ck_mac_registry = (\<lambda>_. 0), ck_global_temporal_registry = 0\<rparr>"

definition xor_aes :: aes where
  "xor_aes = ((XOR), (XOR))"

text \<open>By the engine's own clock, as the gateway calls it: made in one period, back in the next, and again
  after another cookie was checked.\<close>

theorem syn_cookie_validates_once_witness:
  "\<exists>c st1 st2 m. generate xor_aes 1 2 3 4 5 1460 0 640 cookie_example = (c, st1)
     \<and> validate xor_aes 1 2 3 4 c 5 0 704 st1 = (Cookie_Status True m, st2) \<and> best_mss 1460 m
     \<and> fst (validate xor_aes 1 2 3 4 c 5 0 704 (cookie_run xor_aes (Validate 9 9 9 9 1 0 0 704) st2)) = Cookie_Status False 0"
proof -
  obtain c st1 where g: "generate xor_aes 1 2 3 4 5 1460 0 640 cookie_example = (c, st1)" by (metis surj_pair)
  have t: "fst (cookie_time 0 640 cookie_example) = 10" "fst (cookie_time 0 704 (snd (generate xor_aes 1 2 3 4 5 1460 0 640 cookie_example))) = 11"
    by code_simp+
  have k: "ck_rk st1 = ck_rk cookie_example" "ck_replay_cache st1 = ck_replay_cache cookie_example"
    using g by (auto simp: generate_def issue_def cookie_time_def get_time_counter_def cookie_example_def Let_def)
  have n: "cookie_mac (fst (generate xor_aes 1 2 3 4 5 1460 0 640 cookie_example) - 5) \<noteq> 0"
    "spares (fst (generate xor_aes 1 2 3 4 5 1460 0 640 cookie_example) - 5) (Validate 9 9 9 9 1 0 0 704)" by code_simp+
  obtain m st2 where v: "validate xor_aes 1 2 3 4 c 5 0 704 st1 = (Cookie_Status True m, st2)" "best_mss 1460 m"
    "\<forall>calls ms'' tv''. list_all (spares (c - 5)) calls \<longrightarrow>
      fst (validate xor_aes 1 2 3 4 c 5 ms'' tv'' (fold (cookie_run xor_aes) calls st2)) = Cookie_Status False 0"
    using syn_cookie_validates_once [OF g, where ms' = 0 and tv' = 704 and st' = st1] t k n(1) g by (auto simp: cookie_example_def)
  then have "fst (validate xor_aes 1 2 3 4 c 5 0 704 (fold (cookie_run xor_aes) [Validate 9 9 9 9 1 0 0 704] st2)) = Cookie_Status False 0"
    using n(2) g by (simp del: fold.simps spares.simps cookie_run.simps)
  with g v(1,2) show ?thesis by auto
qed

text \<open>With an instruction that never delivers, the two waits leave the retry counter at minus one, not at
  zero: the values mixed from the time stamp counter are not used.\<close>

lemma rdrand_wait_fails:
  assumes "\<forall>n. step n = (False, 0)"
  shows "\<exists>pos'. rdrand_wait step pos r = (0, pos', if 1 \<le> r then 0 else r - 1)"
proof (induction "nat r" arbitrary: pos r rule: less_induct)
  case less
  show ?case
  proof (cases "0 < r - 1")
    case True
    then show ?thesis using less [of "r - 1" "pos + 1"] assms by (subst rdrand_wait.simps) auto
  next
    case False
    then show ?thesis using assms by (subst rdrand_wait.simps) auto
  qed
qed

lemma fallback_key_zero:
  assumes "\<forall>n. step n = (False, 0)"
  shows "\<exists>pos'. fallback_key step tsc pos = (0, pos')"
proof -
  obtain p1 where "rdrand_wait step pos 1000 = (0, p1, 0)" using rdrand_wait_fails [of step pos 1000] assms by auto
  moreover obtain p2 where "rdrand_wait step p1 0 = (0, p2, - 1)" using rdrand_wait_fails [of step p1 0] assms by auto
  ultimately show ?thesis by (simp add: fallback_key_def set_epi64x_def)
qed

lemma fallback_keys_zero: "\<forall>n. step n = (False, 0) \<Longrightarrow> fallback_keys step ts pos = replicate (length ts) 0"
proof (induction ts arbitrary: pos)
  case (Cons t ts)
  obtain pos' where "fallback_key step t pos = (0, pos')" using fallback_key_zero [OF Cons.prems, of t pos] by blast
  with Cons.IH [OF Cons.prems] show ?case by simp
qed simp

text \<open>(C33) When neither the entropy file nor the random number instruction delivers, every round key is
  zero, whatever the time stamp counter gives, and the engine counts as seeded.\<close>

theorem seed_keys_all_zero:
  assumes "\<not> ck_is_seeded st" "fd < 0 \<or> length (read_loop 176 chunks) \<noteq> 176" "\<forall>n. step n = (False, 0)"
  shows "ck_rk (seed_keys fd chunks step tscs st) = replicate 11 0 \<and> ck_is_seeded (seed_keys fd chunks step tscs st)"
  using assms(1,2) fallback_keys_zero [OF assms(3), of "map tscs [0..<11]" 0] by (auto simp: seed_keys_def Let_def simp del: upt_rec_numeral)

theorem seed_keys_all_zero_witness:
  "ck_rk (seed_keys (- 1) [] (\<lambda>_. (False, 0)) (\<lambda>_. (7, 8)) (cookie_example\<lparr>ck_is_seeded := False\<rparr>)) = replicate 11 0"
  using seed_keys_all_zero [of "cookie_example\<lparr>ck_is_seeded := False\<rparr>" "- 1" "[]" "\<lambda>_. (False, 0)" "\<lambda>_. (7, 8)"] by simp

text \<open>The other way round, an entropy file that delivers its 176 bytes, in whatever pieces, gives the keys.\<close>

lemma read_loop_all: "\<forall>c\<in>set cs. c \<noteq> [] \<Longrightarrow> n \<le> length (concat cs) \<Longrightarrow> read_loop n cs = take n (concat cs)"
  by (induction cs arbitrary: n) (auto simp: min_def)

lemma seed_keys_entropy:
  assumes "\<not> ck_is_seeded st" "0 \<le> fd" "\<forall>c\<in>set chunks. c \<noteq> []" "176 \<le> length (concat chunks)"
  shows "ck_rk (seed_keys fd chunks step tscs st) = keys_of_bytes (take 176 (concat chunks))"
  using assms read_loop_all [of chunks 176] by (simp add: seed_keys_def Let_def)

end
