(* ===== verification/Tcp_Inbound.thy ===== *)
theory Tcp_Inbound
  imports Tcp_Timers Syn_Cookie
begin

section \<open>Inbound segments\<close>

text \<open>
  \<^verbatim>\<open>process_inbound\<close> of \<^verbatim>\<open>net/tcp_flow_engine.hpp\<close>: what the engine does with a
  segment that has arrived for a connection. The function is a sequence of stages, each of which may
  return (\<^term>\<open>Inl\<close>, with the verdict) or go on (\<^term>\<open>Inr\<close>). The reference parameters
  and what the calls change, the block, the packet buffers and the state of the cookie engine, are the
  record \<open>flow\<close>; the header, the length of the payload and the clocks are the record
  \<open>inbound\<close>.
\<close>

subsection \<open>A segment and the state it meets\<close>

record inbound =
  in_v6 :: bool
  in_hdr :: memory
  in_len :: u32
  in_mbuf :: u64
  in_payload_offset :: u16
  in_absorb :: bool
  in_tsc :: u64
  in_tv_sec :: u64

record 'p flow =
  fl_tcb :: tcb
  fl_buf :: "'p buffers"
  fl_cookie :: syn_cookie
  fl_len :: u32
  fl_trim :: u32
  fl_absorbed :: bool

type_synonym 'p stage = "(bool \<times> 'p flow) + 'p flow"

definition and_then :: "'p stage \<Rightarrow> ('p flow \<Rightarrow> 'p stage) \<Rightarrow> 'p stage" where
  "and_then x f = (case x of Inl r \<Rightarrow> Inl r | Inr s \<Rightarrow> f s)"

definition in_seq :: "inbound \<Rightarrow> u32" where
  "in_seq I = network_to_host32 (mem32 (in_hdr I) (if in_v6 I then 58 else 38))"

definition in_ack :: "inbound \<Rightarrow> u32" where
  "in_ack I = network_to_host32 (mem32 (in_hdr I) (if in_v6 I then 62 else 42))"

definition in_wnd :: "inbound \<Rightarrow> u16" where
  "in_wnd I = network_to_host16 (mem16 (in_hdr I) (if in_v6 I then 68 else 48))"

definition in_flags :: "inbound \<Rightarrow> u8" where
  "in_flags I = in_hdr I (if in_v6 I then 67 else 47)"

definition in_data_offset :: "inbound \<Rightarrow> u8" where
  "in_data_offset I = drop_bit 4 (in_hdr I (if in_v6 I then 66 else 46))"

definition in_ttl :: "inbound \<Rightarrow> u8" where
  "in_ttl I = in_hdr I (if in_v6 I then 21 else 22)"

definition in_tos :: "inbound \<Rightarrow> u8" where
  "in_tos I = (if in_v6 I then ucast (drop_bit 20 (network_to_host32 (mem32 (in_hdr I) 14)) AND 0xFF) else in_hdr I 15)"

definition upd_tcb :: "(tcb \<Rightarrow> tcb) \<Rightarrow> 'p flow \<Rightarrow> 'p flow" where
  "upd_tcb g f = f\<lparr>fl_tcb := g (fl_tcb f)\<rparr>"

definition pend :: "u8 \<Rightarrow> tcb \<Rightarrow> tcb" where
  "pend fl t = t\<lparr>flags_pending := flags_pending t OR fl\<rparr>"

definition trigger_challenge_ack :: "u64 \<Rightarrow> tcb \<Rightarrow> tcb" where
  "trigger_challenge_ack now t =
     (let t1 = (if 3000000000 < now - last_challenge_tsc t then t\<lparr>challenge_ack_cnt := 0, last_challenge_tsc := now\<rparr> else t)
      in if challenge_ack_cnt t1 < 2 then pend FLAG_ACK (t1\<lparr>challenge_ack_cnt := challenge_ack_cnt t1 + 1\<rparr>) else t1)"

text \<open>The three ways to stop: drop the segment, take it with nothing left to read, or answer with a
  challenge.\<close>

definition swallow :: "'p flow \<Rightarrow> 'p stage" where
  "swallow f = Inl (True, f\<lparr>fl_len := 0\<rparr>)"

definition challenge :: "inbound \<Rightarrow> 'p flow \<Rightarrow> 'p stage" where
  "challenge I f = swallow (upd_tcb (trigger_challenge_ack (in_tsc I)) f)"

subsection \<open>Window, hop count and congestion marks\<close>

definition seq_valid :: "inbound \<Rightarrow> tcb \<Rightarrow> bool" where
  "seq_valid I t =
     (if phase_mask t = PHASE_SYN_SENT
      then if has (in_flags I) FLAG_ACK then in_ack I = snd_nxt t else has (in_flags I) FLAG_SYN
      else if rcv_wnd t = 0 then in_len I = 0 \<and> in_seq I = rcv_nxt t
      else let dist_head = in_seq I - rcv_nxt t; dist_tail = in_seq I + in_len I - 1 - rcv_nxt t
           in 0 \<le> sint dist_head \<and> dist_head < rcv_wnd t \<or> 0 < in_len I \<and> 0 \<le> sint dist_tail \<and> dist_tail < rcv_wnd t)"

definition check_sequence :: "inbound \<Rightarrow> 'p flow \<Rightarrow> 'p stage" where
  "check_sequence I f = (let t = fl_tcb f in
     if seq_valid I t then Inr f
     else if has (in_flags I) FLAG_RST then Inl (False, f)
     else if phase_mask t = PHASE_SYN_SENT \<and> has (in_flags I) FLAG_ACK then swallow (upd_tcb (pend FLAG_RST) f)
     else if in_len I = 0 \<and> in_flags I = FLAG_ACK
     then if sint (rcv_nxt t - in_seq I) = 1 then challenge I f else Inl (False, f)
     else challenge I f)"

definition check_ttl :: "inbound \<Rightarrow> 'p flow \<Rightarrow> 'p stage" where
  "check_ttl I f = (let t = fl_tcb f in
     if expected_ttl t \<noteq> 0
     then let ttl_diff = uint (in_ttl I) - uint (expected_ttl t)
          in if ttl_diff < -6 \<or> 6 < ttl_diff then Inl (False, f) else Inr (upd_tcb (\<lambda>t. t\<lparr>expected_ttl := in_ttl I\<rparr>) f)
     else Inr f)"

definition safe_cwnd :: "tcb \<Rightarrow> u32" where
  "safe_cwnd t = (if 1460 \<le> cwnd t then cwnd t else 1460)"

definition ecn_mark :: "inbound \<Rightarrow> tcb \<Rightarrow> tcb" where
  "ecn_mark I t =
     (if in_tos I AND 3 = 3 \<and> 0 < in_len I \<and> in_seq I = rcv_nxt t
      then pend FLAG_ACK (t\<lparr>temporal_flags := temporal_flags t OR TEMP_FLAG_ECN_ECHO\<rparr>) else t)"

definition ecn_echo :: "inbound \<Rightarrow> tcb \<Rightarrow> tcb" where
  "ecn_echo I t =
     (if has (in_flags I) FLAG_ECE \<and> ssthresh t < cwnd t
      then let s = safe_half (safe_cwnd t) in t\<lparr>ssthresh := s, cwnd := s, temporal_flags := temporal_flags t OR TEMP_FLAG_CWR\<rparr> else t)"

definition react_ecn :: "inbound \<Rightarrow> tcb \<Rightarrow> tcb" where
  "react_ecn I t =
     (if ecn_permitted t \<noteq> 0
      then let t1 = ecn_echo I (ecn_mark I t)
           in if has (in_flags I) FLAG_CWR then t1\<lparr>temporal_flags := temporal_flags t1 AND NOT TEMP_FLAG_ECN_ECHO\<rparr> else t1
      else t)"

subsection \<open>A SYN on a synchronised connection\<close>

definition synchronised_phases :: u16 where
  "synchronised_phases = PHASE_ESTABLISHED OR PHASE_FIN_WAIT1 OR PHASE_FIN_WAIT2 OR PHASE_CLOSE_WAIT OR PHASE_CLOSING
     OR PHASE_TIME_WAIT OR PHASE_LAST_ACK"

text \<open>A new connection takes over one in \<^verbatim>\<open>TIME_WAIT\<close>, with a first sequence number from the
  cookie engine.\<close>

definition recycle :: "aes \<Rightarrow> inbound \<Rightarrow> 'p flow \<Rightarrow> 'p flow" where
  "recycle A I f =
     (let t = fl_tcb f; (counter, ck) = get_time_counter (in_tv_sec I) (fl_cookie f);
          isn = ucast (compute_mac A (ck_rk ck) (local_ipv4 t) (local_port t) (remote_ipv4 t) (remote_port t) 0 counter)
      in f\<lparr>fl_cookie := ck,
           fl_tcb := t\<lparr>snd_una := isn, snd_nxt := isn, dup_acks := 0, temporal_flags := 0, flags_pending := 0, rto_retries := 0,
                       time_wait_deadline_tsc := 0, rto_deadline_tsc := 0\<rparr>\<rparr>)"

definition check_syn :: "aes \<Rightarrow> inbound \<Rightarrow> 'p flow \<Rightarrow> 'p stage" where
  "check_syn A I f = (let t = fl_tcb f in
     if has (in_flags I) FLAG_SYN \<and> has (phase_mask t) synchronised_phases
     then if phase_mask t = PHASE_TIME_WAIT \<and> 0 < sint (in_seq I - rcv_nxt t) then Inr (recycle A I f) else challenge I f
     else Inr f)"

subsection \<open>Options\<close>

text \<open>The end of a segment in the retransmission ring; the fields are read at the offsets of an IPv4
  frame, whatever the connection.\<close>

definition segment_end :: "memory \<Rightarrow> u32" where
  "segment_end m = tcp_seq_of m + get_payload_length False m + (if has (tcp_flags_of m) (FLAG_SYN OR FLAG_FIN) then 1 else 0)"

definition peek_frame :: "'p buffers \<Rightarrow> nat \<Rightarrow> outbound_tcp_segment ring_state \<Rightarrow> memory" where
  "peek_frame B k r = bf_data B (seg_mbuf (ring_buf r ! rc_get_peek_slot (of_nat k) r))"

definition sack_block_ok :: "u32 \<Rightarrow> u32 \<Rightarrow> tcb \<Rightarrow> bool" where
  "sack_block_ok left_edge right_edge t =
     (let inflight = snd_nxt t - snd_una t
      in \<not> (sint inflight < sint (left_edge - snd_una t) \<or> sint inflight < sint (right_edge - snd_una t) \<or> sint (right_edge - left_edge) \<le> 0))"

definition mark_sacked :: "'p buffers \<Rightarrow> u32 \<Rightarrow> u32 \<Rightarrow> outbound_tcp_segment ring_state \<Rightarrow> outbound_tcp_segment ring_state" where
  "mark_sacked B left_edge right_edge r =
     (let (n, r1) = rc_available_to_peek r
      in fold (\<lambda>k r. let i = rc_get_peek_slot (of_nat k) r; m = peek_frame B k r
                     in if 0 \<le> sint (tcp_seq_of m - left_edge) \<and> 0 \<le> sint (right_edge - segment_end m)
                        then ring_poke i ((ring_buf r ! i)\<lparr>seg_is_sacked := True\<rparr>) r else r) [0..<unat n] r1)"

definition apply_sack :: "memory \<Rightarrow> nat \<Rightarrow> nat \<Rightarrow> 'p buffers \<Rightarrow> tcb \<Rightarrow> tcb" where
  "apply_sack h p len B t =
     (case tx_unacked_ring t of
        None \<Rightarrow> t
      | Some unacked \<Rightarrow> t\<lparr>tx_unacked_ring := Some (fold (\<lambda>i r.
            let left_edge = network_to_host32 (mem32 h (p + 2 + i * 8)); right_edge = network_to_host32 (mem32 h (p + 6 + i * 8))
            in if sack_block_ok left_edge right_edge t then mark_sacked B left_edge right_edge r else r) [0..<(len - 2) div 8] unacked)\<rparr>)"

definition syn_option :: "memory \<Rightarrow> nat \<Rightarrow> u8 \<Rightarrow> nat \<Rightarrow> tcb \<Rightarrow> tcb" where
  "syn_option h p kind len t =
     (if kind = 2 \<and> len = 4
      then let mss = push_bit 8 (ucast (h (p + 2))) OR ucast (h (p + 3)) in t\<lparr>remote_mss := (if mss < 536 then 536 else mss)\<rparr>
      else if kind = 3 \<and> len = 3 then t\<lparr>snd_wscale := (if 14 < h (p + 2) then 14 else h (p + 2)), rcv_wscale := 7\<rparr>
      else if kind = 4 \<and> len = 2 then t\<lparr>sack_permitted := 1\<rparr>
      else t)"

text \<open>The timestamp option, reached only when the segment is no SYN.\<close>

definition timestamp_option :: "inbound \<Rightarrow> nat \<Rightarrow> 'p flow \<Rightarrow> 'p stage" where
  "timestamp_option I p f =
     (let tsval = network_to_host32 (mem32 (in_hdr I) (p + 2));
          t = (if has (in_flags I) FLAG_SYN then (fl_tcb f)\<lparr>ts_permitted := 1\<rparr> else fl_tcb f);
          f1 = f\<lparr>fl_tcb := t\<rparr>
      in if ts_permitted t \<noteq> 0
         then let ts_diff = ts_recent t - tsval;
                  valid_ack = (in_ack I - snd_una t \<le> snd_nxt t - snd_una t \<and> in_ack I \<noteq> snd_una t)
              in if (0 < sint ts_diff \<or> ts_diff = 0x80000000) \<and> in_seq I \<le> rcv_nxt t \<and> \<not> (in_seq I + in_len I \<le> rcv_nxt t \<and> valid_ack)
                 then challenge I f1
                 else Inr (if in_seq I \<le> rcv_nxt t then f1\<lparr>fl_tcb := t\<lparr>ts_recent := tsval\<rparr>\<rparr> else f1)
         else Inr f1)"

function parse_options :: "inbound \<Rightarrow> nat \<Rightarrow> nat \<Rightarrow> 'p flow \<Rightarrow> 'p stage" where
  "parse_options I p bytes_left f =
     (let h = in_hdr I; kind = h p in
      if bytes_left = 0 \<or> kind = 0 then Inr f
      else if kind = 1 then parse_options I (p + 1) (bytes_left - 1) f
      else if bytes_left < 2 then Inr f
      else let len = unat (h (p + 1)) in
        if len < 2 \<or> bytes_left < len then Inr f
        else if has (in_flags I) FLAG_SYN then parse_options I (p + len) (bytes_left - len) (upd_tcb (syn_option h p kind len) f)
        else if kind = 5 \<and> sack_permitted (fl_tcb f) \<noteq> 0
        then if (len - 2) mod 8 \<noteq> 0 then Inr f
             else parse_options I (p + len) (bytes_left - len) (upd_tcb (apply_sack h p len (fl_buf f)) f)
        else if kind = 8 \<and> len = 10
        then (case timestamp_option I p f of Inl r \<Rightarrow> Inl r | Inr f1 \<Rightarrow> parse_options I (p + len) (bytes_left - len) f1)
        else parse_options I (p + len) (bytes_left - len) f)"
  by pat_completeness auto
termination by (relation "measure (\<lambda>(I, p, n, f). n)") auto

declare parse_options.simps [simp del]

definition read_options :: "inbound \<Rightarrow> 'p flow \<Rightarrow> 'p stage" where
  "read_options I f =
     (if 5 < in_data_offset I then parse_options I (if in_v6 I then 74 else 54) ((unat (in_data_offset I) - 5) * 4) f else Inr f)"

subsection \<open>Acknowledgements\<close>

text \<open>The two ways into \<^verbatim>\<open>ESTABLISHED\<close>.\<close>

definition open_client :: "inbound \<Rightarrow> tcb \<Rightarrow> tcb" where
  "open_client I t =
     (let t1 = t\<lparr>expected_ttl := in_ttl I, ecn_permitted := (if has (in_flags I) FLAG_ECE then 1 else ecn_permitted t)\<rparr>
      in pend FLAG_ACK (t1\<lparr>phase_mask := PHASE_ESTABLISHED, rcv_nxt := in_seq I + 1, snd_una := in_ack I, cwnd := 1460 * 10,
                           ssthresh := 65535, snd_wnd := ucast (in_wnd I)\<rparr>))"

definition reset_matrix :: "tcb \<Rightarrow> tcb" where
  "reset_matrix t = t\<lparr>tcb_ooo_matrix := map_option (ooo_reset (rcv_nxt t)) (tcb_ooo_matrix t)\<rparr>"

definition open_server :: "inbound \<Rightarrow> tcb \<Rightarrow> tcb" where
  "open_server I t =
     reset_matrix (t\<lparr>phase_mask := PHASE_ESTABLISHED, cwnd := 1460 * 10, ssthresh := 65535, snd_una := in_ack I, snd_nxt := in_ack I,
                     expected_ttl := in_ttl I\<rparr>)"

definition ack_handshake :: "inbound \<Rightarrow> 'p flow \<Rightarrow> 'p stage" where
  "ack_handshake I f = (let t = fl_tcb f in
     if phase_mask t = PHASE_SYN_SENT
     then if has (in_flags I) FLAG_SYN then swallow (upd_tcb (open_client I) f) else Inr f
     else if phase_mask t = PHASE_SYN_RCVD
     then let acked = in_ack I - snd_una t
          in if sint acked \<le> 0 \<or> snd_nxt t - snd_una t < acked then challenge I f else Inr (upd_tcb (open_server I) f)
     else Inr f)"

definition current_wnd :: "inbound \<Rightarrow> tcb \<Rightarrow> u32" where
  "current_wnd I t = push_bit (if has (in_flags I) FLAG_SYN then 0 else unat (snd_wscale t)) (ucast (in_wnd I))"

definition is_dup :: "inbound \<Rightarrow> tcb \<Rightarrow> bool" where
  "is_dup I t = (in_ack I = snd_una t \<and> in_len I = 0 \<and> current_wnd I t = snd_wnd t \<and> \<not> has (in_flags I) (FLAG_SYN OR FLAG_FIN))"

definition count_dup :: "inbound \<Rightarrow> tcb \<Rightarrow> tcb" where
  "count_dup I t = t\<lparr>dup_acks := (if is_dup I t then dup_acks t + 1 else 0)\<rparr>"

text \<open>Fast retransmit: the oldest segment goes out again.\<close>

definition resend :: "'p dpdk \<Rightarrow> nat \<Rightarrow> outbound_tcp_segment ring_state \<Rightarrow> outbound_tcp_segment ring_state \<Rightarrow> 'p flow \<Rightarrow> 'p stage" where
  "resend D k unacked egress f =
     (let t = (fl_tcb f)\<lparr>tx_unacked_ring := Some unacked, highest_rtx_seq := segment_end (peek_frame (fl_buf f) k unacked)\<rparr>;
          (closed, t1, B1) = requeue D (ring_buf unacked ! rc_get_peek_slot (of_nat k) unacked) egress (t, fl_buf f);
          f1 = f\<lparr>fl_tcb := t1, fl_buf := B1\<rparr>
      in if closed then Inl (True, f1) else Inr f1)"

definition fast_retransmit :: "'p dpdk \<Rightarrow> 'p flow \<Rightarrow> 'p stage" where
  "fast_retransmit D f =
     (let f1 = upd_tcb (\<lambda>t. let s = safe_half (safe_cwnd t) in t\<lparr>ssthresh := s, cwnd := s + 4380, recover := snd_nxt t, highest_rtx_seq := 0\<rparr>) f
      in case (tx_unacked_ring (fl_tcb f1), tx_egress_conduit (fl_tcb f1)) of
           (Some unacked, Some egress) \<Rightarrow>
             let (n, u) = rc_available_to_peek unacked
             in if 0 < n then resend D 0 u egress f1 else Inr (upd_tcb (\<lambda>t. t\<lparr>tx_unacked_ring := Some u\<rparr>) f1)
         | _ \<Rightarrow> Inr f1)"


text \<open>The segments that an acknowledgement covers whole leave the ring and give their buffers back.\<close>

function consume_acked :: "'p dpdk \<Rightarrow> u32 \<Rightarrow> outbound_tcp_segment ring_state \<Rightarrow> 'p buffers \<Rightarrow> outbound_tcp_segment ring_state \<times> 'p buffers" where
  "consume_acked D una unacked B =
     (let (n, u1) = rc_available_to_peek unacked
      in if 0 < n
         then let i = rc_get_peek_slot 0 u1
              in if una - segment_end (bf_data B (seg_mbuf (ring_buf u1 ! i))) \<le> 0x7FFFFFFF
                 then let (s, B1) = release D (ring_buf u1 ! i) B in consume_acked D una (rc_consume_n 1 (ring_poke i s u1)) B1
                 else (u1, B)
         else (u1, B))"
  by pat_completeness auto
termination by (relation "measure (\<lambda>(D, w, u, B). ring_rank u)") (auto intro: ring_rank_consume [OF sym])

declare consume_acked.simps [simp del]

definition slide_unacked :: "'p dpdk \<Rightarrow> 'p flow \<Rightarrow> 'p flow" where
  "slide_unacked D f =
     (case tx_unacked_ring (fl_tcb f) of
        None \<Rightarrow> f
      | Some unacked \<Rightarrow> let (u, B) = consume_acked D (snd_una (fl_tcb f)) unacked (fl_buf f)
                         in f\<lparr>fl_tcb := (fl_tcb f)\<lparr>tx_unacked_ring := Some u\<rparr>, fl_buf := B\<rparr>)"

definition teardown :: "tcb \<Rightarrow> tcb" where
  "teardown t =
     (if phase_mask t = PHASE_FIN_WAIT1 \<and> snd_una t = snd_nxt t then t\<lparr>phase_mask := PHASE_FIN_WAIT2, time_wait_deadline_tsc := 0\<rparr>
      else if phase_mask t = PHASE_CLOSING \<and> snd_una t = snd_nxt t then t\<lparr>phase_mask := PHASE_TIME_WAIT, time_wait_deadline_tsc := 0\<rparr>
      else if phase_mask t = PHASE_LAST_ACK \<and> snd_una t = snd_nxt t then t\<lparr>phase_mask := PHASE_CLOSED\<rparr>
      else t)"

text \<open>A partial acknowledgement during recovery: the first segment that is not marked goes out again.\<close>

definition partial_ack :: "'p dpdk \<Rightarrow> inbound \<Rightarrow> 'p flow \<Rightarrow> 'p stage" where
  "partial_ack D I f = (let t = fl_tcb f in
     if highest_rtx_seq t \<noteq> 0 \<and> sint (in_ack I - highest_rtx_seq t) < 0 then Inr f
     else case (tx_unacked_ring t, tx_egress_conduit t) of
            (Some unacked, Some egress) \<Rightarrow>
              let (n, u) = rc_available_to_peek unacked
              in (case find (\<lambda>k. \<not> seg_is_sacked (ring_buf u ! rc_get_peek_slot (of_nat k) u)) [0..<unat n] of
                    Some k \<Rightarrow> resend D k u egress f
                  | None \<Rightarrow> Inr (upd_tcb (\<lambda>t. t\<lparr>tx_unacked_ring := Some u\<rparr>) f))
          | _ \<Rightarrow> Inr f)"

definition grow_cwnd :: "tcb \<Rightarrow> tcb" where
  "grow_cwnd t =
     (let c = safe_cwnd t; ca_inc = 1460 * 1460 div c; ca_inc1 = (if ca_inc = 0 then 1 else ca_inc)
      in t\<lparr>cwnd := c + (if c < ssthresh t then 1460 else ca_inc1)\<rparr>)"

definition leave_recovery :: "bool \<Rightarrow> inbound \<Rightarrow> tcb \<Rightarrow> bool \<times> tcb" where
  "leave_recovery was_fast_recovery I t =
     (if was_fast_recovery
      then if 0 < sint (recover t - in_ack I) then (True, t) else (False, t\<lparr>cwnd := ssthresh t, dup_acks := 0\<rparr>)
      else (False, t))"

definition advance_una :: "inbound \<Rightarrow> tcb \<Rightarrow> tcb" where
  "advance_una I t =
     (let t1 = t\<lparr>snd_una := in_ack I, rto_retries := 0\<rparr>
      in t1\<lparr>temporal_flags := (if in_ack I = snd_nxt t1 then temporal_flags t1 AND NOT TEMP_FLAG_RETRANSMIT else temporal_flags t1),
            rto_deadline_tsc := 0\<rparr>)"

definition new_ack :: "'p dpdk \<Rightarrow> bool \<Rightarrow> u32 \<Rightarrow> inbound \<Rightarrow> 'p flow \<Rightarrow> 'p stage" where
  "new_ack D was_fast_recovery wnd I f =
     (let (is_partial, t1) = leave_recovery was_fast_recovery I (fl_tcb f);
          f1 = upd_tcb teardown (slide_unacked D (f\<lparr>fl_tcb := advance_una I t1\<rparr>))
      in and_then (if is_partial then partial_ack D I f1 else Inr (upd_tcb grow_cwnd f1))
           (\<lambda>f2. Inr (upd_tcb (\<lambda>t. t\<lparr>snd_wnd := wnd\<rparr>) f2)))"

definition ack_window :: "'p dpdk \<Rightarrow> inbound \<Rightarrow> 'p flow \<Rightarrow> 'p stage" where
  "ack_window D I f =
     (let t0 = fl_tcb f; wnd = current_wnd I t0; was_fast_recovery = (3 \<le> dup_acks t0); dup = is_dup I t0;
          t = count_dup I t0; f1 = f\<lparr>fl_tcb := t\<rparr>
      in if dup_acks t = 3 then fast_retransmit D f1
         else if 3 < dup_acks t then Inr (if cwnd t \<le> 0xFFFFFFFF - 1460 then upd_tcb (\<lambda>t. t\<lparr>cwnd := cwnd t + 1460\<rparr>) f1 else f1)
         else let inflight = snd_nxt t - snd_una t; acked = in_ack I - snd_una t
              in if 0 < sint acked \<and> acked \<le> inflight then new_ack D was_fast_recovery wnd I f1
                 else if 0 < sint acked \<and> inflight < acked then challenge I f1
                 else if \<not> dup \<and> in_seq I = rcv_nxt t then Inr (upd_tcb (\<lambda>t. t\<lparr>snd_wnd := wnd\<rparr>) f1)
                 else Inr f1)"

definition process_ack :: "'p dpdk \<Rightarrow> inbound \<Rightarrow> 'p flow \<Rightarrow> 'p stage" where
  "process_ack D I f = (if has (in_flags I) FLAG_ACK then and_then (ack_handshake I f) (ack_window D I) else Inr f)"

subsection \<open>RST and SYN\<close>

definition process_rst :: "inbound \<Rightarrow> 'p flow \<Rightarrow> 'p stage" where
  "process_rst I f = (let t = fl_tcb f in
     if has (in_flags I) FLAG_RST
     then if phase_mask t = PHASE_TIME_WAIT then swallow f
          else if in_seq I = rcv_nxt t \<or> phase_mask t = PHASE_SYN_SENT then swallow (upd_tcb (\<lambda>t. t\<lparr>phase_mask := PHASE_CLOSED\<rparr>) f)
          else challenge I f
     else Inr f)"

definition process_syn :: "inbound \<Rightarrow> 'p flow \<Rightarrow> 'p stage" where
  "process_syn I f =
     (if has (in_flags I) FLAG_SYN
      then let t = (fl_tcb f)\<lparr>rcv_nxt := in_seq I + 1\<rparr>; t1 = pend (FLAG_SYN OR FLAG_ACK) (t\<lparr>phase_mask := PHASE_SYN_RCVD\<rparr>)
           in if phase_mask t = PHASE_SYN_SENT then swallow (f\<lparr>fl_tcb := t1\<rparr>) else swallow (f\<lparr>fl_tcb := reset_matrix t1\<rparr>)
      else Inr f)"

definition require_ack :: "inbound \<Rightarrow> 'p flow \<Rightarrow> 'p stage" where
  "require_ack I f =
     (if \<not> has (in_flags I) FLAG_ACK \<and> has (phase_mask (fl_tcb f)) (PHASE_SYN_RCVD OR synchronised_phases)
      then Inl (False, f\<lparr>fl_len := 0\<rparr>) else Inr f)"

subsection \<open>Payload\<close>

definition receiving_phases :: u16 where
  "receiving_phases = PHASE_ESTABLISHED OR PHASE_FIN_WAIT1 OR PHASE_FIN_WAIT2 OR PHASE_SYN_RCVD"

definition payload_seq :: "inbound \<Rightarrow> u32" where
  "payload_seq I = in_seq I + (if has (in_flags I) FLAG_SYN then 1 else 0)"

definition trim_sack :: "nat \<Rightarrow> tcb \<Rightarrow> tcb" where
  "trim_sack i t =
     (if sack_valid t ! i
      then if 0 \<le> sint (rcv_nxt t - sack_right_edges t ! i) then t\<lparr>sack_valid := (sack_valid t)[i := False]\<rparr>
           else if 0 \<le> sint (rcv_nxt t - sack_left_edges t ! i) then t\<lparr>sack_left_edges := (sack_left_edges t)[i := rcv_nxt t]\<rparr>
           else t
      else t)"

definition schedule_ack :: "inbound \<Rightarrow> tcb \<Rightarrow> tcb" where
  "schedule_ack I t =
     (if has (in_flags I) (FLAG_PSH OR FLAG_FIN) then pend FLAG_ACK (t\<lparr>quick_ack_cnt := 0\<rparr>)
      else let t1 = t\<lparr>quick_ack_cnt := quick_ack_cnt t + 1\<rparr>
           in if 2 \<le> quick_ack_cnt t1 then pend FLAG_ACK (t1\<lparr>quick_ack_cnt := 0\<rparr>)
              else t1\<lparr>temporal_flags := temporal_flags t1 OR TEMP_FLAG_ACK_PENDING\<rparr>)"

definition merge_sack :: "u32 \<Rightarrow> u32 \<Rightarrow> nat \<Rightarrow> tcb \<Rightarrow> tcb" where
  "merge_sack left right i t =
     (let t1 = (if sint (left - sack_left_edges t ! i) < 0 then t\<lparr>sack_left_edges := (sack_left_edges t)[i := left]\<rparr> else t)
      in if 0 < sint (right - sack_right_edges t ! i) then t1\<lparr>sack_right_edges := (sack_right_edges t)[i := right]\<rparr> else t1)"

definition note_sack :: "u32 \<Rightarrow> u32 \<Rightarrow> tcb \<Rightarrow> tcb" where
  "note_sack left right t =
     (case find (\<lambda>i. sack_valid t ! i \<and> sint (left - sack_right_edges t ! i) \<le> 0 \<and> 0 \<le> sint (right - sack_left_edges t ! i)) [0..<3] of
        Some i \<Rightarrow> merge_sack left right i t
      | None \<Rightarrow> t\<lparr>sack_left_edges := [left, sack_left_edges t ! 0, sack_left_edges t ! 1],
                  sack_right_edges := [right, sack_right_edges t ! 0, sack_right_edges t ! 1],
                  sack_valid := [True, sack_valid t ! 0, sack_valid t ! 1]\<rparr>)"

definition receive_in_order :: "inbound \<Rightarrow> 'p flow \<Rightarrow> 'p flow" where
  "receive_in_order I f =
     upd_tcb (schedule_ack I) (upd_tcb (fold trim_sack [0..<3]) (upd_tcb (\<lambda>t. t\<lparr>rcv_nxt := rcv_nxt t + fl_len f\<rparr>) f))"

definition receive_out_of_order :: "inbound \<Rightarrow> 'p flow \<Rightarrow> 'p flow" where
  "receive_out_of_order I f =
     (let t = fl_tcb f; q = payload_seq I;
          f1 = (case tcb_ooo_matrix t of
                  Some M \<Rightarrow>
                    if in_mbuf I \<noteq> 0 \<and> in_absorb I
                    then let (ok, M1) = insert_mbuf (rcv_nxt t) q (in_mbuf I) (in_payload_offset I) (fl_len f) (in_flags I) M
                         in f\<lparr>fl_absorbed := ok, fl_tcb := note_sack q (q + fl_len f) (t\<lparr>tcb_ooo_matrix := Some M1\<rparr>)\<rparr>
                    else f
                | None \<Rightarrow> f)
      in (upd_tcb (pend FLAG_ACK) f1)\<lparr>fl_len := 0\<rparr>)"

definition receive_overlap :: "inbound \<Rightarrow> 'p flow \<Rightarrow> 'p stage" where
  "receive_overlap I f =
     (let overlap = rcv_nxt (fl_tcb f) - payload_seq I
      in if sint overlap < 0 then Inl (False, f)
         else if overlap < fl_len f
         then let n = fl_len f - overlap
              in Inr (upd_tcb (schedule_ack I) (upd_tcb (\<lambda>t. t\<lparr>rcv_nxt := rcv_nxt t + n\<rparr>) (f\<lparr>fl_trim := overlap, fl_len := n\<rparr>)))
         else Inr ((upd_tcb (pend FLAG_ACK) f)\<lparr>fl_len := 0\<rparr>))"

definition process_payload :: "inbound \<Rightarrow> 'p flow \<Rightarrow> 'p stage" where
  "process_payload I f = (let t = fl_tcb f in
     if has (phase_mask t) receiving_phases \<and> (0 < fl_len f \<or> has (in_flags I) FLAG_FIN)
     then if payload_seq I = rcv_nxt t then Inr (receive_in_order I f)
          else if payload_seq I - rcv_nxt t \<le> 0x7FFFFFFF then Inr (receive_out_of_order I f)
          else receive_overlap I f
     else Inr f)"

subsection \<open>FIN, and the whole\<close>

definition process_fin :: "inbound \<Rightarrow> tcb \<Rightarrow> tcb" where
  "process_fin I t =
     (if has (in_flags I) FLAG_FIN
      then if payload_seq I + in_len I = rcv_nxt t
           then let t1 = pend FLAG_ACK (t\<lparr>rcv_nxt := rcv_nxt t + 1\<rparr>)
                in if phase_mask t1 = PHASE_ESTABLISHED \<or> phase_mask t1 = PHASE_SYN_RCVD then t1\<lparr>phase_mask := PHASE_CLOSE_WAIT\<rparr>
                   else if phase_mask t1 = PHASE_FIN_WAIT1 then t1\<lparr>phase_mask := PHASE_CLOSING\<rparr>
                   else if phase_mask t1 = PHASE_FIN_WAIT2 then t1\<lparr>phase_mask := PHASE_TIME_WAIT, time_wait_deadline_tsc := 0\<rparr>
                   else t1
           else if phase_mask t = PHASE_TIME_WAIT then pend FLAG_ACK (t\<lparr>time_wait_deadline_tsc := 0\<rparr>)
           else t
      else t)"

definition refuse_late_data :: "inbound \<Rightarrow> 'p flow \<Rightarrow> bool \<times> 'p flow" where
  "refuse_late_data I f =
     (if phase_mask (fl_tcb f) = PHASE_TIME_WAIT \<and> 0 < in_len I
      then (True, (upd_tcb (trigger_challenge_ack (in_tsc I)) f)\<lparr>fl_len := 0\<rparr>) else (True, f))"

definition prologue :: "aes \<Rightarrow> 'p dpdk \<Rightarrow> inbound \<Rightarrow> 'p flow \<Rightarrow> 'p stage" where
  "prologue A D I f0 =
     and_then (check_sequence I f0) (\<lambda>f1.
     and_then (check_ttl I f1) (\<lambda>f2.
     and_then (check_syn A I (upd_tcb (react_ecn I) f2)) (\<lambda>f3.
     and_then (read_options I f3) (\<lambda>f4.
     and_then (process_ack D I f4) (\<lambda>f5.
     and_then (process_rst I f5) (\<lambda>f6.
     and_then (process_syn I f6) (require_ack I)))))))"

definition process_inbound :: "aes \<Rightarrow> 'p dpdk \<Rightarrow> inbound \<Rightarrow> 'p flow \<Rightarrow> bool \<times> 'p flow" where
  "process_inbound A D I f =
     (case and_then (prologue A D I (f\<lparr>fl_len := in_len I\<rparr>)) (process_payload I) of
        Inl r \<Rightarrow> r
      | Inr f1 \<Rightarrow> refuse_late_data I (upd_tcb (process_fin I) f1))"

end
