(* ===== verification/Tcp_Flow.thy ===== *)
theory Tcp_Flow
  imports Tcp_Inbound
begin

section \<open>What the engine does with a segment\<close>

text \<open>
  The theorems on \<^verbatim>\<open>process_inbound\<close>. A condition on a stage says what holds when it returns
  and what holds when it goes on; the conditions of the stages compose along \<^term>\<open>and_then\<close>.
\<close>

subsection \<open>Conditions on stages\<close>

definition stage_ok :: "(bool \<times> 'p flow \<Rightarrow> bool) \<Rightarrow> ('p flow \<Rightarrow> bool) \<Rightarrow> 'p stage \<Rightarrow> bool" where
  "stage_ok P Q x = (case x of Inl r \<Rightarrow> P r | Inr f \<Rightarrow> Q f)"

lemma stage_ok_simps [simp]: "stage_ok P Q (Inl r) = P r" "stage_ok P Q (Inr f) = Q f"
  by (simp_all add: stage_ok_def)

lemma stage_ok_seq: "stage_ok P Q x \<Longrightarrow> (\<And>f. Q f \<Longrightarrow> stage_ok P R (g f)) \<Longrightarrow> stage_ok P R (and_then x g)"
  by (cases x) (simp_all add: and_then_def)

lemma stage_ok_mono: "stage_ok P Q x \<Longrightarrow> (\<And>r. P r \<Longrightarrow> P' r) \<Longrightarrow> (\<And>f. Q f \<Longrightarrow> Q' f) \<Longrightarrow> stage_ok P' Q' x"
  by (cases x) simp_all

lemma upd_tcb_simps [simp]:
  "fl_tcb (upd_tcb g f) = g (fl_tcb f)" "fl_buf (upd_tcb g f) = fl_buf f" "fl_cookie (upd_tcb g f) = fl_cookie f"
  "fl_len (upd_tcb g f) = fl_len f" "fl_trim (upd_tcb g f) = fl_trim f" "fl_absorbed (upd_tcb g f) = fl_absorbed f"
  by (simp_all add: upd_tcb_def)

subsection \<open>What the stages before the payload keep\<close>

text \<open>The receiving side of a connection: its phase may move on only as an acknowledgement allows.\<close>

definition rx_frame :: "tcb \<Rightarrow> tcb \<Rightarrow> bool" where
  "rx_frame t t' = (rcv_nxt t' = rcv_nxt t \<and> phase_mask t' = phase_mask t)"

lemma rx_frame_refl [simp]: "rx_frame t t"
  by (simp add: rx_frame_def)

lemma rx_frame_trans: "rx_frame t u \<Longrightarrow> rx_frame u v \<Longrightarrow> rx_frame t v"
  by (simp add: rx_frame_def)

lemma pend_frame [simp]: "rx_frame t (pend x t)"
  by (simp add: pend_def rx_frame_def)

lemma challenge_frame [simp]: "rx_frame t (trigger_challenge_ack now t)"
  by (simp add: trigger_challenge_ack_def pend_def rx_frame_def Let_def)

lemma ecn_frame [simp]: "rx_frame t (react_ecn I t)"
  by (simp add: react_ecn_def ecn_mark_def ecn_echo_def pend_def rx_frame_def Let_def)

lemma syn_option_frame [simp]: "rx_frame t (syn_option h p k n t)"
  by (simp add: syn_option_def rx_frame_def Let_def)

lemma apply_sack_frame [simp]: "rx_frame t (apply_sack h p n B t)"
  by (simp add: apply_sack_def rx_frame_def split: option.split)

text \<open>A stage that leaves the receiving side alone: it goes on with the segment as it was, or returns
  with nothing to read.\<close>

definition rx_stage :: "'p flow \<Rightarrow> 'p stage \<Rightarrow> bool" where
  "rx_stage f = stage_ok (\<lambda>(b, f'). rx_frame (fl_tcb f) (fl_tcb f') \<and> (b \<longrightarrow> fl_len f' = 0))
     (\<lambda>f'. rx_frame (fl_tcb f) (fl_tcb f') \<and> fl_len f' = fl_len f \<and> fl_trim f' = fl_trim f)"

lemma rx_stage_simps [simp]:
  "rx_stage f (Inr f') \<longleftrightarrow> rx_frame (fl_tcb f) (fl_tcb f') \<and> fl_len f' = fl_len f \<and> fl_trim f' = fl_trim f"
  "rx_stage f (Inl (False, f')) \<longleftrightarrow> rx_frame (fl_tcb f) (fl_tcb f')"
  "rx_stage f (challenge I f)"
  by (simp_all add: rx_stage_def challenge_def swallow_def)

lemma rx_stage_swallow [simp]: "rx_stage f (swallow f') \<longleftrightarrow> rx_frame (fl_tcb f) (fl_tcb f')"
  by (simp add: rx_stage_def swallow_def)

lemma rx_stage_base: "rx_stage f1 x \<Longrightarrow> rx_frame (fl_tcb f) (fl_tcb f1) \<Longrightarrow> fl_len f1 = fl_len f \<Longrightarrow> fl_trim f1 = fl_trim f \<Longrightarrow> rx_stage f x"
  unfolding rx_stage_def by (erule stage_ok_mono) (auto intro: rx_frame_trans)

lemma rx_stage_challenge: "rx_frame (fl_tcb f) (fl_tcb f1) \<Longrightarrow> rx_stage f (challenge I f1)"
  by (simp add: rx_stage_def challenge_def swallow_def) (meson challenge_frame rx_frame_trans)

lemma check_sequence_rx: "rx_stage f (check_sequence I f)"
  by (simp add: check_sequence_def Let_def)

lemma check_ttl_rx: "rx_stage f (check_ttl I f)"
  by (simp add: check_ttl_def Let_def rx_frame_def)

lemma timestamp_rx: "rx_stage f (timestamp_option I p f)"
  by (auto simp: timestamp_option_def Let_def rx_frame_def intro!: rx_stage_challenge)

lemma parse_options_ok:
  assumes syn: "\<And>h p k n f. Q f \<Longrightarrow> Q (upd_tcb (syn_option h p k n) f)"
    and sack: "\<And>h p n f. Q f \<Longrightarrow> Q (upd_tcb (apply_sack h p n (fl_buf f)) f)"
    and ts: "\<And>p f. \<not> has (in_flags I) FLAG_SYN \<Longrightarrow> Q f \<Longrightarrow> stage_ok P Q (timestamp_option I p f)" and "Q f"
  shows "stage_ok P Q (parse_options I p n f)"
  using \<open>Q f\<close>
proof (induction n arbitrary: p f rule: less_induct)
  case (less n)
  have ts': "\<not> has (in_flags I) FLAG_SYN \<Longrightarrow> timestamp_option I p f = Inl r \<Longrightarrow> P r"
    "\<not> has (in_flags I) FLAG_SYN \<Longrightarrow> timestamp_option I p f = Inr f1 \<Longrightarrow> Q f1" for r f1
    using ts [OF _ less.prems, of p] by auto
  show ?case unfolding parse_options.simps [of I p n f] Let_def
    using less.prems by (auto split: sum.split intro!: less.IH syn sack dest: ts')
qed

lemma read_options_ok:
  assumes "\<And>h p k n f. Q f \<Longrightarrow> Q (upd_tcb (syn_option h p k n) f)" "\<And>h p n f. Q f \<Longrightarrow> Q (upd_tcb (apply_sack h p n (fl_buf f)) f)"
    "\<And>p f. \<not> has (in_flags I) FLAG_SYN \<Longrightarrow> Q f \<Longrightarrow> stage_ok P Q (timestamp_option I p f)" "Q f"
  shows "stage_ok P Q (read_options I f)"
  using parse_options_ok [OF assms] assms(4) by (simp add: read_options_def)

lemma read_options_rx:
  fixes f :: "'p flow"
  shows "rx_stage f (read_options I f)"
  unfolding rx_stage_def
proof (rule read_options_ok)
  fix p and f' :: "'p flow" assume "rx_frame (fl_tcb f) (fl_tcb f') \<and> fl_len f' = fl_len f \<and> fl_trim f' = fl_trim f"
  then show "stage_ok (\<lambda>(b, f'). rx_frame (fl_tcb f) (fl_tcb f') \<and> (b \<longrightarrow> fl_len f' = 0))
    (\<lambda>f'. rx_frame (fl_tcb f) (fl_tcb f') \<and> fl_len f' = fl_len f \<and> fl_trim f' = fl_trim f) (timestamp_option I p f')"
    using rx_stage_base [OF timestamp_rx, of f f' I p] by (simp add: rx_stage_def)
qed (auto intro: rx_frame_trans)

text \<open>The timestamp option is looked at only in a segment that is no SYN, so the statement that notes the
  peer's wish to use timestamps is never reached.\<close>

lemma options_never_permit:
  assumes "ts_permitted (fl_tcb f) = v"
  shows "stage_ok (\<lambda>r. ts_permitted (fl_tcb (snd r)) = v) (\<lambda>f'. ts_permitted (fl_tcb f') = v) (read_options I f)"
proof (rule read_options_ok)
  fix p and f' :: "'a flow" assume "\<not> has (in_flags I) FLAG_SYN" "ts_permitted (fl_tcb f') = v"
  then show "stage_ok (\<lambda>r. ts_permitted (fl_tcb (snd r)) = v) (\<lambda>f'. ts_permitted (fl_tcb f') = v) (timestamp_option I p f')"
    by (simp add: timestamp_option_def challenge_def swallow_def trigger_challenge_ack_def pend_def Let_def)
qed (use assms in \<open>auto simp: syn_option_def apply_sack_def Let_def split: option.split\<close>)

text \<open>The counter of duplicate acknowledgements has eight bits: the 256th starts a new count, and three
  more a new fast retransmit.\<close>

lemma dup_counter_wraps: "is_dup I t \<Longrightarrow> dup_acks t = 255 \<Longrightarrow> dup_acks (count_dup I t) = 0"
  by (simp add: count_dup_def)

subsection \<open>What an acknowledgement may do\<close>

definition ack_move :: "tcb \<Rightarrow> tcb \<Rightarrow> bool" where
  "ack_move t t' = (rcv_nxt t' = rcv_nxt t \<and> (phase_mask t' = phase_mask t
     \<or> (phase_mask t, phase_mask t') \<in> {(PHASE_FIN_WAIT1, PHASE_FIN_WAIT2), (PHASE_CLOSING, PHASE_TIME_WAIT), (PHASE_LAST_ACK, PHASE_CLOSED)}))"

text \<open>A connection is given up when a buffer has too many references to be sent again.\<close>

definition given_up :: "'p dpdk \<Rightarrow> tcb \<Rightarrow> bool" where
  "given_up D t = (aborted t \<and> (\<exists>b p. 0xFF00 \<le> refcnt_read D b p))"

text \<open>An acknowledgement outside the handshake: the connection is given up because a buffer has too many
  references, or the receiving side stays and the phase moves at most one step towards the end.\<close>

definition ack_stage :: "'p dpdk \<Rightarrow> 'p flow \<Rightarrow> 'p stage \<Rightarrow> bool" where
  "ack_stage D f = stage_ok (\<lambda>(b, f'). given_up D (fl_tcb f') \<or> rx_frame (fl_tcb f) (fl_tcb f') \<and> (b \<longrightarrow> fl_len f' = 0))
     (\<lambda>f'. ack_move (fl_tcb f) (fl_tcb f') \<and> fl_len f' = fl_len f \<and> fl_trim f' = fl_trim f)"

lemma ack_stage_simps [simp]:
  "ack_stage D f (Inr f') \<longleftrightarrow> ack_move (fl_tcb f) (fl_tcb f') \<and> fl_len f' = fl_len f \<and> fl_trim f' = fl_trim f"
  "ack_stage D f (Inl (b, f')) \<longleftrightarrow> given_up D (fl_tcb f') \<or> rx_frame (fl_tcb f) (fl_tcb f') \<and> (b \<longrightarrow> fl_len f' = 0)"
  by (simp_all add: ack_stage_def)

lemma rx_ack: "rx_frame t t' \<Longrightarrow> ack_move t t'"
  by (simp add: rx_frame_def ack_move_def)

lemma ack_move_rx: "ack_move t u \<Longrightarrow> rx_frame u v \<Longrightarrow> ack_move t v" "rx_frame t u \<Longrightarrow> ack_move u v \<Longrightarrow> ack_move t v"
  by (auto simp: rx_frame_def ack_move_def)

lemma ack_stage_challenge: "rx_frame (fl_tcb f) (fl_tcb f1) \<Longrightarrow> ack_stage D f (challenge I f1)"
  by (simp add: challenge_def swallow_def) (meson challenge_frame rx_frame_trans)

lemma requeue_rx: "requeue D s e (t, B) = (c, t', B') \<Longrightarrow> (if c then given_up D t' else rx_frame t t')"
  by (auto simp: requeue_def retain_def Let_def given_up_def aborted_def FLAG_RST_def rx_frame_def split: prod.splits if_splits)

lemma resend_ack:
  assumes "ack_move (fl_tcb f0) (fl_tcb f)" "fl_len f = fl_len f0" "fl_trim f = fl_trim f0"
  shows "ack_stage D f0 (resend D k u e f)"
proof -
  let ?t = "(fl_tcb f)\<lparr>tx_unacked_ring := Some u, highest_rtx_seq := segment_end (peek_frame (fl_buf f) k u)\<rparr>"
  obtain c t1 B1 where r: "requeue D (ring_buf u ! rc_get_peek_slot (of_nat k) u) e (?t, fl_buf f) = (c, t1, B1)"
    by (cases "requeue D (ring_buf u ! rc_get_peek_slot (of_nat k) u) e (?t, fl_buf f)")
  have "ack_move (fl_tcb f0) ?t" using assms(1) by (simp add: ack_move_def)
  with requeue_rx [OF r] assms(2,3) show ?thesis
    by (cases c) (auto simp: resend_def Let_def r intro: ack_move_rx)
qed

lemma fast_retransmit_ack: "rx_frame (fl_tcb f0) (fl_tcb f) \<Longrightarrow> fl_len f = fl_len f0 \<Longrightarrow> fl_trim f = fl_trim f0 \<Longrightarrow> ack_stage D f0 (fast_retransmit D f)"
  unfolding fast_retransmit_def Let_def
  by (auto split: option.split prod.split intro!: resend_ack) (simp_all add: rx_frame_def ack_move_def)

lemma partial_ack_ack: "ack_move (fl_tcb f0) (fl_tcb f) \<Longrightarrow> fl_len f = fl_len f0 \<Longrightarrow> fl_trim f = fl_trim f0 \<Longrightarrow> ack_stage D f0 (partial_ack D I f)"
  unfolding partial_ack_def Let_def
  by (auto split: option.split prod.split intro!: resend_ack) (simp_all add: ack_move_def)

lemma slide_unacked_simps:
  "rx_frame (fl_tcb f) (fl_tcb (slide_unacked D f))" "fl_len (slide_unacked D f) = fl_len f" "fl_trim (slide_unacked D f) = fl_trim f"
  by (simp_all add: slide_unacked_def rx_frame_def split: option.split prod.split)

lemma teardown_move: "rx_frame t u \<Longrightarrow> ack_move t (teardown u)"
  by (auto simp: teardown_def ack_move_def rx_frame_def)

lemma new_ack_ack:
  assumes "rx_frame (fl_tcb f0) (fl_tcb f)" "fl_len f = fl_len f0" "fl_trim f = fl_trim f0"
  shows "ack_stage D f0 (new_ack D w wnd I f)"
proof -
  obtain p t1 where l: "leave_recovery w I (fl_tcb f) = (p, t1)" by (cases "leave_recovery w I (fl_tcb f)")
  let ?f1 = "upd_tcb teardown (slide_unacked D (f\<lparr>fl_tcb := advance_una I t1\<rparr>))"
  have "rx_frame (fl_tcb f) (advance_una I t1)" using l by (auto simp: leave_recovery_def advance_una_def rx_frame_def Let_def split: if_splits)
  then have "rx_frame (fl_tcb f0) (fl_tcb (slide_unacked D (f\<lparr>fl_tcb := advance_una I t1\<rparr>)))"
    using assms(1) slide_unacked_simps(1) [of "f\<lparr>fl_tcb := advance_una I t1\<rparr>" D] by (auto intro: rx_frame_trans)
  then have m: "ack_move (fl_tcb f0) (fl_tcb ?f1)" "fl_len ?f1 = fl_len f0" "fl_trim ?f1 = fl_trim f0"
    using assms(2,3) by (simp_all add: teardown_move slide_unacked_simps)
  then have "ack_stage D f0 (if p then partial_ack D I ?f1 else Inr (upd_tcb grow_cwnd ?f1))"
    using partial_ack_ack [OF m] by (auto simp: grow_cwnd_def ack_move_def Let_def)
  then show ?thesis unfolding new_ack_def l Let_def prod.case ack_stage_def
    by (rule stage_ok_seq) (auto simp: ack_move_def)
qed

lemma ack_window_ack: "ack_stage D f (ack_window D I f)"
proof -
  define f1 where "f1 = f\<lparr>fl_tcb := count_dup I (fl_tcb f)\<rparr>"
  have r: "rx_frame (fl_tcb f) (fl_tcb f1)" "fl_len f1 = fl_len f" "fl_trim f1 = fl_trim f"
    by (simp_all add: f1_def count_dup_def rx_frame_def)
  have i: "ack_stage D f (Inr f1)" using r by (simp add: rx_ack)
  have c: "ack_stage D f (Inr (upd_tcb (\<lambda>t. t\<lparr>cwnd := cwnd t + 1460\<rparr>) f1))" using r by (simp add: ack_move_def rx_frame_def)
  have w: "ack_stage D f (Inr (upd_tcb (\<lambda>t. t\<lparr>snd_wnd := wnd\<rparr>) f1))" for wnd using r by (simp add: ack_move_def rx_frame_def)
  show ?thesis unfolding ack_window_def Let_def f1_def [symmetric]
    by (simp add: i c w fast_retransmit_ack [OF r] new_ack_ack [OF r] ack_stage_challenge [OF r(1)] del: ack_stage_simps)
qed

lemma process_ack_ack:
  assumes "phase_mask (fl_tcb f) \<noteq> PHASE_SYN_SENT" "phase_mask (fl_tcb f) \<noteq> PHASE_SYN_RCVD"
  shows "ack_stage D f (process_ack D I f)"
  using assms ack_window_ack [of D f I] by (simp add: process_ack_def ack_handshake_def and_then_def rx_ack Let_def)

subsection \<open>The stages before the payload\<close>

text \<open>A connection that is open: past the handshake, and not yet waiting for old segments to die.\<close>

definition open_phases :: "u16 set" where
  "open_phases = {PHASE_ESTABLISHED, PHASE_FIN_WAIT1, PHASE_FIN_WAIT2, PHASE_CLOSE_WAIT, PHASE_CLOSING, PHASE_LAST_ACK}"

lemma open_synchronised: "p \<in> open_phases \<Longrightarrow> has p synchronised_phases \<and> p \<noteq> PHASE_TIME_WAIT \<and> p \<noteq> PHASE_SYN_SENT \<and> p \<noteq> PHASE_SYN_RCVD"
  by (auto simp: open_phases_def synchronised_phases_def phase_defs has_def)

definition returned :: "'p dpdk \<Rightarrow> inbound \<Rightarrow> tcb \<Rightarrow> bool \<times> 'p flow \<Rightarrow> bool" where
  "returned D I t r = (case r of (b, f') \<Rightarrow> given_up D (fl_tcb f') \<or> rcv_nxt (fl_tcb f') = rcv_nxt t \<and> (b \<longrightarrow> fl_len f' = 0)
     \<and> (ack_move t (fl_tcb f') \<or> has (in_flags I) FLAG_RST \<and> in_seq I = rcv_nxt t \<and> phase_mask (fl_tcb f') = PHASE_CLOSED))"

definition untouched :: "'p flow \<Rightarrow> 'p flow \<Rightarrow> bool" where
  "untouched f f' = (rx_frame (fl_tcb f) (fl_tcb f') \<and> fl_len f' = fl_len f \<and> fl_trim f' = fl_trim f)"

lemma untouched_refl [simp]: "untouched f f"
  by (simp add: untouched_def)

lemma rx_stage_returned: "rx_stage f1 x \<Longrightarrow> untouched f f1 \<Longrightarrow> stage_ok (returned D I (fl_tcb f)) (untouched f) x"
  unfolding rx_stage_def by (erule stage_ok_mono) (auto simp: returned_def untouched_def rx_frame_def ack_move_def)

lemma check_syn_open:
  assumes "untouched f f1" "phase_mask (fl_tcb f) \<in> open_phases"
  shows "stage_ok (returned D I (fl_tcb f)) (\<lambda>f'. untouched f f' \<and> \<not> has (in_flags I) FLAG_SYN) (check_syn A I f1)"
proof -
  have "phase_mask (fl_tcb f1) = phase_mask (fl_tcb f)" using assms(1) by (simp add: untouched_def rx_frame_def)
  with open_synchronised [OF assms(2)] have p: "has (phase_mask (fl_tcb f1)) synchronised_phases" "phase_mask (fl_tcb f1) \<noteq> PHASE_TIME_WAIT" by simp_all
  have "stage_ok (returned D I (fl_tcb f)) Q (challenge I f1)" for Q
    using assms(1) challenge_frame [of "fl_tcb f1" "in_tsc I"] by (simp add: challenge_def swallow_def returned_def untouched_def rx_frame_def ack_move_def)
  with p assms(1) show ?thesis by (simp add: check_syn_def Let_def)
qed

definition acked :: "inbound \<Rightarrow> 'p flow \<Rightarrow> 'p flow \<Rightarrow> bool" where
  "acked I f f' = (ack_move (fl_tcb f) (fl_tcb f') \<and> fl_len f' = fl_len f \<and> fl_trim f' = fl_trim f \<and> \<not> has (in_flags I) FLAG_SYN)"

lemma process_ack_open:
  assumes "untouched f f1" "\<not> has (in_flags I) FLAG_SYN" "phase_mask (fl_tcb f) \<in> open_phases"
  shows "stage_ok (returned D I (fl_tcb f)) (acked I f) (process_ack D I f1)"
proof -
  have "phase_mask (fl_tcb f1) = phase_mask (fl_tcb f)" using assms(1) by (simp add: untouched_def rx_frame_def)
  with open_synchronised [OF assms(3)] have "ack_stage D f1 (process_ack D I f1)" by (intro process_ack_ack) simp_all
  with assms(1,2) show ?thesis unfolding ack_stage_def
    by (elim stage_ok_mono) (auto simp: returned_def untouched_def acked_def rx_frame_def ack_move_def)
qed

lemma process_rst_open:
  assumes "acked I f f1" "phase_mask (fl_tcb f) \<in> open_phases"
  shows "stage_ok (returned D I (fl_tcb f)) (\<lambda>f'. acked I f f' \<and> \<not> has (in_flags I) FLAG_RST) (process_rst I f1)"
proof -
  have "phase_mask (fl_tcb f1) \<noteq> PHASE_SYN_SENT" using assms by (auto simp: acked_def ack_move_def open_phases_def phase_defs)
  then show ?thesis using challenge_frame [of "fl_tcb f1" "in_tsc I"] assms(1)
    by (auto simp: process_rst_def Let_def swallow_def challenge_def returned_def acked_def ack_move_def rx_frame_def)
qed

lemma process_syn_open: "acked I f f1 \<and> \<not> has (in_flags I) FLAG_RST \<Longrightarrow>
    stage_ok (returned D I (fl_tcb f)) (\<lambda>f'. acked I f f' \<and> \<not> has (in_flags I) FLAG_RST) (and_then (process_syn I f1) (require_ack I))"
  by (auto simp: process_syn_def require_ack_def and_then_def returned_def acked_def ack_move_def)

lemma prologue_open:
  assumes "phase_mask (fl_tcb f) \<in> open_phases"
  shows "stage_ok (returned D I (fl_tcb f)) (\<lambda>f'. acked I f f' \<and> \<not> has (in_flags I) FLAG_RST) (prologue A D I f)"
  unfolding prologue_def
proof (rule stage_ok_seq, rule rx_stage_returned [OF check_sequence_rx untouched_refl], rule stage_ok_seq, erule rx_stage_returned [OF check_ttl_rx],
    rule stage_ok_seq [where Q = "\<lambda>f'. untouched f f' \<and> \<not> has (in_flags I) FLAG_SYN"])
  fix f2 assume "untouched f f2"
  then have "untouched f (upd_tcb (react_ecn I) f2)" using ecn_frame [of "fl_tcb f2" I] by (simp add: untouched_def rx_frame_def)
  then show "stage_ok (returned D I (fl_tcb f)) (\<lambda>f'. untouched f f' \<and> \<not> has (in_flags I) FLAG_SYN) (check_syn A I (upd_tcb (react_ecn I) f2))"
    using assms by (rule check_syn_open)
next
  fix f3 assume f3: "untouched f f3 \<and> \<not> has (in_flags I) FLAG_SYN"
  have "stage_ok (returned D I (fl_tcb f)) (untouched f) (read_options I f3)" using f3 by (intro rx_stage_returned [OF read_options_rx]) simp
  then show "stage_ok (returned D I (fl_tcb f)) (\<lambda>f'. acked I f f' \<and> \<not> has (in_flags I) FLAG_RST) (and_then (read_options I f3) (\<lambda>f4. and_then (process_ack D I f4) (\<lambda>f5.
      and_then (process_rst I f5) (\<lambda>f6. and_then (process_syn I f6) (require_ack I)))))"
    using f3 assms by (auto intro!: stage_ok_seq [OF _ stage_ok_seq [OF process_ack_open stage_ok_seq [OF process_rst_open [OF _ assms] process_syn_open]]])
qed

subsection \<open>The payload\<close>

lemma trim_sack_frame: "rx_frame t (fold trim_sack is t)"
proof (induction "is" arbitrary: t)
  case (Cons i "is")
  have "rx_frame t (trim_sack i t)" by (simp add: trim_sack_def rx_frame_def)
  with Cons show ?case by (auto intro: rx_frame_trans)
qed simp

lemma schedule_ack_frame: "rx_frame t (schedule_ack I t)"
  by (simp add: schedule_ack_def pend_def rx_frame_def Let_def)

lemma note_sack_frame: "rx_frame t (note_sack l r t)"
  by (simp add: note_sack_def merge_sack_def rx_frame_def Let_def split: option.split)

text \<open>What is left to read begins where the connection stood, and the connection stands behind it now.\<close>

definition took :: "inbound \<Rightarrow> tcb \<Rightarrow> 'p flow \<Rightarrow> bool" where
  "took I t f' = ((0 < fl_len f' \<longrightarrow> in_seq I + fl_trim f' = rcv_nxt t \<and> unat (fl_trim f') + unat (fl_len f') \<le> unat (in_len I))
     \<and> rcv_nxt (fl_tcb f') = rcv_nxt t + fl_len f')"

lemma receive_in_order_took:
  assumes "fl_trim f = 0" "fl_len f = in_len I" "in_seq I = rcv_nxt (fl_tcb f)"
  shows "took I (fl_tcb f) (receive_in_order I f) \<and> phase_mask (fl_tcb (receive_in_order I f)) = phase_mask (fl_tcb f)"
proof -
  let ?t = "(fl_tcb f)\<lparr>rcv_nxt := rcv_nxt (fl_tcb f) + fl_len f\<rparr>"
  have "rx_frame ?t (fl_tcb (receive_in_order I f))"
    using rx_frame_trans [OF trim_sack_frame [of ?t "[0..<3]"] schedule_ack_frame [of _ I]] by (simp add: receive_in_order_def)
  moreover have "fl_len (receive_in_order I f) = fl_len f" "fl_trim (receive_in_order I f) = fl_trim f" by (simp_all add: receive_in_order_def)
  ultimately show ?thesis using assms by (simp add: took_def rx_frame_def)
qed

lemma receive_out_of_order_took:
  "took I (fl_tcb f) (receive_out_of_order I f) \<and> phase_mask (fl_tcb (receive_out_of_order I f)) = phase_mask (fl_tcb f)"
proof -
  have "rx_frame (fl_tcb f) (fl_tcb (receive_out_of_order I f))"
    unfolding receive_out_of_order_def Let_def
    using note_sack_frame by (auto simp: rx_frame_def pend_def split: option.split prod.split)
  moreover have "fl_len (receive_out_of_order I f) = 0" by (simp add: receive_out_of_order_def Let_def)
  ultimately show ?thesis by (simp add: took_def rx_frame_def)
qed

lemma receive_overlap_took:
  assumes "fl_len f = in_len I" "\<not> has (in_flags I) FLAG_SYN"
  shows "stage_ok (\<lambda>(b, f'). \<not> b \<and> rx_frame (fl_tcb f) (fl_tcb f')) (\<lambda>f'. took I (fl_tcb f) f' \<and> phase_mask (fl_tcb f') = phase_mask (fl_tcb f))
    (receive_overlap I f)"
proof -
  let ?o = "rcv_nxt (fl_tcb f) - in_seq I"
  let ?f = "upd_tcb (schedule_ack I) (upd_tcb (\<lambda>t. t\<lparr>rcv_nxt := rcv_nxt t + (fl_len f - ?o)\<rparr>) (f\<lparr>fl_trim := ?o, fl_len := fl_len f - ?o\<rparr>))"
  have q: "payload_seq I = in_seq I" using assms(2) by (simp add: payload_seq_def)
  have "took I (fl_tcb f) ?f \<and> phase_mask (fl_tcb ?f) = phase_mask (fl_tcb f)" if "?o < fl_len f"
  proof -
    have "unat ?o + unat (fl_len f - ?o) = unat (fl_len f)" using that by (simp add: unat_sub less_imp_le word_less_nat_alt)
    then show ?thesis using schedule_ack_frame [of "(fl_tcb f)\<lparr>rcv_nxt := rcv_nxt (fl_tcb f) + (fl_len f - ?o)\<rparr>" I] assms(1)
      by (simp add: took_def rx_frame_def)
  qed
  then show ?thesis using q by (simp add: receive_overlap_def Let_def took_def pend_def)
qed

definition data_phases :: "u16 set" where
  "data_phases = {PHASE_ESTABLISHED, PHASE_FIN_WAIT1, PHASE_FIN_WAIT2}"

lemma process_payload_took:
  assumes "fl_trim f = 0" "fl_len f = in_len I" "\<not> has (in_flags I) FLAG_SYN"
  shows "stage_ok (\<lambda>(b, f'). \<not> b \<and> rx_frame (fl_tcb f) (fl_tcb f'))
    (\<lambda>f'. (phase_mask (fl_tcb f) \<in> data_phases \<longrightarrow> took I (fl_tcb f) f') \<and> phase_mask (fl_tcb f') = phase_mask (fl_tcb f)) (process_payload I f)"
proof -
  have "phase_mask (fl_tcb f) \<in> data_phases \<Longrightarrow> has (phase_mask (fl_tcb f)) receiving_phases"
    by (auto simp: data_phases_def receiving_phases_def phase_defs has_def)
  moreover have "payload_seq I = in_seq I" using assms(3) by (simp add: payload_seq_def)
  moreover have "\<not> 0 < fl_len f \<Longrightarrow> took I (fl_tcb f) f" by (simp add: took_def word_gt_0)
  ultimately show ?thesis
    using receive_in_order_took [OF assms(1,2)] receive_out_of_order_took [of I f] stage_ok_mono [OF receive_overlap_took [OF assms(2,3)]]
    by (simp add: process_payload_def Let_def)
qed


subsection \<open>Delivery\<close>

text \<open>What a call hands on: with the verdict true, the \<open>fl_len\<close> bytes behind the first
  \<open>fl_trim\<close> ones of the payload.\<close>

definition handed :: "bool \<times> 'p flow \<Rightarrow> u32" where
  "handed r = (if fst r then fl_len (snd r) else 0)"

definition delivered :: "inbound \<Rightarrow> tcb \<Rightarrow> bool \<times> 'p flow \<Rightarrow> bool" where
  "delivered I t r =
     ((0 < handed r \<longrightarrow> \<not> has (in_flags I) FLAG_SYN \<and> in_seq I + fl_trim (snd r) = rcv_nxt t
         \<and> unat (fl_trim (snd r)) + unat (handed r) \<le> unat (in_len I))
      \<and> (rcv_nxt (fl_tcb (snd r)) = rcv_nxt t + handed r
         \<or> has (in_flags I) FLAG_FIN \<and> rcv_nxt (fl_tcb (snd r)) = rcv_nxt t + handed r + 1))"


lemma process_fin_move:
  assumes "phase_mask t \<in> data_phases" "phase_mask t = PHASE_ESTABLISHED \<or> \<not> has (in_flags I) FLAG_FIN"
  shows "phase_mask (process_fin I t) \<noteq> PHASE_TIME_WAIT
    \<and> (rcv_nxt (process_fin I t) = rcv_nxt t \<or> has (in_flags I) FLAG_FIN \<and> rcv_nxt (process_fin I t) = rcv_nxt t + 1)"
  using assms by (auto simp: process_fin_def pend_def Let_def data_phases_def phase_defs)

lemma ack_move_data: "ack_move t t' \<Longrightarrow> phase_mask t \<in> data_phases \<Longrightarrow> phase_mask t' \<in> data_phases \<and> rcv_nxt t' = rcv_nxt t
    \<and> (phase_mask t = PHASE_ESTABLISHED \<longrightarrow> phase_mask t' = PHASE_ESTABLISHED)"
  by (auto simp: ack_move_def data_phases_def phase_defs)

text \<open>The connection goes on receiving, or is closed by a reset, or the peer has closed its side.\<close>

definition goes_on :: "inbound \<Rightarrow> tcb \<Rightarrow> bool" where
  "goes_on I t = (has (in_flags I) FLAG_FIN \<or> phase_mask t \<in> insert PHASE_CLOSED data_phases)"

lemma returned_delivered:
  assumes "returned D I t r" "phase_mask t \<in> data_phases"
  shows "given_up D (fl_tcb (snd r)) \<or> delivered I t r \<and> goes_on I (fl_tcb (snd r))"
  using assms ack_move_data [of t "fl_tcb (snd r)"] by (auto simp: returned_def delivered_def handed_def goes_on_def)

lemma finish_delivered:
  assumes "took I t f" "phase_mask (fl_tcb f) \<in> data_phases" "phase_mask (fl_tcb f) = PHASE_ESTABLISHED \<or> \<not> has (in_flags I) FLAG_FIN"
    "\<not> has (in_flags I) FLAG_SYN"
  shows "delivered I t (refuse_late_data I (upd_tcb (process_fin I) f)) \<and> goes_on I (fl_tcb (snd (refuse_late_data I (upd_tcb (process_fin I) f))))"
proof -
  note p = process_fin_move [OF assms(2,3)]
  then have r: "refuse_late_data I (upd_tcb (process_fin I) f) = (True, upd_tcb (process_fin I) f)" by (simp add: refuse_late_data_def)
  have "goes_on I (process_fin I (fl_tcb f))" using assms(2) by (simp add: goes_on_def process_fin_def)
  with p assms(1,4) show ?thesis unfolding r by (auto simp: delivered_def handed_def took_def)
qed

text \<open>One call, whatever the segment carries: any flags and options, any sequence number, an overlap
  with what was received before. A connection that sends its own FIN is left out when the segment
  carries one too.\<close>

lemma inbound_delivered:
  assumes "phase_mask (fl_tcb f) \<in> data_phases" "fl_trim f = 0" "phase_mask (fl_tcb f) = PHASE_ESTABLISHED \<or> \<not> has (in_flags I) FLAG_FIN"
    "process_inbound A D I f = r"
  shows "given_up D (fl_tcb (snd r)) \<or> delivered I (fl_tcb f) r \<and> goes_on I (fl_tcb (snd r))"
proof -
  let ?f = "f\<lparr>fl_len := in_len I\<rparr>"
  have "phase_mask (fl_tcb ?f) \<in> open_phases" using assms(1) by (auto simp: data_phases_def open_phases_def)
  note pro = prologue_open [OF this, of D I A]
  show ?thesis
  proof (cases "prologue A D I ?f")
    case (Inl r1)
    with pro have "returned D I (fl_tcb f) r1" by simp
    with Inl show ?thesis using returned_delivered [OF _ assms(1)] assms(4) by (simp add: process_inbound_def and_then_def)
  next
    case (Inr f1)
    with pro have a: "acked I ?f f1" by simp
    then have f1: "fl_trim f1 = 0" "fl_len f1 = in_len I" "\<not> has (in_flags I) FLAG_SYN" using assms(2) by (simp_all add: acked_def)
    have m: "phase_mask (fl_tcb f1) \<in> data_phases" "rcv_nxt (fl_tcb f1) = rcv_nxt (fl_tcb f)"
      "phase_mask (fl_tcb f1) = PHASE_ESTABLISHED \<or> \<not> has (in_flags I) FLAG_FIN"
      using a ack_move_data [of "fl_tcb ?f" "fl_tcb f1"] assms(1,3) by (auto simp: acked_def)
    show ?thesis
    proof (cases "process_payload I f1")
      case (Inl r1)
      then have "r1 = r" using assms(4) \<open>prologue A D I ?f = Inr f1\<close> by (simp add: process_inbound_def and_then_def)
      then show ?thesis using process_payload_took [OF f1] Inl m(1,2)
        by (cases r) (auto simp: delivered_def handed_def goes_on_def rx_frame_def)
    next
      case (Inr f2)
      then have t: "took I (fl_tcb f) f2" "phase_mask (fl_tcb f2) = phase_mask (fl_tcb f1)"
        using process_payload_took [OF f1] m by (simp_all add: took_def)
      have "r = refuse_late_data I (upd_tcb (process_fin I) f2)"
        using Inr assms(4) \<open>prologue A D I ?f = Inr f1\<close> by (simp add: process_inbound_def and_then_def)
      then show ?thesis using finish_delivered [of I "fl_tcb f" f2] t m f1(3) by simp
    qed
  qed
qed

text \<open>A segment and a connection to try the theorems on.\<close>

definition sample_segment :: "u8 \<Rightarrow> u8 \<Rightarrow> u32 \<Rightarrow> inbound" where
  "sample_segment q flags n = \<lparr>in_v6 = False, in_hdr = (\<lambda>i. if i = 41 then q else if i = 47 then flags else 0), in_len = n, in_mbuf = 1,
     in_payload_offset = 54, in_absorb = True, in_tsc = 0, in_tv_sec = 0\<rparr>"

definition sample_flow :: "u16 \<Rightarrow> unit flow" where
  "sample_flow p = \<lparr>fl_tcb = fresh_tcb\<lparr>phase_mask := p\<rparr>, fl_buf = snd silent_example,
     fl_cookie = \<lparr>ck_rk = [], ck_is_seeded = False, ck_replay_cache = (\<lambda>_. 0), ck_mac_registry = (\<lambda>_. 0), ck_global_temporal_registry = 0\<rparr>,
     fl_len = 0, fl_trim = 0, fl_absorbed = False\<rparr>"

subsection \<open>Resets\<close>

text \<open>(C23) A blind reset does not close a connection: on an open connection an RST whose sequence
  number is not the one the connection waits for, with any other flags and options and with any
  acknowledgement, hands nothing on and leaves the sequence number and the phase as they were, but for
  the step that its acknowledgement may cause. (A connection may also be given up while a lost segment is
  sent again, when a buffer has too many references.)\<close>

theorem blind_rst_ignored:
  assumes "phase_mask (fl_tcb f) \<in> open_phases" "has (in_flags I) FLAG_RST" "in_seq I \<noteq> rcv_nxt (fl_tcb f)"
    "process_inbound A D I f = (b, f')"
  shows "given_up D (fl_tcb f') \<or> ack_move (fl_tcb f) (fl_tcb f') \<and> handed (b, f') = 0"
proof -
  let ?f = "f\<lparr>fl_len := in_len I\<rparr>"
  have "stage_ok (returned D I (fl_tcb f)) (\<lambda>f'. acked I ?f f' \<and> \<not> has (in_flags I) FLAG_RST) (prologue A D I ?f)"
    using prologue_open [of ?f D I A] assms(1) by simp
  with assms(2) obtain r where "prologue A D I ?f = Inl r" "returned D I (fl_tcb f) r" by (cases "prologue A D I ?f") auto
  with assms(3,4) show ?thesis by (auto simp: process_inbound_def and_then_def returned_def handed_def)
qed

theorem blind_rst_ignored_witness:
  "\<exists>b f'. process_inbound xor_aes plain_dpdk (sample_segment 5 0x04 0) (sample_flow PHASE_ESTABLISHED) = (b, f')
    \<and> (given_up plain_dpdk (fl_tcb f') \<or> ack_move (fl_tcb (sample_flow PHASE_ESTABLISHED)) (fl_tcb f') \<and> handed (b, f') = 0)"
proof -
  have h: "phase_mask (fl_tcb (sample_flow PHASE_ESTABLISHED)) \<in> open_phases" "has (in_flags (sample_segment 5 0x04 0)) FLAG_RST"
    "in_seq (sample_segment 5 0x04 0) \<noteq> rcv_nxt (fl_tcb (sample_flow PHASE_ESTABLISHED))" by code_simp+
  show ?thesis using blind_rst_ignored [OF h] by (metis surj_pair)
qed

text \<open>(C39) In \<^verbatim>\<open>SYN_SENT\<close> a blind reset does close the connection: a segment with SYN and RST and
  no acknowledgement passes for a simultaneous open, so that its sequence number is not checked, and is
  then taken as a reset. (A reset there is to be believed only if it acknowledges the SYN.)\<close>

theorem syn_rst_closes:
  assumes "phase_mask (fl_tcb f) = PHASE_SYN_SENT" "in_flags I = FLAG_SYN OR FLAG_RST" "expected_ttl (fl_tcb f) = 0"
    "in_data_offset I \<le> 5"
  shows "phase_mask (fl_tcb (snd (process_inbound A D I f))) = PHASE_CLOSED"
proof -
  have fl: "\<not> has (in_flags I) FLAG_ACK" "has (in_flags I) FLAG_SYN" "has (in_flags I) FLAG_RST"
    using assms(2) by (simp_all add: has_def tcp_flag_defs)
  have p: "phase_mask (react_ecn I (fl_tcb f)) = PHASE_SYN_SENT" using ecn_frame [of "fl_tcb f" I] assms(1) by (simp add: rx_frame_def)
  have "\<not> has PHASE_SYN_SENT synchronised_phases" "PHASE_SYN_SENT \<noteq> PHASE_TIME_WAIT" by (simp_all add: synchronised_phases_def phase_defs has_def)
  moreover have "\<not> 5 < in_data_offset I" using assms(4) by simp
  ultimately show ?thesis using fl p assms(1,3)
    by (simp add: process_inbound_def prologue_def and_then_def check_sequence_def seq_valid_def check_ttl_def check_syn_def read_options_def
        process_ack_def process_rst_def swallow_def Let_def)
qed

theorem syn_rst_closes_witness:
  "phase_mask (fl_tcb (snd (process_inbound xor_aes plain_dpdk (sample_segment 77 0x06 0) (sample_flow PHASE_SYN_SENT)))) = PHASE_CLOSED"
  by (rule syn_rst_closes; code_simp)

subsection \<open>Data after the end, and with it\<close>

text \<open>A segment with the next bytes, without options, that acknowledges nothing new and comes with a hop
  count the connection accepts.\<close>

definition plain_data :: "inbound \<Rightarrow> tcb \<Rightarrow> bool" where
  "plain_data I t = (in_seq I = rcv_nxt t \<and> in_ack I = snd_una t \<and> 0 < in_len I \<and> in_data_offset I \<le> 5 \<and> has (in_flags I) FLAG_ACK
     \<and> \<not> has (in_flags I) FLAG_SYN \<and> \<not> has (in_flags I) FLAG_RST \<and> rcv_wnd t \<noteq> 0
     \<and> (expected_ttl t = 0 \<or> \<bar>uint (in_ttl I) - uint (expected_ttl t)\<bar> \<le> 6))"

lemma check_ttl_passes:
  assumes "expected_ttl (fl_tcb f) = 0 \<or> \<bar>uint (in_ttl I) - uint (expected_ttl (fl_tcb f))\<bar> \<le> 6"
  shows "\<exists>e. check_ttl I f = Inr (upd_tcb (\<lambda>t. t\<lparr>expected_ttl := e\<rparr>) f)"
proof (cases "expected_ttl (fl_tcb f) = 0")
  case True
  then have "check_ttl I f = Inr (upd_tcb (\<lambda>t. t\<lparr>expected_ttl := expected_ttl (fl_tcb f)\<rparr>) f)" by (simp add: check_ttl_def upd_tcb_def)
  then show ?thesis by blast
next
  case False
  then show ?thesis using assms by (auto simp: check_ttl_def Let_def)
qed

lemma react_ecn_keeps:
  "phase_mask (react_ecn I t) = phase_mask t" "rcv_nxt (react_ecn I t) = rcv_nxt t" "snd_una (react_ecn I t) = snd_una t"
  by (simp_all add: react_ecn_def ecn_echo_def ecn_mark_def pend_def Let_def)

lemma prologue_plain:
  assumes "plain_data I (fl_tcb f)" "phase_mask (fl_tcb f) \<in> open_phases"
  shows "\<exists>f1. prologue A D I f = Inr f1 \<and> untouched f f1"
proof -
  have v: "seq_valid I (fl_tcb f)" using assms open_synchronised [OF assms(2)] by (auto simp: seq_valid_def plain_data_def Let_def word_gt_0)
  obtain e where e: "check_ttl I f = Inr (upd_tcb (\<lambda>t. t\<lparr>expected_ttl := e\<rparr>) f)" using check_ttl_passes [of f I] assms(1) by (auto simp: plain_data_def)
  define g where "g = upd_tcb (react_ecn I) (upd_tcb (\<lambda>t. t\<lparr>expected_ttl := e\<rparr>) f)"
  have g: "phase_mask (fl_tcb g) = phase_mask (fl_tcb f)" "rcv_nxt (fl_tcb g) = rcv_nxt (fl_tcb f)" "snd_una (fl_tcb g) = snd_una (fl_tcb f)"
    "fl_len g = fl_len f" "fl_trim g = fl_trim f" by (simp_all add: g_def upd_tcb_def react_ecn_keeps)
  define f1 where "f1 = upd_tcb (\<lambda>t. t\<lparr>snd_wnd := current_wnd I (fl_tcb g)\<rparr>) (g\<lparr>fl_tcb := count_dup I (fl_tcb g)\<rparr>)"
  have "\<not> is_dup I (fl_tcb g)" using assms(1) by (auto simp: is_dup_def plain_data_def)
  then have "ack_window D I g = Inr f1" using assms(1) g by (simp add: ack_window_def Let_def count_dup_def plain_data_def f1_def)
  moreover have "check_syn A I g = Inr g" "read_options I g = Inr g" "ack_handshake I g = Inr g" "has (in_flags I) FLAG_ACK"
    using assms(1) g open_synchronised [OF assms(2)] by (auto simp: check_syn_def read_options_def ack_handshake_def plain_data_def Let_def)
  moreover have "check_sequence I f = Inr f" "process_rst I f1 = Inr f1" "process_syn I f1 = Inr f1" "require_ack I f1 = Inr f1"
    using assms(1) v by (simp_all add: check_sequence_def process_rst_def process_syn_def require_ack_def plain_data_def Let_def)
  ultimately have "prologue A D I f = Inr f1" using e by (simp add: prologue_def and_then_def process_ack_def flip: g_def)
  moreover have "untouched f f1" using g by (simp add: untouched_def rx_frame_def count_dup_def upd_tcb_def f1_def)
  ultimately show ?thesis by blast
qed

text \<open>(C38) Data that come after the peer's FIN are handed on. In \<^verbatim>\<open>CLOSE_WAIT\<close>,
  \<^verbatim>\<open>CLOSING\<close> and \<^verbatim>\<open>LAST_ACK\<close>, with an open receive window, take a segment without options at the
  expected sequence number that acknowledges nothing new, within 6 hops of the usual count: its
  payload is not examined, but its length stays as it was and the verdict is true. The sequence number does not move, so the same bytes can be handed on again.\<close>

theorem late_data_handed_on:
  assumes "phase_mask (fl_tcb f) \<in> {PHASE_CLOSE_WAIT, PHASE_CLOSING, PHASE_LAST_ACK}" "plain_data I (fl_tcb f)" "\<not> has (in_flags I) FLAG_FIN"
  shows "handed (process_inbound A D I f) = in_len I \<and> rx_frame (fl_tcb f) (fl_tcb (snd (process_inbound A D I f)))"
proof -
  let ?f = "f\<lparr>fl_len := in_len I\<rparr>"
  have "phase_mask (fl_tcb ?f) \<in> open_phases" using assms(1) by (auto simp: open_phases_def)
  then obtain f1 where f1: "prologue A D I ?f = Inr f1" "untouched ?f f1" using prologue_plain [of I ?f A D] assms(2) by auto
  then have p: "phase_mask (fl_tcb f1) = phase_mask (fl_tcb f)" "rx_frame (fl_tcb f) (fl_tcb f1)" "fl_len f1 = in_len I"
    by (simp_all add: untouched_def rx_frame_def)
  have "\<not> has (phase_mask (fl_tcb f1)) receiving_phases" "phase_mask (fl_tcb f1) \<noteq> PHASE_TIME_WAIT"
    using assms(1) unfolding p by (auto simp: receiving_phases_def phase_defs has_def)
  with f1(1) p assms(3) show ?thesis
    by (simp add: process_inbound_def and_then_def process_payload_def process_fin_def refuse_late_data_def handed_def upd_tcb_def Let_def)
qed

theorem late_data_handed_on_witness:
  "handed (process_inbound xor_aes plain_dpdk (sample_segment 0 0x10 9) (sample_flow PHASE_CLOSE_WAIT)) = in_len (sample_segment 0 0x10 9)
    \<and> rx_frame (fl_tcb (sample_flow PHASE_CLOSE_WAIT))
        (fl_tcb (snd (process_inbound xor_aes plain_dpdk (sample_segment 0 0x10 9) (sample_flow PHASE_CLOSE_WAIT))))"
  by (rule late_data_handed_on; code_simp)

text \<open>(C37) The last bytes of the peer are lost: in \<^verbatim>\<open>FIN_WAIT2\<close>, with an open receive window, a
  segment without options that carries the next bytes and the FIN, acknowledges nothing new and comes
  within 6 hops of the usual count is taken whole, the connection waits behind the FIN and so acknowledges all of it,
  but the step to \<^verbatim>\<open>TIME_WAIT\<close> makes the last test throw the payload away.\<close>

theorem last_data_lost:
  assumes "phase_mask (fl_tcb f) = PHASE_FIN_WAIT2" "plain_data I (fl_tcb f)" "has (in_flags I) FLAG_FIN"
  shows "handed (process_inbound A D I f) = 0
    \<and> rcv_nxt (fl_tcb (snd (process_inbound A D I f))) = rcv_nxt (fl_tcb f) + in_len I + 1"
proof -
  let ?f = "f\<lparr>fl_len := in_len I\<rparr>"
  have "phase_mask (fl_tcb ?f) \<in> open_phases" using assms(1) by (simp add: open_phases_def)
  then obtain f1 where f1: "prologue A D I ?f = Inr f1" "untouched ?f f1" using prologue_plain [of I ?f A D] assms(2) by auto
  then have p: "phase_mask (fl_tcb f1) = PHASE_FIN_WAIT2" "rcv_nxt (fl_tcb f1) = rcv_nxt (fl_tcb f)" "fl_len f1 = in_len I"
    using assms(1) by (simp_all add: untouched_def rx_frame_def)
  have q: "payload_seq I = rcv_nxt (fl_tcb f)" "has PHASE_FIN_WAIT2 receiving_phases" "0 < in_len I"
    using assms(2) by (simp_all add: payload_seq_def plain_data_def receiving_phases_def phase_defs has_def)
  let ?t = "(fl_tcb f1)\<lparr>rcv_nxt := rcv_nxt (fl_tcb f1) + fl_len f1\<rparr>"
  define f2 where "f2 = receive_in_order I f1"
  have f2: "rcv_nxt (fl_tcb f2) = rcv_nxt (fl_tcb f) + in_len I" "phase_mask (fl_tcb f2) = PHASE_FIN_WAIT2"
    using rx_frame_trans [OF trim_sack_frame [of ?t "[0..<3]"] schedule_ack_frame [of _ I]] p
    by (simp_all add: f2_def receive_in_order_def rx_frame_def)
  have r: "process_inbound A D I f = refuse_late_data I (upd_tcb (process_fin I) f2)"
    using f1(1) p q by (simp add: process_inbound_def and_then_def process_payload_def f2_def Let_def)
  have "phase_mask (process_fin I (fl_tcb f2)) = PHASE_TIME_WAIT" "rcv_nxt (process_fin I (fl_tcb f2)) = rcv_nxt (fl_tcb f) + in_len I + 1"
    using f2 q(1) assms(3) by (simp_all add: process_fin_def pend_def Let_def phase_defs)
  then show ?thesis using challenge_frame [of "process_fin I (fl_tcb f2)" "in_tsc I"] q(3) unfolding r
    by (simp add: refuse_late_data_def handed_def rx_frame_def)
qed

theorem last_data_lost_witness:
  "handed (process_inbound xor_aes plain_dpdk (sample_segment 0 0x11 9) (sample_flow PHASE_FIN_WAIT2)) = 0
    \<and> rcv_nxt (fl_tcb (snd (process_inbound xor_aes plain_dpdk (sample_segment 0 0x11 9) (sample_flow PHASE_FIN_WAIT2))))
      = rcv_nxt (fl_tcb (sample_flow PHASE_FIN_WAIT2)) + in_len (sample_segment 0 0x11 9) + 1"
  by (rule last_data_lost; code_simp)


end
