(* ===== verification/Tcp_Outbound.thy ===== *)
theory Tcp_Outbound
  imports Tcp_Inbound
begin

section \<open>Outbound segments and control frames\<close>

text \<open>
  The sending half of \<^verbatim>\<open>net/tcp_flow_engine.hpp\<close>: \<^verbatim>\<open>prepare_outbound_header\<close> writes the
  headers of a segment into a buffer and moves the sequence number, and
  \<^verbatim>\<open>dispatch_control_frames\<close> sends what is pending (an acknowledgement, a reset, a handshake
  segment, a probe). A header is a memory; \<open>v6\<close> selects the type of the frame.
\<close>

subsection \<open>Options\<close>

definition num_sack_blocks :: "u8 \<Rightarrow> tcb \<Rightarrow> nat" where
  "num_sack_blocks flags t = (if sack_permitted t \<noteq> 0 \<and> \<not> has flags FLAG_SYN then length (filter (\<lambda>i. sack_valid t ! i) [0..<3]) else 0)"

definition out_opt_len :: "u8 \<Rightarrow> tcb \<Rightarrow> nat" where
  "out_opt_len flags t =
     (let n = num_sack_blocks flags t;
          opt_len = (if has flags FLAG_SYN then 12 else 0) + (if ts_permitted t \<noteq> 0 then 12 else 0) + (if 0 < n then 4 + n * 8 else 0);
          rem = opt_len mod 4
      in if rem \<noteq> 0 then opt_len + (4 - rem) else opt_len)"

definition syn_option_bytes :: "u8 list" where
  "syn_option_bytes = [0x02, 0x04, 0x05, 0xB4, 0x01, 0x03, 0x03, 0x07, 0x04, 0x02, 0x01, 0x01]"

definition ts_option_bytes :: "tcb \<Rightarrow> u8 list" where
  "ts_option_bytes t = [0x01, 0x01, 0x08, 0x0A] @ le_bytes 4 (host_to_network32 (ts_val t)) @ le_bytes 4 (host_to_network32 (ts_recent t))"

definition sack_option_bytes :: "nat \<Rightarrow> tcb \<Rightarrow> u8 list" where
  "sack_option_bytes n t =
     [0x01, 0x01, 0x05, of_nat (2 + n * 8)]
     @ concat (map (\<lambda>i. le_bytes 4 (host_to_network32 (sack_left_edges t ! i)) @ le_bytes 4 (host_to_network32 (sack_right_edges t ! i)))
         (filter (\<lambda>i. sack_valid t ! i) [0..<3]))"

text \<open>The options in front of the padding, on the block whose timestamp clock has been moved.\<close>

definition option_bytes :: "u8 \<Rightarrow> nat \<Rightarrow> tcb \<Rightarrow> u8 list" where
  "option_bytes flags n t =
     (if has flags FLAG_SYN then syn_option_bytes else []) @ (if ts_permitted t \<noteq> 0 then ts_option_bytes t else [])
     @ (if 0 < n then sack_option_bytes n t else [])"

definition tick_ts :: "tcb \<Rightarrow> tcb" where
  "tick_ts t = (if ts_permitted t \<noteq> 0 then t\<lparr>ts_val := ts_val t + 1\<rparr> else t)"

definition write_options :: "bool \<Rightarrow> u8 \<Rightarrow> nat \<Rightarrow> nat \<Rightarrow> tcb \<Rightarrow> memory \<Rightarrow> memory" where
  "write_options v6 flags opt_len n t h =
     (if 0 < opt_len
      then let bs = option_bytes flags n t in put_bytes h (if v6 then 74 else 54) (bs @ replicate (opt_len - length bs) 0x01)
      else h)"

subsection \<open>The headers\<close>

definition clamp_payload :: "nat \<Rightarrow> u32 \<Rightarrow> u32" where
  "clamp_payload opt_len payload_len =
     (let bound = 65535 - 40 - of_nat opt_len in if bound < payload_len then bound else payload_len)"

definition write_l3 :: "bool \<Rightarrow> nat \<Rightarrow> u32 \<Rightarrow> tcb \<Rightarrow> memory \<Rightarrow> memory" where
  "write_l3 v6 opt_len payload_len t h0 =
     (let h = put_bytes h0 0 (target_mac t)
      in if v6
         then let flow = (if ecn_permitted t \<noteq> 0 then 0x60000000 OR push_bit 20 0x02 else 0x60000000);
                  h1 = put_bytes h 12 (le_bytes 2 (network_to_host16 0x86DD));
                  h2 = put_bytes h1 14 (le_bytes 4 (host_to_network32 flow));
                  h3 = put_bytes h2 18 (le_bytes 2 (network_to_host16 (ucast (20 + of_nat opt_len + payload_len))));
                  h4 = put_bytes h3 20 [6, 64]
              in put_bytes h4 22 (le_bytes 8 (fst (local_ipv6 t)) @ le_bytes 8 (snd (local_ipv6 t))
                   @ le_bytes 8 (fst (remote_ipv6 t)) @ le_bytes 8 (snd (remote_ipv6 t)))
         else let h1 = put_bytes h 12 (le_bytes 2 (network_to_host16 0x0800));
                  h2 = put_bytes h1 14 [0x45, if ecn_permitted t \<noteq> 0 then 0x02 else 0];
                  h3 = put_bytes h2 16 (le_bytes 2 (network_to_host16 (ucast (40 + of_nat opt_len + payload_len))));
                  h4 = put_bytes h3 18 (le_bytes 2 (0 :: u16) @ le_bytes 2 (network_to_host16 0x4000) @ [64, 6]);
                  h5 = put_bytes h4 26 (le_bytes 4 (local_ipv4 t) @ le_bytes 4 (remote_ipv4 t));
                  h6 = put_bytes h5 24 (le_bytes 2 (0 :: u16))
              in put_bytes h6 24 (le_bytes 2 (compute_checksum False (map h6 [14..<34]) 0)))"

definition is_probe :: "tcb \<Rightarrow> bool" where
  "is_probe t = has (temporal_flags t) TEMP_FLAG_KEEPALIVE_PROBE"

definition out_seq :: "tcb \<Rightarrow> u32" where
  "out_seq t = (if is_probe t then if snd_nxt t = 0 then 0xFFFFFFFF else snd_nxt t - 1 else snd_nxt t)"

definition out_flags :: "u8 \<Rightarrow> tcb \<Rightarrow> u8" where
  "out_flags flags t =
     flags OR (if phase_mask t = PHASE_SYN_SENT \<and> flags = FLAG_SYN then 0 else FLAG_ACK)
     OR (if has (temporal_flags t) TEMP_FLAG_ECN_ECHO then FLAG_ECE else 0)
     OR (if has (temporal_flags t) TEMP_FLAG_CWR then FLAG_CWR else 0)
     OR (if has flags FLAG_SYN \<and> ecn_permitted t \<noteq> 0 then FLAG_ECE OR FLAG_CWR else 0)"

definition settle_flags :: "tcb \<Rightarrow> tcb" where
  "settle_flags t = t\<lparr>temporal_flags := (temporal_flags t AND NOT TEMP_FLAG_KEEPALIVE_PROBE) AND NOT TEMP_FLAG_CWR\<rparr>"

text \<open>The window to advertise: the room in the stream ring, or nothing while that is too little.\<close>

definition silly_window :: "u32 \<Rightarrow> tcb \<Rightarrow> u32" where
  "silly_window wnd t =
     (let mss = (if 0 < remote_mss t then ucast (remote_mss t) else 1460); s = unat (rcv_wscale t);
          scaled_wnd = drop_bit s wnd; scaled_mss = drop_bit s mss; scaled_threshold = drop_bit s (4096 div 2)
      in if drop_bit s (rcv_wnd t) = 0 then if scaled_wnd < scaled_threshold then 0 else wnd
         else if scaled_wnd < scaled_mss \<and> scaled_wnd < scaled_threshold then 0 else wnd)"

definition update_window :: "tcb \<Rightarrow> tcb" where
  "update_window t =
     (case rx_stream_ring t of
        Some ring \<Rightarrow> let (n, ring1) = rc_available_to_peek ring; used = ucast n; wnd = (if used < 4096 then 4096 - used else 0)
                     in t\<lparr>rx_stream_ring := Some ring1, rcv_wnd := silly_window wnd t\<rparr>
      | None \<Rightarrow> t)"

definition write_tcp :: "bool \<Rightarrow> nat \<Rightarrow> u8 \<Rightarrow> tcb \<Rightarrow> tcb \<Rightarrow> memory \<Rightarrow> memory" where
  "write_tcp v6 opt_len flags t t' h =
     (let b = (if v6 then 54 else 34);
          h1 = put_bytes h b (le_bytes 2 (local_port t) @ le_bytes 2 (remote_port t) @ le_bytes 4 (network_to_host32 (out_seq t))
                 @ le_bytes 4 (network_to_host32 (rcv_nxt t)) @ [push_bit 4 (of_nat ((20 + opt_len) div 4)), out_flags flags t])
      in put_bytes (put_bytes h1 (b + 14) (le_bytes 2 (advertised_window (drop_bit (unat (rcv_wscale t')) (rcv_wnd t'))))) (b + 18) (le_bytes 2 (0 :: u16)))"

definition pseudo_sum :: "bool \<Rightarrow> u16 \<Rightarrow> memory \<Rightarrow> u32" where
  "pseudo_sum v6 tcp_len h =
     (if v6
      then fold (\<lambda>i s. s + ucast (mem16 h (38 + 2 * i))) [0..<8] (fold (\<lambda>i s. s + ucast (mem16 h (22 + 2 * i))) [0..<8] 0)
           + ucast (host_to_network16 6) + ucast (host_to_network16 tcp_len)
      else pseudo_header_sum (mem32 h 26) (mem32 h 30) tcp_len)"

definition write_checksum :: "bool \<Rightarrow> bool \<Rightarrow> u32 \<Rightarrow> nat \<Rightarrow> memory \<Rightarrow> memory" where
  "write_checksum v6 probe payload_len opt_len h =
     (let tcp_len = ucast (20 + of_nat opt_len + payload_len) :: u16; b = (if v6 then 54 else 34);
          h1 = (if probe \<and> 0 < payload_len then put_bytes h (b + 20 + opt_len) (replicate (unat payload_len) 0) else h);
          s = pseudo_sum v6 tcp_len h1; h2 = put_bytes h1 (b + 16) (le_bytes 2 (0 :: u16))
      in if probe \<or> payload_len = 0
         then put_bytes h2 (b + 16) (le_bytes 2 (compute_checksum False (map h2 [b..<b + unat tcp_len]) s)) else h2)"

definition prepare_outbound_header :: "bool \<Rightarrow> u32 \<Rightarrow> u8 \<Rightarrow> tcb \<times> memory \<Rightarrow> u32 \<times> tcb \<times> memory" where
  "prepare_outbound_header v6 payload_len flags c = (case c of (t, h) \<Rightarrow>
     let n = num_sack_blocks flags t; opt_len = out_opt_len flags t; len = clamp_payload opt_len payload_len;
         t1 = update_window (settle_flags t); t2 = (if 0 < opt_len then tick_ts t1 else t1);
         h1 = write_tcp v6 opt_len flags t t1 (write_l3 v6 opt_len len t h);
         h2 = write_checksum v6 (is_probe t) len opt_len (write_options v6 flags opt_len n t2 h1);
         t3 = (if is_probe t then t2 else t2\<lparr>snd_nxt := snd_nxt t2 + (len + (if has flags (FLAG_SYN OR FLAG_FIN) then 1 else 0))\<rparr>)
     in (len, t3, h2))"

subsection \<open>Control frames\<close>

definition prepare_outbound :: "nat \<Rightarrow> u32 \<Rightarrow> u8 \<Rightarrow> tcb \<times> 'p buffers \<Rightarrow> tcb \<times> 'p buffers" where
  "prepare_outbound b payload_len flags c = (case c of (t, B) \<Rightarrow>
     let v6 = (is_ipv6 t \<noteq> 0); (len, t1, h) = prepare_outbound_header v6 payload_len flags (t, bf_data B b)
     in (t1, set_payload_length b len v6 (B\<lparr>bf_data := (bf_data B)(b := h)\<rparr>)))"

text \<open>Handshake and closing segments are kept for retransmission.\<close>

definition track_control :: "'p dpdk \<Rightarrow> nat \<Rightarrow> tcb \<times> 'p buffers \<Rightarrow> tcb \<times> 'p buffers" where
  "track_control D b c = (case c of (t, B) \<Rightarrow>
     if has (flags_pending t) (FLAG_SYN OR FLAG_FIN)
     then (case tx_unacked_ring t of
             Some unacked \<Rightarrow>
               let i = rc_get_reserved_slot 0 unacked; u1 = ring_poke i ((ring_buf unacked ! i)\<lparr>seg_mbuf := b\<rparr>) unacked; (ok, B1) = retain D b B
               in if \<not> ok then (t\<lparr>tx_unacked_ring := Some u1, phase_mask := PHASE_CLOSED, flags_pending := flags_pending t OR FLAG_RST\<rparr>, B1)
                  else (t\<lparr>tx_unacked_ring := Some (rc_commit_n 1 u1)\<rparr>, B1)
           | None \<Rightarrow> (t, B))
     else (t, B))"

definition send_control :: "'p dpdk \<Rightarrow> outbound_tcp_segment ring_state \<Rightarrow> tcb \<times> 'p buffers \<Rightarrow> tcb \<times> 'p buffers" where
  "send_control D egress c = (case c of (t, B) \<Rightarrow>
     let i = rc_get_reserved_slot 0 egress; (b, pool) = pktmbuf_alloc D (bf_pool B); B1 = B\<lparr>bf_pool := pool\<rparr>;
         egress1 = ring_poke i ((ring_buf egress ! i)\<lparr>seg_mbuf := b\<rparr>) egress
     in if b \<noteq> 0
        then let p_len = ucast (control_payload_len t);
                 B2 = frame_write b 0 (replicate ((if is_ipv6 t \<noteq> 0 then 128 else 64) + unat p_len) 0) B1;
                 (t1, B3) = prepare_outbound b p_len (flags_pending t) (t\<lparr>control_payload_len := 0\<rparr>, B2);
                 (t2, B4) = track_control D b (t1, B3)
             in (t2\<lparr>tx_egress_conduit := Some (rc_commit_n 1 egress1)\<rparr>, B4)
        else (t\<lparr>tx_egress_conduit := Some egress1\<rparr>, B1))"

definition dispatch_control_frames :: "'p dpdk \<Rightarrow> tcb \<times> 'p buffers \<Rightarrow> tcb \<times> 'p buffers" where
  "dispatch_control_frames D c = (case c of (t, B) \<Rightarrow>
     case tx_egress_conduit t of
       Some egress \<Rightarrow>
         if flags_pending t \<noteq> 0 \<and> tx_mbuf_pool t
         then let t1 = (if has (flags_pending t) FLAG_RST then t\<lparr>flags_pending := FLAG_RST\<rparr> else t);
                  (t2, B2) = send_control D egress (t1, B)
              in (t2\<lparr>flags_pending := 0\<rparr>, B2)
         else (t, B)
     | None \<Rightarrow> (t, B))"

subsection \<open>Reading a header back\<close>

lemma mem16_put:
  assumes "a \<le> i" "i + 2 \<le> a + length bs"
  shows "mem16 (put_bytes m a bs) i = ld16 bs (i - a)"
proof -
  obtain d where d: "i = a + d" using assms(1) le_iff_add by blast
  then have "take 2 (drop d bs) = [bs ! d, bs ! (d + 1)]" using assms(2) by (intro nth_equalityI) (auto simp: less_Suc_eq numeral_2_eq_2)
  with assms(2) d show ?thesis by (simp add: mem16_def ld16_def put_bytes_def)
qed

lemma mem32_put:
  assumes "a \<le> i" "i + 4 \<le> a + length bs"
  shows "mem32 (put_bytes m a bs) i = ld32 bs (i - a)"
proof -
  obtain d where d: "i = a + d" using assms(1) le_iff_add by blast
  then have "take 4 (drop d bs) = [bs ! d, bs ! (d + 1), bs ! (d + 2), bs ! (d + 3)]"
    using assms(2) by (intro nth_equalityI) (auto simp: less_Suc_eq numeral_eq_Suc)
  with assms(2) d show ?thesis by (simp add: mem32_def ld32_def put_bytes_def)
qed

lemma mem_cong:
  "m i = m' i \<Longrightarrow> m (i + 1) = m' (i + 1) \<Longrightarrow> mem16 m i = mem16 m' i"
  "m i = m' i \<Longrightarrow> m (i + 1) = m' (i + 1) \<Longrightarrow> m (i + 2) = m' (i + 2) \<Longrightarrow> m (i + 3) = m' (i + 3) \<Longrightarrow> mem32 m i = mem32 m' i"
  by (simp_all add: mem16_def mem32_def)

definition tcp_base :: "bool \<Rightarrow> nat" where
  "tcp_base v6 = (if v6 then 54 else 34)"

text \<open>Everything in front of the payload but the checksum is what the header writers left.\<close>

lemma write_checksum_other: "i < tcp_base v6 + 20 + opt_len \<Longrightarrow> i \<notin> {tcp_base v6 + 16, tcp_base v6 + 17} \<Longrightarrow> write_checksum v6 p n opt_len h i = h i"
  by (auto simp: write_checksum_def tcp_base_def Let_def put_bytes_def)

lemma write_options_other: "i < tcp_base v6 + 20 \<Longrightarrow> write_options v6 flags opt_len n t h i = h i"
  by (auto simp: write_options_def tcp_base_def Let_def put_bytes_def)

lemma write_tcp_other: "i < tcp_base v6 \<Longrightarrow> write_tcp v6 opt_len flags t t' h i = h i"
  by (auto simp: write_tcp_def tcp_base_def Let_def put_bytes_def)

lemma le_word_le_bytes [simp]: "le_word (le_bytes 2 (w :: u16)) = w" "le_word (le_bytes 4 (x :: u32)) = x"
  by (simp_all add: le_word_bytes)

lemma write_tcp_fields:
  fixes v6 opt_len flags t t' and h :: memory
  defines "h' \<equiv> write_tcp v6 opt_len flags t t' h" and "b \<equiv> tcp_base v6"
  shows "mem32 h' (b + 4) = network_to_host32 (out_seq t)" "mem32 h' (b + 8) = network_to_host32 (rcv_nxt t)"
    "h' (b + 12) = push_bit 4 (of_nat ((20 + opt_len) div 4))" "h' (b + 13) = out_flags flags t"
    "mem16 h' (b + 14) = advertised_window (drop_bit (unat (rcv_wscale t')) (rcv_wnd t'))"
proof -
  let ?bs = "le_bytes 2 (local_port t) @ le_bytes 2 (remote_port t) @ le_bytes 4 (network_to_host32 (out_seq t))
     @ le_bytes 4 (network_to_host32 (rcv_nxt t)) @ [push_bit 4 (of_nat ((20 + opt_len) div 4)), out_flags flags t]"
  have h': "h' = put_bytes (put_bytes (put_bytes h b ?bs) (b + 14) (le_bytes 2 (advertised_window (drop_bit (unat (rcv_wscale t')) (rcv_wnd t')))))
      (b + 18) (le_bytes 2 (0 :: u16))"
    by (simp add: h'_def write_tcp_def b_def tcp_base_def Let_def)
  have o: "i < b + 14 \<Longrightarrow> h' i = put_bytes h b ?bs i" for i by (simp add: h' put_bytes_other)
  have "mem32 h' (b + 4) = mem32 (put_bytes h b ?bs) (b + 4)" "mem32 h' (b + 8) = mem32 (put_bytes h b ?bs) (b + 8)"
    by (intro mem_cong o; simp)+
  then show "mem32 h' (b + 4) = network_to_host32 (out_seq t)" "mem32 h' (b + 8) = network_to_host32 (rcv_nxt t)"
    by (simp_all add: mem32_put ld32_def)
  show "h' (b + 12) = push_bit 4 (of_nat ((20 + opt_len) div 4))" "h' (b + 13) = out_flags flags t"
    by (simp_all add: o put_bytes_def nth_append)
  have "mem16 h' (b + 14) = mem16 (put_bytes (put_bytes h b ?bs) (b + 14) (le_bytes 2 (advertised_window (drop_bit (unat (rcv_wscale t')) (rcv_wnd t'))))) (b + 14)"
    by (intro mem_cong) (simp_all add: h' put_bytes_def)
  then show "mem16 h' (b + 14) = advertised_window (drop_bit (unat (rcv_wscale t')) (rcv_wnd t'))" by (simp add: mem16_put ld16_def)
qed


lemma num_sack_le: "num_sack_blocks flags t \<le> 3"
  using length_filter_le [of "\<lambda>i. sack_valid t ! i" "[0..<3]"] by (simp add: num_sack_blocks_def)

lemma out_opt_len_eq:
  "out_opt_len flags t = 4 * ((if has flags FLAG_SYN then 3 else 0) + (if ts_permitted t \<noteq> 0 then 3 else 0)
     + (if 0 < num_sack_blocks flags t then 1 + 2 * num_sack_blocks flags t else 0))" (is "_ = 4 * ?k")
proof -
  have "(if has flags FLAG_SYN then 12 else 0) + (if ts_permitted t \<noteq> 0 then 12 else 0)
     + (if 0 < num_sack_blocks flags t then 4 + num_sack_blocks flags t * 8 else 0) = 4 * ?k" by simp
  then show ?thesis by (simp only: out_opt_len_def Let_def mod_mult_self1_is_0 simp_thms if_False)
qed

lemma out_opt_len_bound: "out_opt_len flags t \<le> 40" "4 dvd out_opt_len flags t"
proof -
  have "has flags FLAG_SYN \<Longrightarrow> num_sack_blocks flags t = 0" by (simp add: num_sack_blocks_def)
  then show "out_opt_len flags t \<le> 40" using num_sack_le [of flags t] unfolding out_opt_len_eq by auto
  show "4 dvd out_opt_len flags t" unfolding out_opt_len_eq by simp
qed

lemma clamp_payload_le:
  assumes "opt_len \<le> 40"
  shows "unat (clamp_payload opt_len n) + opt_len \<le> 65495" "clamp_payload opt_len n \<le> n"
proof -
  have "unat (65535 - 40 - of_nat opt_len :: u32) = 65495 - opt_len" using assms by (simp add: unat_sub word_le_nat_alt unat_of_nat take_bit_nat_def)
  then show "unat (clamp_payload opt_len n) + opt_len \<le> 65495" "clamp_payload opt_len n \<le> n"
    using assms by (auto simp: clamp_payload_def Let_def word_le_nat_alt word_less_nat_alt)
qed

lemma write_l3_fields:
  "write_l3 False opt_len len t h 14 = 0x45"
  "mem16 (write_l3 False opt_len len t h) 16 = network_to_host16 (ucast (40 + of_nat opt_len + len))"
  "mem16 (write_l3 True opt_len len t h) 18 = network_to_host16 (ucast (20 + of_nat opt_len + len))"
proof -
  show "write_l3 False opt_len len t h 14 = 0x45" by (simp add: write_l3_def Let_def put_bytes_def)
  have "mem16 (write_l3 False opt_len len t h) 16 = mem16 (put_bytes h 16 (le_bytes 2 (network_to_host16 (ucast (40 + of_nat opt_len + len))))) 16"
    by (intro mem_cong) (simp_all add: write_l3_def Let_def put_bytes_def)
  then show "mem16 (write_l3 False opt_len len t h) 16 = network_to_host16 (ucast (40 + of_nat opt_len + len))" by (simp add: mem16_put ld16_def)
  have "mem16 (write_l3 True opt_len len t h) 18 = mem16 (put_bytes h 18 (le_bytes 2 (network_to_host16 (ucast (20 + of_nat opt_len + len))))) 18"
    by (intro mem_cong) (simp_all add: write_l3_def Let_def put_bytes_def)
  then show "mem16 (write_l3 True opt_len len t h) 18 = network_to_host16 (ucast (20 + of_nat opt_len + len))" by (simp add: mem16_put ld16_def)
qed

lemma unat_ucast16:
  assumes "unat (w :: u32) \<le> 65535"
  shows "unat (ucast (ucast w :: u16) :: u32) = unat w"
  using assms by (simp add: unsigned_ucast_eq unsigned_take_bit_eq take_bit_nat_eq_self)

lemma data_offset_back:
  assumes "opt_len \<le> 40" "4 dvd opt_len"
  shows "unat (drop_bit 4 (push_bit 4 (of_nat ((20 + opt_len) div 4)) :: u8)) = 5 + opt_len div 4"
proof -
  have "\<forall>k<16. unat (drop_bit 4 (push_bit 4 (of_nat k)) :: u8) = k" by code_simp
  moreover have "(20 + opt_len) div 4 = 5 + opt_len div 4" "5 + opt_len div 4 < 16" using assms by auto
  ultimately show ?thesis by presburger
qed


lemma prepared:
  assumes "prepare_outbound_header v6 n flags (t, h) = (len, t', h')"
  shows "len = clamp_payload (out_opt_len flags t) n"
    "\<exists>t1 t2. h' = write_checksum v6 (is_probe t) len (out_opt_len flags t) (write_options v6 flags (out_opt_len flags t) (num_sack_blocks flags t) t2
       (write_tcp v6 (out_opt_len flags t) flags t t1 (write_l3 v6 (out_opt_len flags t) len t h))) \<and> t1 = update_window (settle_flags t)
       \<and> t2 = (if 0 < out_opt_len flags t then tick_ts t1 else t1)
       \<and> t' = (if is_probe t then t2 else t2\<lparr>snd_nxt := snd_nxt t2 + (len + (if has flags (FLAG_SYN OR FLAG_FIN) then 1 else 0))\<rparr>)"
  using assms by (auto simp: prepare_outbound_header_def Let_def)

lemma prepared_header:
  assumes "prepare_outbound_header v6 n flags (t, h) = (len, t', h')" "i < tcp_base v6 + 20" "i \<notin> {tcp_base v6 + 16, tcp_base v6 + 17}"
  shows "h' i = write_tcp v6 (out_opt_len flags t) flags t (update_window (settle_flags t)) (write_l3 v6 (out_opt_len flags t) len t h) i"
proof -
  obtain t1 t2 where "h' = write_checksum v6 (is_probe t) len (out_opt_len flags t) (write_options v6 flags (out_opt_len flags t) (num_sack_blocks flags t) t2
       (write_tcp v6 (out_opt_len flags t) flags t t1 (write_l3 v6 (out_opt_len flags t) len t h)))" "t1 = update_window (settle_flags t)"
    using prepared(2) [OF assms(1)] by blast
  then show ?thesis using assms(2,3) by (simp add: write_checksum_other write_options_other)
qed

lemma prepared_lengths:
  assumes "prepare_outbound_header v6 n flags (t, h) = (len, t', h')"
  shows "v6 \<Longrightarrow> unat (network_to_host16 (mem16 h' 18)) = 20 + out_opt_len flags t + unat len"
    "\<not> v6 \<Longrightarrow> unat (network_to_host16 (mem16 h' 16)) = 40 + out_opt_len flags t + unat len" "\<not> v6 \<Longrightarrow> h' 14 = 0x45"
    "unat (data_offset_words v6 h') = 5 + out_opt_len flags t div 4"
proof -
  let ?o = "out_opt_len flags t"
  let ?h1 = "write_tcp v6 ?o flags t (update_window (settle_flags t)) (write_l3 v6 ?o len t h)"
  have le: "unat len + ?o \<le> 65495" using clamp_payload_le(1) [OF out_opt_len_bound(1)] prepared(1) [OF assms] by simp
  have u: "unat (of_nat k + of_nat ?o + len :: u32) = k + ?o + unat len" if "k \<le> 40" for k
    using le that by (simp add: unat_word_ariths unat_of_nat take_bit_nat_def)
  have eq: "h' i = write_l3 v6 ?o len t h i" if "i < tcp_base v6" for i
    using prepared_header [OF assms, of i] write_tcp_other [OF that] that by simp
  have "mem16 h' 18 = mem16 (write_l3 v6 ?o len t h) 18" "mem16 h' 16 = mem16 (write_l3 v6 ?o len t h) 16" "h' 14 = write_l3 v6 ?o len t h 14"
    by (intro mem_cong eq; simp add: tcp_base_def)+
  then show "v6 \<Longrightarrow> unat (network_to_host16 (mem16 h' 18)) = 20 + ?o + unat len" "\<not> v6 \<Longrightarrow> unat (network_to_host16 (mem16 h' 16)) = 40 + ?o + unat len"
    "\<not> v6 \<Longrightarrow> h' 14 = 0x45"
    using u [of 20] u [of 40] le by (simp_all add: write_l3_fields network_to_host16_def byteswap_involutive unsigned_ucast_eq take_bit_nat_eq_self)
  have "h' (tcp_base v6 + 12) = push_bit 4 (of_nat ((20 + ?o) div 4))"
    using prepared_header [OF assms, of "tcp_base v6 + 12"] write_tcp_fields(3) by simp
  then show "unat (data_offset_words v6 h') = 5 + ?o div 4"
    using data_offset_back [OF out_opt_len_bound] by (simp add: data_offset_words_def tcp_base_def split: if_splits)
qed

lemma prepared_payload_length:
  assumes "prepare_outbound_header v6 n flags (t, h) = (len, t', h')"
  shows "get_payload_length v6 h' = len"
proof -
  let ?o = "out_opt_len flags t"
  have le: "unat len + ?o \<le> 65495" using clamp_payload_le(1) [OF out_opt_len_bound(1)] prepared(1) [OF assms] by simp
  have d: "unat (ucast (data_offset_words v6 h') * 4 :: u32) = 20 + ?o"
    using prepared_lengths(4) [OF assms] out_opt_len_bound [of flags t]
    by (auto simp: unat_word_ariths unsigned_ucast_eq take_bit_nat_def elim!: dvdE)
  have s: "(if b < a then a - b else 0) = len" if "unat a = unat b + unat len" for a b :: u32
    using that by (auto simp: word_less_nat_alt unat_sub word_le_nat_alt intro!: word_unat_eq_iff [THEN iffD2] simp del: unat_eq_zero)
  show ?thesis
  proof (cases v6)
    case True
    then have "unat (ucast (network_to_host16 (mem16 h' 18)) :: u32) = unat (ucast (data_offset_words True h') * 4 :: u32) + unat len"
      using prepared_lengths(1) [OF assms] d le by (simp add: unsigned_ucast_eq take_bit_nat_eq_self)
    then show ?thesis using True s by (simp add: get_payload_length_def Let_def)
  next
    case False
    then have "unat (ucast ((h' 14 AND 0x0F) * 4) + ucast (data_offset_words False h') * 4 :: u32) = 40 + ?o"
      using prepared_lengths(3) [OF assms] d le by (simp add: unat_word_ariths)
    then have "unat (ucast (network_to_host16 (mem16 h' 16)) :: u32) = unat (ucast ((h' 14 AND 0x0F) * 4) + ucast (data_offset_words False h') * 4 :: u32) + unat len"
      using False prepared_lengths(2) [OF assms] le by (simp add: unsigned_ucast_eq take_bit_nat_eq_self)
    then show ?thesis using False s by (simp add: get_payload_length_def Let_def)
  qed
qed

text \<open>(C24) What is written is what the other side reads: the receiving half of the engine, on the
  header that the sending half has prepared, for IPv4 and IPv6, any flags, options and state, finds the
  sequence number, the acknowledgement, the flags, the window and the length of the options that were
  meant, and the length of the payload, which is cut only where the packet would be too long.\<close>

theorem outbound_header_roundtrip:
  assumes "prepare_outbound_header v6 n flags (t, h) = (len, t', h')" "in_hdr I = h'" "in_v6 I = v6"
  shows "in_seq I = out_seq t \<and> in_ack I = rcv_nxt t \<and> in_flags I = out_flags flags t
    \<and> host_to_network16 (in_wnd I) = advertised_window (drop_bit (unat (rcv_wscale (update_window (settle_flags t)))) (rcv_wnd (update_window (settle_flags t))))
    \<and> unat (in_data_offset I) = 5 + out_opt_len flags t div 4
    \<and> get_payload_length v6 h' = len \<and> len = clamp_payload (out_opt_len flags t) n"
proof -
  let ?h1 = "write_tcp v6 (out_opt_len flags t) flags t (update_window (settle_flags t)) (write_l3 v6 (out_opt_len flags t) len t h)"
  let ?b = "tcp_base v6"
  have eq: "h' k = ?h1 k" if "k < ?b + 16" for k using prepared_header [OF assms(1), of k] that by simp
  have m: "mem32 h' (?b + 4) = mem32 ?h1 (?b + 4)" "mem32 h' (?b + 8) = mem32 ?h1 (?b + 8)" "mem16 h' (?b + 14) = mem16 ?h1 (?b + 14)"
    by (intro mem_cong eq; simp)+
  have f: "in_seq I = network_to_host32 (mem32 h' (?b + 4))" "in_ack I = network_to_host32 (mem32 h' (?b + 8))" "in_flags I = h' (?b + 13)"
    "in_wnd I = network_to_host16 (mem16 h' (?b + 14))" "in_data_offset I = data_offset_words v6 h'"
    using assms(2,3) by (simp_all add: in_seq_def in_ack_def in_flags_def in_wnd_def in_data_offset_def data_offset_words_def tcp_base_def)
  show ?thesis
    using m write_tcp_fields [of v6 "out_opt_len flags t" flags t "update_window (settle_flags t)" "write_l3 v6 (out_opt_len flags t) len t h"]
      eq [of "?b + 13"] prepared_lengths(4) [OF assms(1)] prepared_payload_length [OF assms(1)] prepared(1) [OF assms(1)]
    by (simp add: f network_to_host32_def network_to_host16_def host_to_network16_def byteswap_involutive)
qed


subsection \<open>Checksums\<close>

lemma checksum_filled_init:
  assumes "even i" "i + 2 \<le> length bytes" "take 2 (drop i bytes) = [0, 0]"
  shows "compute_checksum False (take i bytes @ le_bytes 2 (compute_checksum False bytes s) @ drop (i + 2) bytes) s = 0"
proof -
  let ?c = "compute_checksum False bytes s" and ?n = "unat s + wsum bytes"
  have "unat (of_nat (oc ?n) :: u16) = oc ?n" using oc_bounds(1) [of ?n] by (simp add: unat_of_nat take_bit_nat_def)
  then have c: "unat ?c = 65535 - oc ?n" by (simp add: compute_checksum_sum unat_not_u16)
  have w: "unat s + wsum (take i bytes @ le_bytes 2 ?c @ drop (i + 2) bytes) = ?n + (65535 - oc ?n)" (is "unat s + wsum ?b = _")
    using wsum_fill [OF assms(1,2), of ?c] c assms(3) by simp
  have "oc (oc ?n + (65535 - oc ?n)) = 65535" using oc_bounds(1) [of ?n] by (simp add: oc_def)
  then have "oc (unat s + wsum ?b) = 65535" using oc_add [OF oc_oc, of ?n "65535 - oc ?n"] unfolding w by simp
  then show ?thesis by (simp add: compute_checksum_sum)
qed

lemma fill_checksum:
  assumes "even k" "k + 2 \<le> n" "h (b + k) = 0" "h (b + k + 1) = 0"
  shows "compute_checksum False (map (put_bytes h (b + k) (le_bytes 2 (compute_checksum False (map h [b..<b + n]) s))) [b..<b + n]) s = 0"
proof -
  have "take 2 (drop k (map h [b..<b + n])) = [0, 0]"
    using assms by (intro nth_equalityI) (auto simp: less_Suc_eq numeral_2_eq_2 add.assoc)
  then show ?thesis using checksum_filled_init [of k "map h [b..<b + n]" s] assms(1,2) by (simp add: map_put_bytes)
qed

lemma pseudo_sum_cong:
  assumes "\<And>i. i < tcp_base v6 \<Longrightarrow> h i = h' i"
  shows "pseudo_sum v6 L h = pseudo_sum v6 L h'"
proof (cases v6)
  case True
  have "mem16 h (22 + 2 * i) = mem16 h' (22 + 2 * i)" "mem16 h (38 + 2 * i) = mem16 h' (38 + 2 * i)" if "i < 8" for i
    using True that by (intro mem_cong assms; simp add: tcp_base_def)+
  then have "fold (\<lambda>i s. s + ucast (mem16 h (22 + 2 * i))) [0..<8] (0 :: u32) = fold (\<lambda>i s. s + ucast (mem16 h' (22 + 2 * i))) [0..<8] 0"
    "fold (\<lambda>i s. s + ucast (mem16 h (38 + 2 * i))) [0..<8] (s :: u32) = fold (\<lambda>i s. s + ucast (mem16 h' (38 + 2 * i))) [0..<8] s" for s
    by (intro fold_cong; simp)+
  with True show ?thesis by (simp add: pseudo_sum_def)
next
  case False
  then have "mem32 h 26 = mem32 h' 26" "mem32 h 30 = mem32 h' 30" by (intro mem_cong assms; simp add: tcp_base_def)+
  with False show ?thesis by (simp add: pseudo_sum_def)
qed

lemma l3_checksum: "compute_checksum False (map (write_l3 False opt_len len t h) [14..<34]) 0 = 0"
proof -
  define h6 where "h6 = put_bytes (put_bytes (put_bytes (put_bytes (put_bytes (put_bytes (put_bytes h 0 (target_mac t))
    12 (le_bytes 2 (network_to_host16 0x0800))) 14 [0x45, if ecn_permitted t \<noteq> 0 then 0x02 else 0])
    16 (le_bytes 2 (network_to_host16 (ucast (40 + of_nat opt_len + len)))))
    18 (le_bytes 2 (0 :: u16) @ le_bytes 2 (network_to_host16 0x4000) @ [64, 6])) 26 (le_bytes 4 (local_ipv4 t) @ le_bytes 4 (remote_ipv4 t)))
    24 (le_bytes 2 (0 :: u16))"
  have "write_l3 False opt_len len t h = put_bytes h6 24 (le_bytes 2 (compute_checksum False (map h6 [14..<34]) 0))"
    by (simp add: write_l3_def h6_def Let_def)
  moreover have "h6 24 = 0" "h6 25 = 0" by (simp_all add: h6_def put_bytes_def nth_le_bytes)
  ultimately show ?thesis using fill_checksum [of 10 20 h6 14 0] by simp
qed

lemma tcp_checksum:
  assumes "p \<or> len = 0" "unat len + opt_len \<le> 65495"
  shows "compute_checksum False (map (write_checksum v6 p len opt_len h) [tcp_base v6..<tcp_base v6 + (20 + opt_len + unat len)])
    (pseudo_sum v6 (of_nat (20 + opt_len + unat len)) (write_checksum v6 p len opt_len h)) = 0"
proof -
  let ?b = "tcp_base v6" and ?n = "20 + opt_len + unat len"
  define h1 where "h1 = (if p \<and> 0 < len then put_bytes h (?b + 20 + opt_len) (replicate (unat len) 0) else h)"
  define h2 where "h2 = put_bytes h1 (?b + 16) (le_bytes 2 (0 :: u16))"
  let ?s = "pseudo_sum v6 (of_nat ?n) h1"
  have L: "ucast (20 + of_nat opt_len + len :: u32) = (of_nat ?n :: u16)"
  proof -
    have "(20 + of_nat opt_len + len :: u32) = of_nat ?n" by simp
    then have "ucast (20 + of_nat opt_len + len :: u32) = (ucast (of_nat ?n :: u32) :: u16)" by (simp only:)
    also have "\<dots> = of_nat ?n" by (simp only: unsigned_of_nat word_of_nat_eq_iff take_bit_take_bit) simp
    finally show ?thesis .
  qed
  have n: "unat (of_nat ?n :: u16) = ?n" by (rule unat_of_nat_u16) (use assms(2) in simp)
  have w: "write_checksum v6 p len opt_len h = put_bytes h2 (?b + 16) (le_bytes 2 (compute_checksum False (map h2 [?b..<?b + ?n]) ?s))"
    using assms(1) unfolding write_checksum_def Let_def tcp_base_def [symmetric] h1_def [symmetric] h2_def [symmetric] L n by (simp only: if_True)
  have z: "h2 (?b + 16) = 0" "h2 (?b + 16 + 1) = 0" by (simp_all add: h2_def put_bytes_def nth_le_bytes)
  have "pseudo_sum v6 (of_nat ?n) (write_checksum v6 p len opt_len h) = ?s"
    by (rule pseudo_sum_cong) (simp add: w h2_def put_bytes_other)
  with fill_checksum [of 16 ?n h2 ?b ?s] z show ?thesis by (simp add: w)
qed

text \<open>The pseudo header of RFC 793 and of RFC 8200 as bytes: the addresses of the frame, the protocol
  and the length of the segment in network byte order.\<close>

definition tcp_pseudo_header :: "bool \<Rightarrow> nat \<Rightarrow> memory \<Rightarrow> u8 list" where
  "tcp_pseudo_header v6 L h =
     (if v6 then map h [22..<54] @ rev (le_bytes 4 (of_nat L :: u32)) @ [0, 0, 0, 6]
      else map h [26..<34] @ [0, 6] @ rev (le_bytes 2 (of_nat L :: u16)))"

text \<open>The code's sum of the pseudo header is the sum of its 16-bit words.\<close>

abbreviation byte_pair :: "u8 \<Rightarrow> u8 \<Rightarrow> nat" where
  "byte_pair a b \<equiv> unat a + 256 * unat b"

lemma pair_less: "byte_pair a b < 65536"
  using unat_u8 [of a] unat_u8 [of b] by linarith

lemma word_of_pair: "(ucast (le_word [a, b] :: u16) :: u32) = of_nat (byte_pair a b)"
  by (metis unat_le_word2 of_nat_unat)

lemma word_of_pairs: "(le_word [a, b, c, d] :: u32) = of_nat (byte_pair a b + 65536 * byte_pair c d)"
proof -
  have add: "(ucast x OR push_bit 8 w :: u32) = ucast x + 256 * w" for x :: u8 and w :: u32
  proof -
    have "(ucast x OR push_bit 8 w :: u32) = ucast x + push_bit 8 w"
      by (subst disjunctive_add) (auto simp: bit_simps dest: bit_imp_le_length)
    then show ?thesis by (simp add: push_bit_eq_mult mult.commute)
  qed
  show ?thesis by (simp add: add algebra_simps)
qed

lemma word_halves:
  "(le_word [a, b, c, d] AND 0xFFFF :: u32) = of_nat (byte_pair a b)" "(drop_bit 16 (le_word [a, b, c, d]) :: u32) = of_nat (byte_pair c d)"
proof -
  have lt: "byte_pair a b + 65536 * byte_pair c d < 2 ^ 32" using pair_less [of a b] pair_less [of c d] by simp
  have u: "unat (le_word [a, b, c, d] :: u32) = byte_pair a b + 65536 * byte_pair c d"
    unfolding word_of_pairs by (rule unat_of_nat_u32 [OF lt])
  have m: "(byte_pair a b + 65536 * byte_pair c d) mod 2 ^ 16 = byte_pair a b" "(byte_pair a b + 65536 * byte_pair c d) div 2 ^ 16 = byte_pair c d"
    using mod_mult_self2 [of "byte_pair a b" 65536 "byte_pair c d"] div_mult_self2 [of 65536 "byte_pair a b" "byte_pair c d"] pair_less [of a b] by simp_all
  have "(0xFFFF :: u32) = mask 16" by (simp add: mask_eq_exp_minus_1)
  then have "unat (le_word [a, b, c, d] AND 0xFFFF :: u32) = byte_pair a b"
    using m by (simp only: take_bit_eq_mask [symmetric] unsigned_take_bit_eq u take_bit_nat_def)
  then show "(le_word [a, b, c, d] AND 0xFFFF :: u32) = of_nat (byte_pair a b)" by (metis of_nat_unat ucast_id)
  have "unat (drop_bit 16 (le_word [a, b, c, d]) :: u32) = byte_pair c d"
    unfolding unat_drop_bit_eq u using m by (simp only: drop_bit_eq_div)
  then show "(drop_bit 16 (le_word [a, b, c, d]) :: u32) = of_nat (byte_pair c d)" by (metis of_nat_unat ucast_id)
qed

lemma length_bytes:
  assumes "L \<le> 65535"
  shows "le_bytes 2 (of_nat L :: u16) = [of_nat L, of_nat (L div 256)]" "le_bytes 4 (of_nat L :: u32) = [of_nat L, of_nat (L div 256), 0, 0]"
proof -
  have a: "drop_bit 8 (of_nat L :: u16) = of_nat (L div 256)" "drop_bit 8 (of_nat L :: u32) = of_nat (L div 256)"
    "drop_bit 8 (of_nat (L div 256) :: u32) = 0"
    using assms unfolding word_unat_eq_iff unat_drop_bit_eq by (simp_all add: drop_bit_eq_div unat_of_nat take_bit_nat_def div_less_iff_less_mult)
  have c: "ucast (of_nat n :: u16) = (of_nat n :: u8)" "ucast (of_nat n :: u32) = (of_nat n :: u8)" for n
    by (simp_all add: word_unat_eq_iff unsigned_ucast_eq unat_of_nat take_bit_nat_def mod_mod_cancel)
  have n: "(2 :: nat) = Suc (Suc 0)" "(4 :: nat) = Suc (Suc (Suc (Suc 0)))" by simp_all
  show "le_bytes 2 (of_nat L :: u16) = [of_nat L, of_nat (L div 256)]" "le_bytes 4 (of_nat L :: u32) = [of_nat L, of_nat (L div 256), 0, 0]"
    by (simp_all only: n le_bytes.simps a c drop_bit_of_0 unsigned_0)
qed

lemma length_word: "(ucast (host_to_network16 (of_nat L)) :: u32) = of_nat (byte_pair (of_nat (L div 256)) (of_nat L))" if "L \<le> 65535"
proof -
  have "(of_nat L :: u16) = le_word [of_nat L, of_nat (L div 256)]"
    using le_word_bytes [of 2 "of_nat L :: u16"] length_bytes(1) [OF that] by simp
  then have "host_to_network16 (of_nat L) = le_word [of_nat (L div 256), of_nat L]"
    using byteswap16_rev [of "[of_nat L, of_nat (L div 256)]"] by (simp add: host_to_network16_def network_to_host16_def del: le_word.simps)
  then show ?thesis by (simp only: word_of_pair)
qed

lemma pseudo_sum_bytes:
  assumes "L \<le> 65535"
  shows "unat (pseudo_sum v6 (of_nat L) h) = wsum (tcp_pseudo_header v6 L h)"
proof -
  have p6: "(ucast (host_to_network16 6) :: u32) = of_nat (byte_pair 0 6)" using length_word [of 6] by simp
  show ?thesis
  proof (cases v6)
    case True
    have "pseudo_sum v6 (of_nat L) h = of_nat (wsum (tcp_pseudo_header v6 L h))"
      using True p6 length_word [OF assms] length_bytes(2) [OF assms]
      by (simp add: pseudo_sum_def tcp_pseudo_header_def mem16_def word_of_pair upt_rec del: le_word.simps)
    moreover have "wsum (tcp_pseudo_header v6 L h) < 2 ^ 32"
      using wsum_bound [of "tcp_pseudo_header v6 L h"] True by (simp add: tcp_pseudo_header_def)
    ultimately show ?thesis using unat_of_nat_u32 by simp
  next
    case False
    have "pseudo_sum v6 (of_nat L) h = of_nat (wsum (tcp_pseudo_header v6 L h))"
      using False p6 length_word [OF assms] length_bytes(1) [OF assms]
      by (simp add: pseudo_sum_def tcp_pseudo_header_def pseudo_header_sum_def mem32_def word_halves upt_rec del: le_word.simps)
    moreover have "wsum (tcp_pseudo_header v6 L h) < 2 ^ 32"
      using wsum_bound [of "tcp_pseudo_header v6 L h"] False by (simp add: tcp_pseudo_header_def)
    ultimately show ?thesis using unat_of_nat_u32 by simp
  qed
qed

lemma pseudo_checksum:
  assumes "L \<le> 65535"
  shows "compute_checksum False bytes (pseudo_sum v6 (of_nat L) h) = rfc1071 (tcp_pseudo_header v6 L h @ bytes) 0"
proof -
  let ?p = "tcp_pseudo_header v6 L h"
  have "even (length ?p)" by (simp add: tcp_pseudo_header_def)
  then have "wsum (?p @ bytes) = wsum ?p + wsum bytes" using wsum_split [of "length ?p" "?p @ bytes"] by simp
  then show ?thesis using pseudo_sum_bytes [OF assms] by (simp add: compute_checksum_sum(1) rfc1071_sum)
qed

text \<open>(C25) The checksums of an outbound frame are right. The header checksum of every IPv4 frame
  verifies. When the segment is empty or a keep-alive probe, so does its TCP checksum, over the
  segment and the pseudo header of RFC 793 or RFC 8200; those of the other segments are left to the
  network card.\<close>

theorem control_frame_checksums:
  assumes "prepare_outbound_header v6 n flags (t, h) = (len, t', h')"
  shows "(v6 \<or> rfc1071 (map h' [14..<34]) 0 = 0)
    \<and> (is_probe t \<or> n = 0 \<longrightarrow> (let L = 20 + out_opt_len flags t + unat len
        in rfc1071 (tcp_pseudo_header v6 L h' @ map h' [tcp_base v6..<tcp_base v6 + L]) 0 = 0))"
proof -
  have le: "unat len + out_opt_len flags t \<le> 65495" using clamp_payload_le(1) [OF out_opt_len_bound(1)] prepared(1) [OF assms(1)] by simp
  have "len \<le> n" using clamp_payload_le(2) [OF out_opt_len_bound(1)] prepared(1) [OF assms(1)] by simp
  then have p: "is_probe t \<or> len = 0" if "is_probe t \<or> n = 0" using that by auto
  obtain h1 where h': "h' = write_checksum v6 (is_probe t) len (out_opt_len flags t) h1" using prepared(2) [OF assms(1)] by blast
  have eq: "h' i = write_l3 v6 (out_opt_len flags t) len t h i" if "i < tcp_base v6" for i
    using prepared_header [OF assms(1), of i] write_tcp_other [OF that] that by simp
  have "\<not> v6 \<Longrightarrow> map h' [14..<34] = map (write_l3 v6 (out_opt_len flags t) len t h) [14..<34]" using eq by (intro map_cong) (auto simp: tcp_base_def)
  then have "v6 \<or> compute_checksum False (map h' [14..<34]) 0 = 0" using l3_checksum by metis
  then have "v6 \<or> rfc1071 (map h' [14..<34]) 0 = 0" by (simp add: compute_checksum_sum(1) rfc1071_sum)
  moreover have "20 + out_opt_len flags t + unat len \<le> 65535" using le by simp
  note pseudo_checksum [OF this, symmetric]
  ultimately show ?thesis using tcp_checksum [OF p le, of v6 h1] h' unfolding Let_def by simp
qed


subsection \<open>Zero-window probes\<close>

lemma send_state:
  "snd_nxt (update_window t) = snd_nxt t" "tx_unacked_ring (update_window t) = tx_unacked_ring t" "flags_pending (update_window t) = flags_pending t"
  "snd_nxt (settle_flags t) = snd_nxt t" "tx_unacked_ring (settle_flags t) = tx_unacked_ring t" "flags_pending (settle_flags t) = flags_pending t"
  "snd_nxt (tick_ts t) = snd_nxt t" "tx_unacked_ring (tick_ts t) = tx_unacked_ring t" "flags_pending (tick_ts t) = flags_pending t"
  by (simp_all add: update_window_def settle_flags_def tick_ts_def Let_def split: option.split prod.split)

lemma prepared_state:
  assumes "prepare_outbound_header v6 n flags (t, h) = (len, t', h')"
  shows "snd_nxt t' = (if is_probe t then snd_nxt t else snd_nxt t + (len + (if has flags (FLAG_SYN OR FLAG_FIN) then 1 else 0)))"
    "tx_unacked_ring t' = tx_unacked_ring t" "flags_pending t' = flags_pending t"
  using prepared(2) [OF assms] by (auto simp: send_state)

lemma prepared_seq:
  assumes "prepare_outbound_header v6 n flags (t, h) = (len, t', h')"
  shows "network_to_host32 (mem32 h' (tcp_base v6 + 4)) = out_seq t"
proof -
  let ?h1 = "write_tcp v6 (out_opt_len flags t) flags t (update_window (settle_flags t)) (write_l3 v6 (out_opt_len flags t) len t h)"
  have "h' k = ?h1 k" if "k < tcp_base v6 + 16" for k using prepared_header [OF assms(1), of k] that by simp
  then have "mem32 h' (tcp_base v6 + 4) = mem32 ?h1 (tcp_base v6 + 4)" by (intro mem_cong) simp_all
  then show ?thesis by (simp add: write_tcp_fields network_to_host32_def byteswap_involutive)
qed

lemma get_payload_length_cong:
  assumes "\<And>i. i < 54 \<or> v6 \<Longrightarrow> h i = h' i"
  shows "get_payload_length v6 h = get_payload_length v6 h'"
proof -
  have "mem16 h 18 = mem16 h' 18" "mem16 h 16 = mem16 h' 16" "h 14 = h' 14" by (intro mem_cong assms; simp)+
  moreover have "data_offset_words v6 h = data_offset_words v6 h'" using assms [of 66] assms [of 46] by (simp add: data_offset_words_def)
  ultimately show ?thesis by (cases v6) (simp_all add: get_payload_length_def)
qed

lemma set_payload_length_keeps:
  assumes "i < 54 \<or> v6" "5 \<le> unat (data_offset_words v6 (bf_data B b))"
  shows "bf_data (set_payload_length b n v6 B) b i = bf_data B b i"
proof -
  let ?h = "of_nat (get_payload v6 (bf_data B b)) :: u32"
  have "unat (data_offset_words v6 (bf_data B b)) < 256" by (rule unat_u8)
  then have l: "get_payload v6 (bf_data B b) \<le> 1100" by (cases v6) (simp_all add: get_payload_def)
  have "unat (of_nat k :: u32) = k" if "k \<le> 1100" for k using that by (simp add: unat_of_nat take_bit_nat_def)
  from this [OF l] l have h: "unat ?h = get_payload v6 (bf_data B b)" "get_payload v6 (bf_data B b) \<le> 1100" .
  have g: "54 \<le> get_payload v6 (bf_data B b)" "v6 \<Longrightarrow> 74 \<le> get_payload v6 (bf_data B b)" using assms(2) by (cases v6; simp add: get_payload_def)+
  define m where "m = (if 65535 - ?h < n then 65535 - ?h else n)"
  have d: "unat (65535 - ?h) = 65535 - unat ?h" using h by (simp add: unat_sub word_le_nat_alt)
  then have "unat m \<le> 65535 - unat ?h" by (simp add: m_def word_less_nat_alt)
  then have t: "unat (?h + m) = unat ?h + unat m" using h by (simp add: unat_word_ariths)
  have "i < unat (?h + m) \<or> \<not> ?h + m < 60" using assms(1) g h(1) t by (auto simp: word_less_nat_alt)
  then show ?thesis unfolding set_payload_length_def Let_def m_def [symmetric] by (auto simp: frame_write_def put_bytes_other)
qed

lemma clamp_one: "opt_len \<le> 40 \<Longrightarrow> clamp_payload opt_len 1 = 1"
proof -
  assume "opt_len \<le> 40"
  then have "unat (65535 - 40 - of_nat opt_len :: u32) = 65495 - opt_len" by (simp add: unat_sub word_le_nat_alt unat_of_nat take_bit_nat_def)
  then show ?thesis using \<open>opt_len \<le> 40\<close> by (simp add: clamp_payload_def Let_def word_less_nat_alt)
qed

text \<open>(C40) A zero-window probe damages the stream: when the persist timer has asked for a byte and
  nothing else is pending, a segment with one byte of payload is sent at the next sequence number
  and counted as sent, though it is no byte of the stream, and it is not kept for retransmission.\<close>

theorem zero_window_probe_counts:
  assumes "tx_egress_conduit t = Some e" "tx_mbuf_pool t" "flags_pending t = FLAG_ACK" "control_payload_len t = 1" "\<not> is_probe t"
    "pktmbuf_alloc D (bf_pool B) = (b, pool)" "b \<noteq> 0" "dispatch_control_frames D (t, B) = (t', B')"
  shows "snd_nxt t' = snd_nxt t + 1 \<and> tx_unacked_ring t' = tx_unacked_ring t
    \<and> network_to_host32 (mem32 (bf_data B' b) (tcp_base (is_ipv6 t \<noteq> 0) + 4)) = snd_nxt t
    \<and> get_payload_length (is_ipv6 t \<noteq> 0) (bf_data B' b) = 1"
proof -
  let ?v6 = "is_ipv6 t \<noteq> 0" and ?t = "t\<lparr>control_payload_len := 0\<rparr>"
  let ?B2 = "frame_write b 0 (replicate ((if ?v6 then 128 else 64) + unat (1 :: u32)) 0) (B\<lparr>bf_pool := pool\<rparr>)"
  obtain len t1 h where p: "prepare_outbound_header ?v6 1 FLAG_ACK (?t, bf_data ?B2 b) = (len, t1, h)" by (metis prod_cases3)
  let ?B3 = "?B2\<lparr>bf_data := (bf_data ?B2)(b := h)\<rparr>"
  have fl: "FLAG_ACK \<noteq> 0" "\<not> has FLAG_ACK FLAG_RST" "\<not> has FLAG_ACK (FLAG_SYN OR FLAG_FIN)" by (simp_all add: has_def tcp_flag_defs)
  have pr: "\<not> is_probe ?t" using assms(5) by (simp add: is_probe_def)
  have len: "len = 1" using prepared(1) [OF p] clamp_one [OF out_opt_len_bound(1)] by simp
  have n: "snd_nxt t1 = snd_nxt t + 1" "tx_unacked_ring t1 = tx_unacked_ring t" "flags_pending t1 = FLAG_ACK"
    using prepared_state [OF p] pr len fl assms(3) by simp_all
  have r: "t' = t1\<lparr>tx_egress_conduit := tx_egress_conduit t', flags_pending := 0\<rparr>" "B' = set_payload_length b len ?v6 ?B3"
    using assms(1-4,6-8) fl p n(3) by (auto simp: dispatch_control_frames_def send_control_def prepare_outbound_def track_control_def Let_def)
  have eq: "bf_data B' b i = h i" if "i < 54 \<or> ?v6" for i
    using set_payload_length_keeps [of i ?v6 ?B3 b len] prepared_lengths(4) [OF p] that by (simp add: r(2))
  have "network_to_host32 (mem32 h (tcp_base ?v6 + 4)) = snd_nxt t"
    using prepared_seq [OF p] pr by (simp add: out_seq_def is_probe_def)
  moreover have "mem32 (bf_data B' b) (tcp_base ?v6 + 4) = mem32 h (tcp_base ?v6 + 4)" by (intro mem_cong eq) (auto simp: tcp_base_def)
  moreover have "get_payload_length ?v6 (bf_data B' b) = get_payload_length ?v6 h" by (rule get_payload_length_cong) (auto intro: eq)
  moreover have "snd_nxt t' = snd_nxt t1" "tx_unacked_ring t' = tx_unacked_ring t1" by (subst r(1), simp)+
  ultimately show ?thesis using n len prepared_payload_length [OF p] prepared(1) [OF p] by simp
qed


subsection \<open>The options of a handshake\<close>

definition agreed :: "tcb \<Rightarrow> tcb" where
  "agreed t = t\<lparr>remote_mss := 1460, snd_wscale := 7, rcv_wscale := 7, sack_permitted := 1\<rparr>"

lemma parse_option:
  assumes "has (in_flags I) FLAG_SYN" "in_hdr I p = kind" "kind \<notin> {0, 1}" "in_hdr I p1 = l" "p1 = p + 1" "unat l = len" "2 \<le> len" "q = p + len" "n = len + k"
  shows "parse_options I p n f = parse_options I q k (upd_tcb (syn_option (in_hdr I) p kind len) f)"
  using assms by (subst parse_options.simps) (simp add: Let_def)

lemma parse_nop: "in_hdr I p = 1 \<Longrightarrow> q = p + 1 \<Longrightarrow> n = Suc k \<Longrightarrow> parse_options I p n f = parse_options I q k f"
  by (subst parse_options.simps) (simp add: Let_def)

lemma parse_end: "parse_options I p 0 f = Inr f"
  by (subst parse_options.simps) (simp add: Let_def)

lemma length_syn_options: "length syn_option_bytes = 12"
  by (simp add: syn_option_bytes_def)

lemma parse_syn_options:
  assumes s: "has (in_flags I) FLAG_SYN" and "\<forall>j<12. in_hdr I (p + j) = syn_option_bytes ! j"
  shows "parse_options I p (12 + k) f = parse_options I (p + 12) k (upd_tcb agreed f)"
proof -
  have b: "in_hdr I p = 2" "in_hdr I (p + 1) = 4" "in_hdr I (p + 2) = 5" "in_hdr I (p + 3) = 0xB4" "in_hdr I (p + 4) = 1" "in_hdr I (p + 5) = 3"
    "in_hdr I (p + 6) = 3" "in_hdr I (p + 7) = 7" "in_hdr I (p + 8) = 4" "in_hdr I (p + 9) = 2" "in_hdr I (p + 10) = 1" "in_hdr I (p + 11) = 1"
    using assms(2) [rule_format, of 0] assms(2) [rule_format, of 1] assms(2) [rule_format, of 2] assms(2) [rule_format, of 3]
      assms(2) [rule_format, of 4] assms(2) [rule_format, of 5] assms(2) [rule_format, of 6] assms(2) [rule_format, of 7]
      assms(2) [rule_format, of 8] assms(2) [rule_format, of 9] assms(2) [rule_format, of 10] assms(2) [rule_format, of 11]
    by (simp_all add: syn_option_bytes_def)
  let ?m = "\<lambda>t :: tcb. t\<lparr>remote_mss := 1460\<rparr>" and ?w = "\<lambda>t :: tcb. t\<lparr>snd_wscale := 7, rcv_wscale := 7\<rparr>" and ?s = "\<lambda>t :: tcb. t\<lparr>sack_permitted := 1\<rparr>"
  have o: "syn_option (in_hdr I) p 2 4 = ?m" "syn_option (in_hdr I) (p + 8) 4 2 = ?s" using b by (simp_all add: fun_eq_iff syn_option_def)
  have "syn_option h q 3 3 = ?w" if "h (q + 2) = 7" for h q using that by (simp add: fun_eq_iff syn_option_def)
  from this [of "in_hdr I" "p + 5"] have w: "syn_option (in_hdr I) (p + 5) 3 3 = ?w" using b(8) by (simp only: add.assoc) simp
  have "parse_options I p (12 + k) f = parse_options I (p + 4) (8 + k) (upd_tcb ?m f)"
    unfolding o(1) [symmetric] by (rule parse_option [OF s b(1) _ b(2)]) simp_all
  also have "\<dots> = parse_options I (p + 5) (7 + k) (upd_tcb ?m f)" by (rule parse_nop [OF b(5)]) simp_all
  also have "\<dots> = parse_options I (p + 8) (4 + k) (upd_tcb ?w (upd_tcb ?m f))"
    unfolding w [symmetric] by (rule parse_option [OF s b(6) _ b(7)]) simp_all
  also have "\<dots> = parse_options I (p + 10) (2 + k) (upd_tcb ?s (upd_tcb ?w (upd_tcb ?m f)))"
    unfolding o(2) [symmetric] by (rule parse_option [OF s b(9) _ b(10)]) simp_all
  also have "\<dots> = parse_options I (p + 11) (1 + k) (upd_tcb ?s (upd_tcb ?w (upd_tcb ?m f)))" by (rule parse_nop [OF b(11)]) simp_all
  also have "\<dots> = parse_options I (p + 12) k (upd_tcb ?s (upd_tcb ?w (upd_tcb ?m f)))" by (rule parse_nop [OF b(12)]) simp_all
  also have "upd_tcb ?s (upd_tcb ?w (upd_tcb ?m f)) = upd_tcb agreed f" by (simp add: upd_tcb_def agreed_def)
  finally show ?thesis .
qed

lemma parse_ts_in_syn:
  assumes "has (in_flags I) FLAG_SYN" "in_hdr I p = 1" "in_hdr I (p + 1) = 1" "in_hdr I (p + 2) = 8" "in_hdr I (p + 3) = 10"
  shows "parse_options I p 12 f = Inr f"
proof -
  have "parse_options I p 12 f = parse_options I (p + 1) 11 f" by (rule parse_nop [OF assms(2)]) simp_all
  also have "\<dots> = parse_options I (p + 2) 10 f" by (rule parse_nop [OF assms(3)]) simp_all
  also have "\<dots> = parse_options I (p + 12) 0 (upd_tcb (syn_option (in_hdr I) (p + 2) 8 10) f)"
    by (rule parse_option [OF assms(1,4) _ assms(5)]) simp_all
  also have "upd_tcb (syn_option (in_hdr I) (p + 2) 8 10) f = f" by (simp add: upd_tcb_def syn_option_def)
  finally show ?thesis by (simp add: parse_end)
qed

text \<open>(C26) The options of a SYN survive the wire: the other side takes the segment size, the window
  shift and the permission for selective acknowledgements from the bytes that were written for them,
  with or without a timestamp behind them, and nothing else changes.\<close>

theorem syn_options_roundtrip:
  assumes "prepare_outbound_header v6 n flags (t, h) = (len, t', h')" "has flags FLAG_SYN" "in_hdr I = h'" "in_v6 I = v6"
  shows "read_options I f = Inr (upd_tcb agreed f)"
proof -
  let ?b = "tcp_base v6" and ?o = "out_opt_len flags t"
  have n: "num_sack_blocks flags t = 0" using assms(2) by (simp add: num_sack_blocks_def)
  obtain t2 h1 where h': "h' = write_checksum v6 (is_probe t) len ?o (write_options v6 flags ?o 0 t2 h1)" and t2: "ts_permitted t2 = ts_permitted t"
    using prepared(2) [OF assms(1)] n by (auto simp: tick_ts_def update_window_def settle_flags_def Let_def split: option.splits prod.splits)
  have o: "?o = 12 + (if ts_permitted t \<noteq> 0 then 12 else 0)" using assms(2) by (simp add: out_opt_len_eq n)
  have bytes: "h' (?b + 20 + j) = (syn_option_bytes @ (if ts_permitted t \<noteq> 0 then ts_option_bytes t2 else [])) ! j" if "j < ?o" for j
  proof -
    have "length (syn_option_bytes @ (if ts_permitted t \<noteq> 0 then ts_option_bytes t2 else [])) = ?o" by (simp add: o syn_option_bytes_def ts_option_bytes_def)
    then have "write_options v6 flags ?o 0 t2 h1 (?b + 20 + j) = (syn_option_bytes @ (if ts_permitted t \<noteq> 0 then ts_option_bytes t2 else [])) ! j"
      using assms(2) that t2 by (auto simp: write_options_def option_bytes_def tcp_base_def put_bytes_def Let_def)
    then show ?thesis using that by (simp add: h' write_checksum_other)
  qed
  have s: "has (in_flags I) FLAG_SYN"
  proof -
    have "h' (?b + 13) = out_flags flags t" using prepared_header [OF assms(1), of "?b + 13"] write_tcp_fields(4) by simp
    then have "in_flags I = out_flags flags t" using assms(3,4) by (simp add: in_flags_def tcp_base_def split: if_splits)
    moreover have "has (a OR b) FLAG_SYN" if "has a FLAG_SYN" for a b :: u8 using that by (auto simp: has_def bit_eq_iff bit_simps)
    ultimately show ?thesis using assms(2) by (simp add: out_flags_def)
  qed
  have d: "unat (in_data_offset I) = 5 + ?o div 4"
    using prepared_lengths(4) [OF assms(1)] assms(3,4) by (simp add: in_data_offset_def data_offset_words_def split: if_splits)
  have "in_hdr I (?b + 20 + j) = syn_option_bytes ! j" if "j < 12" for j
    using bytes [of j] that o by (simp add: assms(3) nth_append length_syn_options)
  then have p: "parse_options I (?b + 20) (12 + k) f = parse_options I (?b + 20 + 12) k (upd_tcb agreed f)" for k
    by (intro parse_syn_options [OF s]) simp
  have "parse_options I (?b + 20) ?o f = Inr (upd_tcb agreed f)"
  proof (cases "ts_permitted t = 0")
    case True
    then show ?thesis using p [of 0] o by (simp add: parse_end)
  next
    case False
    have "in_hdr I (?b + 20 + 12 + j) = ts_option_bytes t2 ! j" if "j < 12" for j
      using bytes [of "12 + j"] that o False by (simp add: assms(3) nth_append length_syn_options add.assoc)
    from this [of 0] this [of 1] this [of 2] this [of 3] have "parse_options I (?b + 20 + 12) 12 (upd_tcb agreed f) = Inr (upd_tcb agreed f)"
      by (intro parse_ts_in_syn [OF s]) (simp_all add: ts_option_bytes_def)
    then show ?thesis using p [of 12] o False by simp
  qed
  moreover have "5 < in_data_offset I" "(unat (in_data_offset I) - 5) * 4 = ?o" using d o by (auto simp: word_less_nat_alt)
  ultimately show ?thesis using assms(4) by (simp add: read_options_def tcp_base_def split: if_splits)
qed

subsection \<open>A connection that sends\<close>

text \<open>Concrete instances of the theorems: an acknowledgement with 100 bytes, a SYN, and a connection whose
  persist timer has asked for a probe.\<close>

definition received_frame :: "bool \<Rightarrow> memory \<Rightarrow> inbound" where
  "received_frame v6 h = \<lparr>in_v6 = v6, in_hdr = h, in_len = 0, in_mbuf = 0, in_payload_offset = 0, in_absorb = False, in_tsc = 0, in_tv_sec = 0\<rparr>"

definition sending_tcb :: tcb where
  "sending_tcb = fresh_tcb\<lparr>snd_nxt := 1000, rcv_nxt := 2000, tx_egress_conduit := Some (rc_new 4 \<lparr>seg_mbuf = 0, seg_is_sacked = False\<rparr>),
     tx_mbuf_pool := True, flags_pending := FLAG_ACK, control_payload_len := 1\<rparr>"

theorem outbound_header_roundtrip_witness:
  "\<exists>len t' h'. prepare_outbound_header False 100 FLAG_PSH (sending_tcb, \<lambda>_. 0) = (len, t', h')
    \<and> in_seq (received_frame False h') = 1000 \<and> in_ack (received_frame False h') = 2000 \<and> get_payload_length False h' = 100"
proof -
  obtain len t' h' where p: "prepare_outbound_header False 100 FLAG_PSH (sending_tcb, \<lambda>_. 0) = (len, t', h')" by (metis prod_cases3)
  have "out_seq sending_tcb = 1000" "rcv_nxt sending_tcb = 2000" "clamp_payload (out_opt_len FLAG_PSH sending_tcb) 100 = 100" by code_simp+
  then show ?thesis using p outbound_header_roundtrip [OF p, of "received_frame False h'"] by (auto simp: received_frame_def)
qed

theorem control_frame_checksums_witness:
  "\<exists>len t' h'. prepare_outbound_header False 0 FLAG_SYN (sending_tcb, \<lambda>_. 0) = (len, t', h') \<and> rfc1071 (map h' [14..<34]) 0 = 0
    \<and> (let L = 20 + out_opt_len FLAG_SYN sending_tcb + unat len
       in rfc1071 (tcp_pseudo_header False L h' @ map h' [tcp_base False..<tcp_base False + L]) 0 = 0)"
proof -
  obtain len t' h' where p: "prepare_outbound_header False 0 FLAG_SYN (sending_tcb, \<lambda>_. 0) = (len, t', h')" by (metis prod_cases3)
  then show ?thesis using control_frame_checksums [OF p] by blast
qed

theorem syn_options_roundtrip_witness:
  "\<exists>len t' h'. prepare_outbound_header True 0 FLAG_SYN (sending_tcb, \<lambda>_. 0) = (len, t', h')
    \<and> (\<forall>f :: unit flow. read_options (received_frame True h') f = Inr (upd_tcb agreed f))"
proof -
  obtain len t' h' where p: "prepare_outbound_header True 0 FLAG_SYN (sending_tcb, \<lambda>_. 0) = (len, t', h')" by (metis prod_cases3)
  have "has FLAG_SYN FLAG_SYN" by code_simp
  then show ?thesis using p syn_options_roundtrip [OF p, of "received_frame True h'"] by (auto simp: received_frame_def)
qed

theorem zero_window_probe_counts_witness:
  "snd_nxt (fst (dispatch_control_frames plain_dpdk (sending_tcb, snd silent_example))) = 1001
    \<and> network_to_host32 (mem32 (bf_data (snd (dispatch_control_frames plain_dpdk (sending_tcb, snd silent_example))) 1) 38) = 1000
    \<and> get_payload_length False (bf_data (snd (dispatch_control_frames plain_dpdk (sending_tcb, snd silent_example))) 1) = 1"
proof -
  obtain t' B' where d: "dispatch_control_frames plain_dpdk (sending_tcb, snd silent_example) = (t', B')" by (metis surj_pair)
  have e: "tx_egress_conduit sending_tcb = Some (rc_new 4 \<lparr>seg_mbuf = 0, seg_is_sacked = False\<rparr>)" by (simp add: sending_tcb_def)
  have a: "pktmbuf_alloc plain_dpdk (bf_pool (snd silent_example)) = (1, ())" by (simp add: plain_dpdk_def)
  have s: "tx_mbuf_pool sending_tcb" "flags_pending sending_tcb = FLAG_ACK" "control_payload_len sending_tcb = 1" "\<not> is_probe sending_tcb" by code_simp+
  have "snd_nxt sending_tcb = 1000" "is_ipv6 sending_tcb = 0" by code_simp+
  then show ?thesis using zero_window_probe_counts [OF e s a _ d] by (simp add: d tcp_base_def)
qed


end
