(* ===== verification/Tcp_Stages.thy ===== *)
theory Tcp_Stages
  imports Tcp_Flow Tcp_Outbound
begin

section \<open>Properties of the block that the engine keeps\<close>

text \<open>
  What the timers, the control frames and \<^verbatim>\<open>process_inbound\<close> may do to a block is a fixed set of
  changes. A property of the block that each of them keeps is kept by the whole functions, on every
  path: the locales below have the changes as their laws and carry the proof through the parts once.
  They are used for the well-formedness of the block, for the contents of the reassembly matrix and for
  what the timers leave alone.
\<close>

subsection \<open>Timers and control frames\<close>

locale timer_invariant =
  fixes good :: "tcb \<Rightarrow> bool"
  assumes fields [simp]:
    "good t \<Longrightarrow> good (t\<lparr>snd_nxt := x1\<rparr>)" "good t \<Longrightarrow> good (t\<lparr>rcv_wnd := x1\<rparr>)" "good t \<Longrightarrow> good (t\<lparr>ts_val := x1\<rparr>)"
    "good t \<Longrightarrow> good (t\<lparr>cwnd := x1\<rparr>)" "good t \<Longrightarrow> good (t\<lparr>ssthresh := x1\<rparr>)" "good t \<Longrightarrow> good (t\<lparr>idle_start_ms := x1\<rparr>)"
    "good t \<Longrightarrow> good (t\<lparr>dup_acks := x2\<rparr>)" "good t \<Longrightarrow> good (t\<lparr>temporal_flags := x2\<rparr>)" "good t \<Longrightarrow> good (t\<lparr>flags_pending := x2\<rparr>)"
    "good t \<Longrightarrow> good (t\<lparr>control_payload_len := x2\<rparr>)" "good t \<Longrightarrow> good (t\<lparr>rto_deadline_tsc := x3\<rparr>)"
    "good t \<Longrightarrow> good (t\<lparr>delayed_ack_deadline_tsc := x3\<rparr>)" "good t \<Longrightarrow> good (t\<lparr>persist_deadline_tsc := x3\<rparr>)"
    "good t \<Longrightarrow> good (t\<lparr>time_wait_deadline_tsc := x3\<rparr>)" "good t \<Longrightarrow> good (t\<lparr>keepalive_deadline_tsc := x3\<rparr>)"
    "good t \<Longrightarrow> good (t\<lparr>tx_unacked_ring := x4\<rparr>)" "good t \<Longrightarrow> good (t\<lparr>tx_egress_conduit := x4\<rparr>)" "good t \<Longrightarrow> good (t\<lparr>rx_stream_ring := x5\<rparr>)"
    "good t \<Longrightarrow> good (t\<lparr>phase_mask := PHASE_CLOSED\<rparr>)"
    and counters [simp]:
    "good t \<Longrightarrow> n \<le> 15 \<Longrightarrow> good (t\<lparr>rto_retries := n\<rparr>)" "good t \<Longrightarrow> n \<le> 5 \<Longrightarrow> good (t\<lparr>zwp_retries := n\<rparr>)"
    "good t \<Longrightarrow> n \<le> 9 \<Longrightarrow> good (t\<lparr>keepalive_retries := n\<rparr>)"
begin

lemma requeue_inv: "requeue D s e (t, B) = (c, t', B') \<Longrightarrow> good t \<Longrightarrow> good t'"
  by (auto simp: requeue_def Let_def split: prod.splits if_splits)

lemma rto_retransmit_inv: "rto_retransmit D (t, B) = (e, t', B') \<Longrightarrow> good t \<Longrightarrow> good t'"
  by (auto simp: rto_retransmit_def Let_def split: option.splits prod.splits if_splits dest: requeue_inv)

lemma tick_rto_inv:
  assumes "tick_rto D now r (t, B) = (e, t', B')" "good t"
  shows "good t'"
proof -
  have "\<not> 15 \<le> rto_retries t \<Longrightarrow> rto_retries t + 1 \<le> 15" by (simp add: inc_le not_le)
  with assms show ?thesis by (auto simp: tick_rto_def Let_def split: if_splits dest: rto_retransmit_inv)
qed

lemma tick_parts_inv [simp]:
  assumes "good t"
  shows "good (tick_delayed_ack now t)" "good (snd (tick_persist now t))" "good (tick_time_wait now t)" "good (snd (tick_keepalive now t))"
  using assms by (simp_all add: tick_delayed_ack_def tick_persist_def tick_time_wait_def tick_keepalive_def inc_le not_le)

lemma tick_arp_inv: "good t \<Longrightarrow> good (fst (tick_arp D now (t, B)))"
  by (simp add: tick_arp_def Let_def split: option.split prod.split)

lemma on_tick_inv:
  assumes "good t"
  shows "good (fst (on_tick D now r (t, B)))"
proof -
  obtain e t1 B1 where t1: "tick_rto D now r (t, B) = (e, t1, B1)" by (cases "tick_rto D now r (t, B)")
  then have "good t1" using tick_rto_inv assms by blast
  then show ?thesis using assms t1 by (simp add: on_tick_def tick_arp_inv split_beta Let_def)
qed

lemma header_inv:
  assumes "prepare_outbound_header v6 n flags (t, h) = (len, t', h')" "good t"
  shows "good t'"
proof -
  have "good (settle_flags t)" using assms(2) by (simp add: settle_flags_def)
  then have "good (update_window (settle_flags t))" by (simp add: update_window_def Let_def split: option.split prod.split)
  then show ?thesis using prepared(2) [OF assms(1)] by (auto simp: tick_ts_def)
qed

lemma track_control_inv: "good (fst c) \<Longrightarrow> good (fst (track_control D b c))"
  by (cases c) (simp add: track_control_def Let_def split: option.split prod.split)

lemma send_control_inv:
  fixes B :: "'p buffers"
  assumes t: "good t"
  shows "good (fst (send_control D e (t, B)))"
proof -
  have "good (fst (prepare_outbound b n flags (t\<lparr>control_payload_len := 0\<rparr>, B1)))" for b n flags and B1 :: "'p buffers"
    using t header_inv [of _ n flags "t\<lparr>control_payload_len := 0\<rparr>"] by (auto simp: prepare_outbound_def Let_def split: prod.split)
  then show ?thesis using t by (simp add: send_control_def track_control_inv Let_def split_beta)
qed

lemma dispatch_inv: "good t \<Longrightarrow> good (fst (dispatch_control_frames D (t, B)))"
  by (auto simp: dispatch_control_frames_def send_control_inv Let_def split_beta split: option.split)

end

subsection \<open>Segments\<close>

definition segment_phases :: "u16 set" where
  "segment_phases = {PHASE_CLOSED, PHASE_SYN_RCVD, PHASE_ESTABLISHED, PHASE_FIN_WAIT2, PHASE_TIME_WAIT, PHASE_CLOSE_WAIT, PHASE_CLOSING}"

lemma segment_phases_simps [simp]:
  "PHASE_CLOSED \<in> segment_phases" "PHASE_SYN_RCVD \<in> segment_phases" "PHASE_ESTABLISHED \<in> segment_phases" "PHASE_FIN_WAIT2 \<in> segment_phases"
  "PHASE_TIME_WAIT \<in> segment_phases" "PHASE_CLOSE_WAIT \<in> segment_phases" "PHASE_CLOSING \<in> segment_phases"
  by (simp_all add: segment_phases_def)

definition inv_flow :: "(tcb \<Rightarrow> bool) \<Rightarrow> inbound \<Rightarrow> 'p flow \<Rightarrow> bool" where
  "inv_flow good I f = (good (fl_tcb f) \<and> fl_len f = in_len I)"

abbreviation inv_stage :: "(tcb \<Rightarrow> bool) \<Rightarrow> inbound \<Rightarrow> 'p stage \<Rightarrow> bool" where
  "inv_stage good I \<equiv> stage_ok (\<lambda>r. good (fl_tcb (snd r))) (inv_flow good I)"

lemma inv_flow_simps [simp]:
  "inv_flow good I (upd_tcb g f) = (good (g (fl_tcb f)) \<and> fl_len f = in_len I)"
  "inv_flow good I (f\<lparr>fl_tcb := t\<rparr>) = (good t \<and> fl_len f = in_len I)"
  "inv_flow good I (f\<lparr>fl_buf := B\<rparr>) = inv_flow good I f" "inv_flow good I (f\<lparr>fl_cookie := c\<rparr>) = inv_flow good I f"
  by (simp_all add: inv_flow_def)

locale segment_invariant = timer_invariant +
  fixes I :: inbound
  assumes segment_fields [simp]:
    "good t \<Longrightarrow> good (t\<lparr>snd_una := x1\<rparr>)" "good t \<Longrightarrow> good (t\<lparr>rcv_nxt := x1\<rparr>)" "good t \<Longrightarrow> good (t\<lparr>snd_wnd := x1\<rparr>)"
    "good t \<Longrightarrow> good (t\<lparr>recover := x1\<rparr>)" "good t \<Longrightarrow> good (t\<lparr>highest_rtx_seq := x1\<rparr>)" "good t \<Longrightarrow> good (t\<lparr>ts_recent := x1\<rparr>)"
    "good t \<Longrightarrow> good (t\<lparr>expected_ttl := x2\<rparr>)" "good t \<Longrightarrow> good (t\<lparr>ecn_permitted := x2\<rparr>)" "good t \<Longrightarrow> good (t\<lparr>ts_permitted := x2\<rparr>)"
    "good t \<Longrightarrow> p \<in> segment_phases \<Longrightarrow> good (t\<lparr>phase_mask := p\<rparr>)"
    and parts [simp]:
    "good t \<Longrightarrow> good (trigger_challenge_ack now t)" "good t \<Longrightarrow> good (syn_option h q k n t)" "good t \<Longrightarrow> good (reset_matrix t)"
    "good t \<Longrightarrow> good (trim_sack i t)" "good t \<Longrightarrow> good (schedule_ack I t)" "good t \<Longrightarrow> good (note_sack l r t)"
    and insertion:
    "good t \<Longrightarrow> tcb_ooo_matrix t = Some M \<Longrightarrow>
      insert_mbuf (rcv_nxt t) (payload_seq I) (in_mbuf I) (in_payload_offset I) (in_len I) (in_flags I) M = (ok, M') \<Longrightarrow>
      good (t\<lparr>tcb_ooo_matrix := Some M'\<rparr>)"
begin

lemma inv_flowD [simp]: "inv_flow good I f \<Longrightarrow> good (fl_tcb f)" "inv_flow good I f \<Longrightarrow> fl_len f = in_len I"
  by (simp_all add: inv_flow_def)

lemma pend_inv [simp]: "good t \<Longrightarrow> good (pend x t)"
  by (simp add: pend_def)

lemma small_inv [simp]:
  assumes "good t"
  shows "good (react_ecn I t)" "good (apply_sack h q n B t)" "good (open_client I t)" "good (open_server I t)" "good (teardown t)"
    "good (grow_cwnd t)" "good (count_dup I t)" "good (advance_una I t)" "good (snd (leave_recovery w I t))" "good (process_fin I t)"
  using assms
  by (simp_all add: react_ecn_def ecn_mark_def ecn_echo_def apply_sack_def open_client_def open_server_def teardown_def grow_cwnd_def
      count_dup_def advance_una_def leave_recovery_def process_fin_def Let_def split: option.split)

lemma trim_sacks_inv [simp]: "good t \<Longrightarrow> good (fold trim_sack is t)"
  by (induction "is" arbitrary: t) simp_all

lemma stop_inv [simp]: "inv_stage good I (swallow f) = good (fl_tcb f)" "good (fl_tcb f) \<Longrightarrow> inv_stage good I (challenge J f)"
  by (simp_all add: swallow_def challenge_def)

lemma recycle_inv: "inv_flow good I f \<Longrightarrow> inv_flow good I (recycle A I f)"
  by (simp add: recycle_def Let_def split: prod.split)

lemma check_inv:
  assumes "inv_flow good I f"
  shows "inv_stage good I (check_sequence I f)" "inv_stage good I (check_ttl I f)" "inv_stage good I (check_syn A I f)"
  using assms by (simp_all add: check_sequence_def check_ttl_def check_syn_def recycle_inv Let_def)

lemma read_options_inv: "inv_flow good I f \<Longrightarrow> inv_stage good I (read_options I f)"
  by (rule read_options_ok) (simp_all add: timestamp_option_def Let_def)

lemma resend_inv: "inv_flow good I f \<Longrightarrow> inv_stage good I (resend D k u e f)"
  by (auto simp: resend_def Let_def split: prod.split dest: requeue_inv)

lemma fast_retransmit_inv: "inv_flow good I f \<Longrightarrow> inv_stage good I (fast_retransmit D f)"
  by (simp add: fast_retransmit_def Let_def resend_inv split: option.split prod.split)

lemma partial_ack_inv: "inv_flow good I f \<Longrightarrow> inv_stage good I (partial_ack D I f)"
  by (simp add: partial_ack_def Let_def resend_inv split: option.split prod.split)

lemma slide_unacked_inv: "inv_flow good I f \<Longrightarrow> inv_flow good I (slide_unacked D f)"
  by (simp add: slide_unacked_def split: option.split prod.split)

lemma new_ack_inv:
  assumes "inv_flow good I f"
  shows "inv_stage good I (new_ack D w wnd I f)"
proof -
  obtain p t1 where l: "leave_recovery w I (fl_tcb f) = (p, t1)" by (cases "leave_recovery w I (fl_tcb f)")
  have "good t1" using assms small_inv(9) [of "fl_tcb f" w] l by simp
  then have "inv_flow good I (slide_unacked D (f\<lparr>fl_tcb := advance_una I t1\<rparr>))" using assms by (intro slide_unacked_inv) simp
  then have f1: "inv_flow good I (upd_tcb teardown (slide_unacked D (f\<lparr>fl_tcb := advance_una I t1\<rparr>)))" by simp
  show ?thesis unfolding new_ack_def l Let_def prod.case
    by (rule stage_ok_seq [where Q = "inv_flow good I"]) (use f1 partial_ack_inv [OF f1] in simp_all)
qed

lemma ack_window_inv: "inv_flow good I f \<Longrightarrow> inv_stage good I (ack_window D I f)"
  by (simp add: ack_window_def Let_def fast_retransmit_inv new_ack_inv)

lemma process_ack_inv: "inv_flow good I f \<Longrightarrow> inv_stage good I (process_ack D I f)"
  unfolding process_ack_def
  by (simp, intro impI stage_ok_seq [where Q = "inv_flow good I"]) (simp_all add: ack_handshake_def ack_window_inv Let_def)

lemma process_rst_syn_inv:
  assumes "inv_flow good I f"
  shows "inv_stage good I (process_rst I f)" "inv_stage good I (process_syn I f)" "inv_stage good I (require_ack I f)"
  using assms by (simp_all add: process_rst_def process_syn_def require_ack_def Let_def)

lemma prologue_inv: "inv_flow good I f \<Longrightarrow> inv_stage good I (prologue A D I f)"
  unfolding prologue_def
  by (intro stage_ok_seq [where Q = "inv_flow good I"] check_inv read_options_inv process_ack_inv process_rst_syn_inv) (simp_all add: check_inv)

lemma receive_out_of_order_inv:
  assumes "inv_flow good I f"
  shows "good (fl_tcb (receive_out_of_order I f))"
proof (cases "tcb_ooo_matrix (fl_tcb f)")
  case None
  then show ?thesis using assms by (simp add: receive_out_of_order_def Let_def)
next
  case (Some M)
  obtain b M' where M': "insert_mbuf (rcv_nxt (fl_tcb f)) (payload_seq I) (in_mbuf I) (in_payload_offset I) (in_len I) (in_flags I) M = (b, M')"
    by fastforce
  have "good ((fl_tcb f)\<lparr>tcb_ooo_matrix := Some M'\<rparr>)" using insertion [OF _ Some M'] assms by simp
  then show ?thesis using Some M' assms by (simp add: receive_out_of_order_def Let_def)
qed

lemma receive_in_order_inv: "inv_flow good I f \<Longrightarrow> good (fl_tcb (receive_in_order I f))"
  by (simp add: receive_in_order_def)

lemma receive_overlap_inv: "inv_flow good I f \<Longrightarrow> stage_ok (\<lambda>r. good (fl_tcb (snd r))) (\<lambda>f. good (fl_tcb f)) (receive_overlap I f)"
  by (simp add: receive_overlap_def Let_def)

lemma process_payload_inv: "inv_flow good I f \<Longrightarrow> stage_ok (\<lambda>r. good (fl_tcb (snd r))) (\<lambda>f. good (fl_tcb f)) (process_payload I f)"
  by (simp add: process_payload_def receive_in_order_inv receive_out_of_order_inv receive_overlap_inv Let_def)

lemma finish_inv: "good (fl_tcb f) \<Longrightarrow> good (fl_tcb (snd (refuse_late_data I (upd_tcb (process_fin I) f))))"
  by (simp add: refuse_late_data_def)

lemma process_inbound_inv:
  assumes "good (fl_tcb f)"
  shows "good (fl_tcb (snd (process_inbound A D I f)))"
proof -
  have "inv_flow good I (f\<lparr>fl_len := in_len I\<rparr>)" using assms by (simp add: inv_flow_def del: inv_flowD)
  then have "stage_ok (\<lambda>r. good (fl_tcb (snd r))) (\<lambda>f. good (fl_tcb f)) (and_then (prologue A D I (f\<lparr>fl_len := in_len I\<rparr>)) (process_payload I))"
    by (rule stage_ok_seq [OF prologue_inv]) (rule process_payload_inv)
  then show ?thesis unfolding process_inbound_def
    by (cases "and_then (prologue A D I (f\<lparr>fl_len := in_len I\<rparr>)) (process_payload I)") (simp_all add: finish_inv)
qed

end

end
