(* ===== verification/Tcp_Engine.thy ===== *)
theory Tcp_Engine
  imports Tcp_Stages
begin

section \<open>The engine as a transition system\<close>

text \<open>
  Segments, ticks and control frames in any order. A block is well formed when its phase is one of the eleven of the
  enumeration, its arrays have their length and its counters and shifts their bounds; every step of
  the engine keeps it so.
\<close>

subsection \<open>Well-formed blocks\<close>

definition all_phases :: "u16 set" where
  "all_phases = {PHASE_CLOSED, PHASE_LISTEN, PHASE_SYN_SENT, PHASE_SYN_RCVD, PHASE_ESTABLISHED, PHASE_FIN_WAIT1, PHASE_FIN_WAIT2,
     PHASE_TIME_WAIT, PHASE_CLOSE_WAIT, PHASE_LAST_ACK, PHASE_CLOSING}"

definition tcb_wf :: "tcb \<Rightarrow> bool" where
  "tcb_wf t = (phase_mask t \<in> all_phases \<and> snd_wscale t \<le> 14 \<and> (remote_mss t = 0 \<or> 536 \<le> remote_mss t)
     \<and> challenge_ack_cnt t \<le> 2 \<and> quick_ack_cnt t < 2 \<and> rto_retries t \<le> 15 \<and> zwp_retries t \<le> 5 \<and> keepalive_retries t \<le> 9
     \<and> length (sack_left_edges t) = 3 \<and> length (sack_right_edges t) = 3 \<and> length (sack_valid t) = 3)"

lemma phases_wf [simp]:
  "PHASE_CLOSED \<in> all_phases" "PHASE_SYN_RCVD \<in> all_phases" "PHASE_ESTABLISHED \<in> all_phases" "PHASE_FIN_WAIT2 \<in> all_phases"
  "PHASE_TIME_WAIT \<in> all_phases" "PHASE_CLOSE_WAIT \<in> all_phases" "PHASE_CLOSING \<in> all_phases"
  by (simp_all add: all_phases_def)

text \<open>Fields that do not matter, and values that keep a block well formed.\<close>

lemma wf_other_fields [simp]:
  "tcb_wf (t\<lparr>rx_stream_ring := y0\<rparr>) = tcb_wf t" "tcb_wf (t\<lparr>rcv_wnd := y1\<rparr>) = tcb_wf t" "tcb_wf (t\<lparr>ts_val := y2\<rparr>) = tcb_wf t"
  "tcb_wf (t\<lparr>snd_una := x0\<rparr>) = tcb_wf t" "tcb_wf (t\<lparr>snd_nxt := x1\<rparr>) = tcb_wf t"
  "tcb_wf (t\<lparr>rcv_nxt := x2\<rparr>) = tcb_wf t" "tcb_wf (t\<lparr>snd_wnd := x3\<rparr>) = tcb_wf t"
  "tcb_wf (t\<lparr>cwnd := x4\<rparr>) = tcb_wf t" "tcb_wf (t\<lparr>ssthresh := x5\<rparr>) = tcb_wf t"
  "tcb_wf (t\<lparr>dup_acks := x6\<rparr>) = tcb_wf t" "tcb_wf (t\<lparr>rcv_wscale := x7\<rparr>) = tcb_wf t"
  "tcb_wf (t\<lparr>temporal_flags := x8\<rparr>) = tcb_wf t" "tcb_wf (t\<lparr>rto_deadline_tsc := x9\<rparr>) = tcb_wf t"
  "tcb_wf (t\<lparr>flags_pending := x10\<rparr>) = tcb_wf t" "tcb_wf (t\<lparr>sack_permitted := x11\<rparr>) = tcb_wf t"
  "tcb_wf (t\<lparr>ts_permitted := x12\<rparr>) = tcb_wf t" "tcb_wf (t\<lparr>ecn_permitted := x13\<rparr>) = tcb_wf t"
  "tcb_wf (t\<lparr>control_payload_len := x14\<rparr>) = tcb_wf t" "tcb_wf (t\<lparr>tx_egress_conduit := x15\<rparr>) = tcb_wf t"
  "tcb_wf (t\<lparr>tx_unacked_ring := x16\<rparr>) = tcb_wf t" "tcb_wf (t\<lparr>tcb_ooo_matrix := x17\<rparr>) = tcb_wf t"
  "tcb_wf (t\<lparr>expected_ttl := x18\<rparr>) = tcb_wf t" "tcb_wf (t\<lparr>last_challenge_tsc := x19\<rparr>) = tcb_wf t"
  "tcb_wf (t\<lparr>highest_rtx_seq := x20\<rparr>) = tcb_wf t" "tcb_wf (t\<lparr>delayed_ack_deadline_tsc := x21\<rparr>) = tcb_wf t"
  "tcb_wf (t\<lparr>persist_deadline_tsc := x22\<rparr>) = tcb_wf t" "tcb_wf (t\<lparr>time_wait_deadline_tsc := x23\<rparr>) = tcb_wf t"
  "tcb_wf (t\<lparr>keepalive_deadline_tsc := x24\<rparr>) = tcb_wf t" "tcb_wf (t\<lparr>recover := x25\<rparr>) = tcb_wf t"
  "tcb_wf (t\<lparr>ts_recent := x26\<rparr>) = tcb_wf t" "tcb_wf (t\<lparr>idle_start_ms := x27\<rparr>) = tcb_wf t"
  by (simp_all add: tcb_wf_def)

lemma wf_fields [simp]:
  "tcb_wf t \<Longrightarrow> p \<in> all_phases \<Longrightarrow> tcb_wf (t\<lparr>phase_mask := p\<rparr>)" "tcb_wf t \<Longrightarrow> w \<le> 14 \<Longrightarrow> tcb_wf (t\<lparr>snd_wscale := w\<rparr>)"
  "tcb_wf t \<Longrightarrow> 536 \<le> m \<Longrightarrow> tcb_wf (t\<lparr>remote_mss := m\<rparr>)" "tcb_wf t \<Longrightarrow> c \<le> 2 \<Longrightarrow> tcb_wf (t\<lparr>challenge_ack_cnt := c\<rparr>)"
  "tcb_wf t \<Longrightarrow> q < 2 \<Longrightarrow> tcb_wf (t\<lparr>quick_ack_cnt := q\<rparr>)" "tcb_wf t \<Longrightarrow> r \<le> 15 \<Longrightarrow> tcb_wf (t\<lparr>rto_retries := r\<rparr>)"
  "tcb_wf t \<Longrightarrow> z \<le> 5 \<Longrightarrow> tcb_wf (t\<lparr>zwp_retries := z\<rparr>)" "tcb_wf t \<Longrightarrow> k \<le> 9 \<Longrightarrow> tcb_wf (t\<lparr>keepalive_retries := k\<rparr>)"
  "tcb_wf t \<Longrightarrow> length es = 3 \<Longrightarrow> tcb_wf (t\<lparr>sack_left_edges := es\<rparr>)" "tcb_wf t \<Longrightarrow> length es = 3 \<Longrightarrow> tcb_wf (t\<lparr>sack_right_edges := es\<rparr>)"
  "tcb_wf t \<Longrightarrow> length vs = 3 \<Longrightarrow> tcb_wf (t\<lparr>sack_valid := vs\<rparr>)"
  by (simp_all add: tcb_wf_def)

lemma wf_lengths: "tcb_wf t \<Longrightarrow> length (sack_left_edges t) = 3" "tcb_wf t \<Longrightarrow> length (sack_right_edges t) = 3" "tcb_wf t \<Longrightarrow> length (sack_valid t) = 3"
  by (simp_all add: tcb_wf_def)

lemma pend_wf [simp]: "tcb_wf (pend x t) = tcb_wf t"
  by (simp add: pend_def)

lemma challenge_wf [simp]: "tcb_wf t \<Longrightarrow> tcb_wf (trigger_challenge_ack now t)"
  by (simp add: trigger_challenge_ack_def Let_def inc_le)

lemma syn_option_wf [simp]: "tcb_wf t \<Longrightarrow> tcb_wf (syn_option h p k n t)"
  by (auto simp: syn_option_def Let_def not_less)

lemma trim_sack_wf [simp]: "tcb_wf t \<Longrightarrow> tcb_wf (trim_sack i t)"
  by (simp add: trim_sack_def wf_lengths)

lemma schedule_ack_wf [simp]: "tcb_wf t \<Longrightarrow> tcb_wf (schedule_ack I t)"
  by (simp add: schedule_ack_def Let_def not_le)

lemma note_sack_wf [simp]: "tcb_wf t \<Longrightarrow> tcb_wf (note_sack l r t)"
  by (simp add: note_sack_def merge_sack_def Let_def wf_lengths split: option.split)

lemma segment_phases_wf: "p \<in> segment_phases \<Longrightarrow> p \<in> all_phases"
  by (auto simp: segment_phases_def)

interpretation wf: segment_invariant tcb_wf I for I
  by unfold_locales (simp_all add: segment_phases_wf reset_matrix_def)

lemma on_temporal_tick_wf: "tcb_wf t \<Longrightarrow> tcb_wf (on_temporal_tick now t)"
  by (simp add: on_temporal_tick_def Let_def)

subsection \<open>Steps\<close>

inductive engine_step :: "aes \<Rightarrow> 'p dpdk \<Rightarrow> 'p flow \<Rightarrow> 'p flow \<Rightarrow> bool" for A D where
  segment: "engine_step A D f (snd (process_inbound A D I (f\<lparr>fl_trim := 0, fl_absorbed := False\<rparr>)))"
| tick: "on_tick D now r (fl_tcb f, fl_buf f) = (t, B) \<Longrightarrow> engine_step A D f (f\<lparr>fl_tcb := t, fl_buf := B\<rparr>)"
| temporal_tick: "engine_step A D f (upd_tcb (on_temporal_tick now) f)"
| control: "dispatch_control_frames D (fl_tcb f, fl_buf f) = (t, B) \<Longrightarrow> engine_step A D f (f\<lparr>fl_tcb := t, fl_buf := B\<rparr>)"

text \<open>(C22) The block stays well formed under any sequence of segments, ticks and control frames, with
  any contents and at any times: the phase is always one of the enumeration, the window shift is at most 14, the segment
  size is not below 536, no more than two challenges are counted, the retry counters keep the limits at
  which the timers give up.\<close>

theorem engine_keeps_wf:
  assumes "(engine_step A D)\<^sup>*\<^sup>* f f'" "tcb_wf (fl_tcb f)"
  shows "tcb_wf (fl_tcb f')"
  using assms
proof (induction rule: rtranclp_induct)
  case (step g h)
  then have g: "tcb_wf (fl_tcb g)" by simp
  from step.hyps(2) show ?case
  proof cases
    case (segment I)
    then show ?thesis using wf.process_inbound_inv [of "g\<lparr>fl_trim := 0, fl_absorbed := False\<rparr>" A D I] g by simp
  next
    case (tick now r t B)
    then show ?thesis using wf.on_tick_inv [OF g, of D now r "fl_buf g"] by simp
  next
    case (temporal_tick now)
    then show ?thesis using on_temporal_tick_wf g by simp
  next
    case (control t B)
    then show ?thesis using wf.dispatch_inv [OF g, of D "fl_buf g"] by simp
  qed
qed simp

theorem engine_keeps_wf_witness:
  "tcb_wf (fl_tcb (upd_tcb (on_temporal_tick 5)
     (snd (process_inbound xor_aes plain_dpdk (sample_segment 0 0x11 9) ((sample_flow PHASE_FIN_WAIT1)\<lparr>fl_trim := 0, fl_absorbed := False\<rparr>)))))"
proof (rule engine_keeps_wf)
  show "tcb_wf (fl_tcb (sample_flow PHASE_FIN_WAIT1))" by code_simp
qed (blast intro: engine_step.intros rtranclp.intros)

end
