(* ===== verification/Tcp_Gateway.thy ===== *)
theory Tcp_Gateway
  imports Tcp_Engine
begin

section \<open>The gateway of a connection\<close>

text \<open>
  \<^verbatim>\<open>net/tcp_gateway.hpp\<close>, for one connection: what \<^verbatim>\<open>on_raw_frame\<close> does with a segment that
  has passed its checks, for IPv4 and IPv6, and what \<^verbatim>\<open>poll_temporal\<close> does with a block. The
  frames that were received are a memory by the address of their packet buffer, which does not change
  while the buffer is held. What the gateway hands to the upper layers (\<^verbatim>\<open>defragmenter_.on\<close>) is
  the list of blocks of bytes; the packet buffers that it gives back (\<^verbatim>\<open>rte_pktmbuf_free\<close>) are
  listed too. The pool of matrices is a parameter: what \<^verbatim>\<open>make_raw\<close> returns.
\<close>

subsection \<open>What a segment releases\<close>

definition frame_part :: "memory \<Rightarrow> nat \<Rightarrow> nat \<Rightarrow> u8 list" where
  "frame_part h a n = map h [a..<a + n]"

definition hand_on :: "inbound \<Rightarrow> 'p flow \<Rightarrow> u8 list list" where
  "hand_on I f = (if 0 < fl_len f then [frame_part (in_hdr I) (unat (in_payload_offset I) + unat (fl_trim f)) (unat (fl_len f))] else [])"

definition extracted_fin :: "tcb \<Rightarrow> tcb" where
  "extracted_fin t =
     (let t1 = pend FLAG_ACK (t\<lparr>rcv_nxt := rcv_nxt t + 1\<rparr>)
      in if phase_mask t1 = PHASE_ESTABLISHED \<or> phase_mask t1 = PHASE_SYN_RCVD then t1\<lparr>phase_mask := PHASE_CLOSE_WAIT\<rparr>
         else if phase_mask t1 = PHASE_FIN_WAIT1 then t1\<lparr>phase_mask := PHASE_CLOSING\<rparr>
         else if phase_mask t1 = PHASE_FIN_WAIT2 then t1\<lparr>phase_mask := PHASE_TIME_WAIT, time_wait_deadline_tsc := 0\<rparr>
         else t1)"

text \<open>The loop over the segments that have become contiguous ends because each round takes a slot out of
  use.\<close>

definition emptied :: "nat \<Rightarrow> ooo_matrix \<Rightarrow> ooo_matrix" where
  "emptied idx M = release_active idx (M\<lparr>ooo_slots := (ooo_slots M)[idx := (ooo_slots M ! idx)\<lparr>slot_mbuf := 0\<rparr>]\<rparr>)"

lemma slide_active: "active (slide_window r M) \<subseteq> active M"
  by (simp add: slide_window_def ooo_reset_def Let_def)

lemma extract_slot_cases:
  assumes "extract_slot r off idx M = (x, M')"
  obtains m where "x = (slot_mbuf (ooo_slots M ! idx), slot_len (ooo_slots M ! idx), slot_payload_offset (ooo_slots M ! idx), slot_flags (ooo_slots M ! idx))"
    "M' \<in> {(emptied idx M)\<lparr>presence_mask := m, base_seq := b\<rparr> | b. True} \<union> {slide_window q ((emptied idx M)\<lparr>presence_mask := m\<rparr>) | q. True}
       \<union> {(emptied idx M)\<lparr>presence_mask := m\<rparr>}"
  using assms unfolding extract_slot_def Let_def emptied_def by (simp split: if_splits) blast+

lemma emptied_active: "idx \<in> active M \<Longrightarrow> active (emptied idx M) = active M - {idx}"
  unfolding emptied_def by (subst release_active_spec(1)) (simp_all add: active_lt)

lemma extract_slot_active:
  assumes "idx \<in> active M" "extract_slot r off idx M = (x, M')"
  shows "active M' \<subseteq> active M - {idx}"
proof -
  from extract_slot_cases [OF assms(2)] have "active M' \<subseteq> active (emptied idx M)"
  proof cases
    case (1 m)
    have "active (slide_window q ((emptied idx M)\<lparr>presence_mask := m\<rparr>)) \<subseteq> active (emptied idx M)" for q using slide_active by (metis active_cong(1))
    with 1(2) show ?thesis by auto
  qed
  with emptied_active [OF assms(1)] show ?thesis by simp
qed

lemma extract_active:
  assumes "extract_contiguous_mbuf r M = (Some x, M')"
  obtains idx where "idx \<in> active M" "slot_seq (ooo_slots M ! idx) = r" "extract_slot r (unat (r - base_seq M)) idx M = (x, M')"
proof -
  obtain idx where i: "find (\<lambda>idx. slot_seq (ooo_slots M ! idx) = r) (active_list M) = Some idx" "extract_slot r (unat (r - base_seq M)) idx M = (x, M')"
    using assms by (auto simp: extract_contiguous_mbuf_def Let_def split: if_splits option.splits prod.splits)
  moreover have "idx \<in> active M" "slot_seq (ooo_slots M ! idx) = r" using i(1) by (auto simp: find_Some_iff active_def)
  ultimately show ?thesis using that by blast
qed

lemma active_finite [simp]: "finite (active M)"
  by (simp add: active_def)

lemma extract_card:
  assumes "extract_contiguous_mbuf r M = (Some x, M')"
  shows "card (active M') < card (active M)"
proof -
  obtain idx where "idx \<in> active M" "active M' \<subseteq> active M - {idx}" using extract_active [OF assms] extract_slot_active by metis
  then have "active M' \<subset> active M" by blast
  then show ?thesis by (simp add: psubset_card_mono)
qed

function extract_loop :: "(u64 \<Rightarrow> memory) \<Rightarrow> tcb \<Rightarrow> ooo_matrix \<Rightarrow> u8 list list \<times> u64 list \<times> tcb \<times> ooo_matrix" where
  "extract_loop Rx t M =
     (case extract_contiguous_mbuf (rcv_nxt t) M of
        (None, M') \<Rightarrow> ([], [], t, M')
      | (Some (mbuf, len, offset, flags), M') \<Rightarrow>
          if mbuf = 0 then ([], [], t, M')
          else let t1 = t\<lparr>rcv_nxt := rcv_nxt t + len\<rparr>; t2 = (if has flags FLAG_FIN then extracted_fin t1 else t1);
                   (bs, ms, r) = extract_loop Rx t2 M'
               in (frame_part (Rx mbuf) (unat offset) (unat len) # bs, mbuf # ms, r))"
  by pat_completeness auto
termination by (relation "measure (\<lambda>(Rx, t, M). card (active M))") (auto dest: extract_card [OF sym])

declare extract_loop.simps [simp del]

definition extract_ready :: "(u64 \<Rightarrow> memory) \<Rightarrow> 'p flow \<Rightarrow> u8 list list \<times> u64 list \<times> 'p flow" where
  "extract_ready Rx f =
     (case tcb_ooo_matrix (fl_tcb f) of
        None \<Rightarrow> ([], [], f)
      | Some M \<Rightarrow> let (bs, ms, t, M') = extract_loop Rx (fl_tcb f) M in (bs, ms, f\<lparr>fl_tcb := t\<lparr>tcb_ooo_matrix := Some M'\<rparr>\<rparr>))"

text \<open>A connection gets its matrix with the first segment that comes too early.\<close>

definition store_first :: "ooo_matrix option \<Rightarrow> inbound \<Rightarrow> 'p flow \<Rightarrow> 'p flow" where
  "store_first make_raw I f = (let t = fl_tcb f in
     if (0 < in_len I \<or> has (in_flags I) FLAG_FIN) \<and> fl_len f = 0 \<and> has (flags_pending t) FLAG_ACK \<and> tcb_ooo_matrix t = None
     then case make_raw of
            None \<Rightarrow> f
          | Some M \<Rightarrow>
              let M1 = ooo_reset (rcv_nxt t) M
              in if payload_seq I - rcv_nxt t \<le> 0x7FFFFFFF \<and> in_mbuf I \<noteq> 0
                 then let (ok, M2) = insert_mbuf (rcv_nxt t) (payload_seq I) (in_mbuf I) (in_payload_offset I) (in_len I) (in_flags I) M1
                      in f\<lparr>fl_tcb := t\<lparr>tcb_ooo_matrix := Some M2\<rparr>, fl_absorbed := ok\<rparr>
                 else f\<lparr>fl_tcb := t\<lparr>tcb_ooo_matrix := Some M1\<rparr>\<rparr>
     else f)"

definition mbuf_cleanup_guard :: "u64 \<Rightarrow> bool \<Rightarrow> u64 list" where
  "mbuf_cleanup_guard mbuf absorbed = (if mbuf \<noteq> 0 \<and> \<not> absorbed then [mbuf] else [])"

definition control_frames :: "'p dpdk \<Rightarrow> 'p flow \<Rightarrow> 'p flow" where
  "control_frames D f = (let (t, B) = dispatch_control_frames D (fl_tcb f, fl_buf f) in f\<lparr>fl_tcb := t, fl_buf := B\<rparr>)"

definition receive_segment ::
    "aes \<Rightarrow> 'p dpdk \<Rightarrow> (u64 \<Rightarrow> memory) \<Rightarrow> ooo_matrix option \<Rightarrow> inbound \<Rightarrow> 'p flow \<Rightarrow> u8 list list \<times> u64 list \<times> 'p flow" where
  "receive_segment A D Rx make_raw I f =
     (let (ok, f1) = process_inbound A D I (f\<lparr>fl_trim := 0, fl_absorbed := False\<rparr>)
      in if ok
         then let (bs, ms, f2) = extract_ready Rx f1; f3 = control_frames D (store_first make_raw I f2)
              in (hand_on I f1 @ bs, ms @ mbuf_cleanup_guard (in_mbuf I) (fl_absorbed f3), f3)
         else ([], mbuf_cleanup_guard (in_mbuf I) (fl_absorbed f1), f1))"

subsection \<open>What the clock does\<close>

text \<open>Sending lost frames again after the send sequence number was set back. The acknowledgement and the
  window are written at their place in an IPv4 frame, whatever the frame is.\<close>

definition refresh_frame6 :: "tcb \<Rightarrow> nat \<Rightarrow> 'p buffers \<Rightarrow> 'p buffers" where
  "refresh_frame6 t b B =
     (let B1 = frame_write b 42 (le_bytes 4 (host_to_network32 (rcv_nxt t))) B;
          B2 = frame_write b 48 (le_bytes 2 (advertised_window (drop_bit (unat (rcv_wscale t)) (rcv_wnd t)))) B1;
          tcp_len = network_to_host16 (mem16 (bf_data B2 b) 18); s = pseudo_sum True tcp_len (bf_data B2 b);
          B3 = frame_write b 70 (le_bytes 2 (0 :: u16)) B2
      in frame_write b 70 (le_bytes 2 (compute_checksum False (frame_bytes b 54 (unat tcp_len) B3) s)) B3)"

definition replay_frame :: "'p dpdk \<Rightarrow> nat \<Rightarrow> outbound_tcp_segment ring_state \<Rightarrow> tcb \<times> 'p buffers \<Rightarrow> bool \<times> tcb \<times> 'p buffers" where
  "replay_frame D b egress c = (case c of (t, B) \<Rightarrow>
     let i = rc_get_reserved_slot 0 egress; egress1 = ring_poke i ((ring_buf egress ! i)\<lparr>seg_mbuf := b\<rparr>) egress; (ok, B1) = retain D b B
     in if \<not> ok then (True, t\<lparr>tx_egress_conduit := Some egress1, phase_mask := PHASE_CLOSED, flags_pending := flags_pending t OR FLAG_RST\<rparr>, B1)
        else (False, t\<lparr>tx_egress_conduit := Some (rc_commit_n 1 egress1)\<rparr>, if is_ipv6 t \<noteq> 0 then refresh_frame6 t b B1 else refresh_frame t b B1))"

fun replay :: "'p dpdk \<Rightarrow> u32 \<Rightarrow> outbound_tcp_segment ring_state \<Rightarrow> nat list \<Rightarrow> tcb \<times> 'p buffers \<Rightarrow> tcb \<times> 'p buffers" where
  "replay D usable_window unacked [] c = c"
| "replay D usable_window unacked (j # js) (t, B) =
     (case tx_egress_conduit t of
        None \<Rightarrow> (t, B)
      | Some egress \<Rightarrow>
          let b = seg_mbuf (ring_buf unacked ! rc_get_peek_slot (of_nat j) unacked); m = bf_data B b;
              frame_len = get_payload_length False m + (if has (tcp_flags_of m) (FLAG_SYN OR FLAG_FIN) then 1 else 0)
          in if usable_window < snd_nxt t - snd_una t + frame_len then (t, B)
             else let (closed, t1, B1) = replay_frame D b egress (t, B)
                  in if closed then (t1, B1) else replay D usable_window unacked js (t1\<lparr>snd_nxt := snd_nxt t1 + frame_len\<rparr>, B1))"

definition replay_lost :: "'p dpdk \<Rightarrow> tcb \<times> 'p buffers \<Rightarrow> tcb \<times> 'p buffers" where
  "replay_lost D c = (case c of (t, B) \<Rightarrow>
     case (tx_unacked_ring t, tx_egress_conduit t) of
       (Some unacked, Some _) \<Rightarrow>
         let (n, u) = rc_available_to_peek unacked
         in replay D (min (cwnd t) (snd_wnd t)) u [0..<unat n] (t\<lparr>tx_unacked_ring := Some u\<rparr>, B)
     | _ \<Rightarrow> (t, B))"

definition clean_up :: "'p dpdk \<Rightarrow> 'p flow \<Rightarrow> 'p flow" where
  "clean_up D f =
     (let t = (fl_tcb f)\<lparr>tcb_ooo_matrix := map_option (ooo_reset 0) (tcb_ooo_matrix (fl_tcb f))\<rparr>
      in case tx_unacked_ring t of
           None \<Rightarrow> f\<lparr>fl_tcb := t\<rparr>
         | Some unacked \<Rightarrow> let (u, B) = release_all D unacked (fl_buf f) in f\<lparr>fl_tcb := t\<lparr>tx_unacked_ring := Some u\<rparr>, fl_buf := B\<rparr>)"

definition poll_connection :: "'p dpdk \<Rightarrow> u64 \<Rightarrow> 'p flow \<Rightarrow> 'p flow" where
  "poll_connection D now f = (let t = fl_tcb f in
     if phase_mask t = PHASE_CLOSED \<or> phase_mask t = PHASE_LISTEN then clean_up D f
     else let prior_snd_nxt = snd_nxt t; (t1, B1) = on_tick D now (rto t) (t, fl_buf f);
              (t2, B2) = (if sint (snd_nxt t1 - prior_snd_nxt) < 0
                          then if snd_wnd t1 = 0
                               then (t1\<lparr>temporal_flags := temporal_flags t1 OR TEMP_FLAG_ZWP_ACTIVE, snd_nxt := prior_snd_nxt\<rparr>, B1)
                               else replay_lost D (t1, B1)
                          else (t1, B1))
          in control_frames D (f\<lparr>fl_tcb := t2, fl_buf := B2\<rparr>))"

subsection \<open>Runs\<close>

text \<open>Frames and polls of a connection that is not listening. A frame for a closed connection is
  dropped.\<close>

datatype gate_event = Frame inbound "ooo_matrix option" | Poll u64

fun gate_step :: "aes \<Rightarrow> 'p dpdk \<Rightarrow> (u64 \<Rightarrow> memory) \<Rightarrow> gate_event \<Rightarrow> 'p flow \<Rightarrow> u8 list list \<times> u64 list \<times> 'p flow" where
  "gate_step A D Rx (Frame I make_raw) f =
     (if phase_mask (fl_tcb f) = PHASE_CLOSED then ([], mbuf_cleanup_guard (in_mbuf I) False, f) else receive_segment A D Rx make_raw I f)"
| "gate_step A D Rx (Poll now) f = ([], [], poll_connection D now f)"

fun gate_run :: "aes \<Rightarrow> 'p dpdk \<Rightarrow> (u64 \<Rightarrow> memory) \<Rightarrow> gate_event list \<Rightarrow> 'p flow \<Rightarrow> u8 list list \<times> u64 list \<times> 'p flow" where
  "gate_run A D Rx [] f = ([], [], f)"
| "gate_run A D Rx (e # es) f =
     (let (bs, ms, f1) = gate_step A D Rx e f; (bs', ms', f2) = gate_run A D Rx es f1 in (bs @ bs', ms @ ms', f2))"

subsection \<open>The contents of the matrix\<close>

definition stretch :: "(u32 \<Rightarrow> u8) \<Rightarrow> u32 \<Rightarrow> nat \<Rightarrow> u8 list" where
  "stretch S a n = map (\<lambda>k. S (a + of_nat k)) [0..<n]"

lemma stretch_append: "stretch S a m @ stretch S (a + of_nat m) n = stretch S a (m + n)"
  by (induction n) (simp_all add: stretch_def ac_simps)

lemma stretch_0 [simp]: "stretch S a 0 = []"
  by (simp add: stretch_def)

text \<open>A part of a frame whose bytes are those of a stream.\<close>

lemma frame_part_stretch:
  assumes "\<forall>j<L. h (a + j) = S (q + of_nat j)" "n + k \<le> L"
  shows "frame_part h (a + n) k = stretch S (q + of_nat n) k"
proof (rule nth_equalityI)
  fix j assume "j < length (frame_part h (a + n) k)"
  then have j: "j < k" by (simp add: frame_part_def)
  then have "h (a + (n + j)) = S (q + of_nat (n + j))" using assms by simp
  with j show "frame_part h (a + n) k ! j = stretch S (q + of_nat n) k ! j" by (simp add: frame_part_def stretch_def add.assoc)
qed (simp add: frame_part_def stretch_def)

text \<open>A segment of the stream: byte \<open>j\<close> of its payload is the byte of the stream at its sequence
  number, and the payload lies within the frame.\<close>

definition carries :: "(u32 \<Rightarrow> u8) \<Rightarrow> (u64 \<Rightarrow> memory) \<Rightarrow> inbound \<Rightarrow> bool" where
  "carries S Rx I = ((\<forall>j<unat (in_len I). in_hdr I (unat (in_payload_offset I) + j) = S (payload_seq I + of_nat j))
     \<and> Rx (in_mbuf I) = in_hdr I \<and> unat (in_payload_offset I) + unat (in_len I) < 65536 \<and> \<not> has (in_flags I) FLAG_FIN)"

definition slot_holds :: "(u32 \<Rightarrow> u8) \<Rightarrow> (u64 \<Rightarrow> memory) \<Rightarrow> mbuf_slot \<Rightarrow> bool" where
  "slot_holds S Rx sl = (\<not> has (slot_flags sl) FLAG_FIN
     \<and> frame_part (Rx (slot_mbuf sl)) (unat (slot_payload_offset sl)) (unat (slot_len sl)) = stretch S (slot_seq sl) (unat (slot_len sl)))"

definition held :: "(u32 \<Rightarrow> u8) \<Rightarrow> (u64 \<Rightarrow> memory) \<Rightarrow> ooo_matrix \<Rightarrow> bool" where
  "held S Rx M = (length (ooo_slots M) = 128 \<and> (\<forall>i\<in>active M. slot_holds S Rx (ooo_slots M ! i)))"

lemma held_cong [simp]: "held S Rx (M\<lparr>presence_mask := m\<rparr>) = held S Rx M" "held S Rx (M\<lparr>base_seq := b\<rparr>) = held S Rx M"
  by (simp_all add: held_def)

lemma reset_active [simp]: "active (ooo_reset b M) = {}"
  by (simp add: ooo_reset_def Let_def)

lemma held_reset: "length (ooo_slots M) = 128 \<Longrightarrow> held S Rx (ooo_reset b M)"
  by (simp add: held_def) (simp add: ooo_reset_def Let_def release_slots_keeps)

lemma held_slide: "held S Rx M \<Longrightarrow> held S Rx (slide_window r M)"
  using held_reset [of M S Rx r] by (simp add: slide_window_def Let_def held_def)

text \<open>Cutting a segment at both ends keeps its bytes at their sequence numbers.\<close>

lemma trimmed_holds:
  assumes "carries S Rx I" "K \<le> unat (in_len I)"
    and g: "g = trim_tail m (trim_head m \<lparr>sg_offset = off, sg_payload_offset = in_payload_offset I, sg_seq = payload_seq I,
               sg_safe_len = K, sg_logical_len = in_len I, sg_len = in_len I\<rparr>)"
  shows "slot_holds S Rx \<lparr>slot_seq = sg_seq g, slot_len = (if unat (sg_logical_len g) > sg_safe_len g then of_nat (sg_safe_len g) else sg_len g),
    slot_mbuf = in_mbuf I, slot_payload_offset = sg_payload_offset g, slot_flags = (if unat (sg_logical_len g) > sg_safe_len g then in_flags I AND NOT 1 else in_flags I)\<rparr>"
proof -
  let ?L = "unat (in_len I)"
  let ?g0 = "\<lparr>sg_offset = off, sg_payload_offset = in_payload_offset I, sg_seq = payload_seq I, sg_safe_len = K, sg_logical_len = in_len I, sg_len = in_len I\<rparr>"
  obtain n where n: "n \<le> K" "trim_head m ?g0 = \<lparr>sg_offset = off + n, sg_payload_offset = in_payload_offset I + of_nat n, sg_seq = payload_seq I + of_nat n,
      sg_safe_len = K - n, sg_logical_len = in_len I - of_nat n, sg_len = (dec_len ^^ n) (in_len I)\<rparr>"
    using trim_head_spec [of ?g0 m] by auto
  obtain k where k: "k \<le> K - n" "g = \<lparr>sg_offset = off + n, sg_payload_offset = in_payload_offset I + of_nat n, sg_seq = payload_seq I + of_nat n,
      sg_safe_len = K - n - k, sg_logical_len = in_len I - of_nat n - of_nat k, sg_len = (dec_len ^^ k) ((dec_len ^^ n) (in_len I))\<rparr>"
    using trim_tail_spec [of "trim_head m ?g0" m] n(2) g by auto
  have u: "unat (in_len I - of_nat n) = ?L - n" "unat (in_len I - of_nat n - of_nat k) = ?L - n - k"
    using n(1) k(1) assms(2) by (simp_all add: unat_sub_of_nat32)
  have len: "sg_len g = in_len I - of_nat n - of_nat k"
    using n(1) k assms(2) u(1) by (simp add: dec_len_pow)
  let ?k = "K - n - k"
  have c: "unat (sg_logical_len g) = ?L - n - k" "sg_safe_len g = ?k" using k(2) u by simp_all
  have slen: "unat (if unat (sg_logical_len g) > sg_safe_len g then of_nat (sg_safe_len g) else sg_len g) = ?k"
  proof (cases "unat (sg_logical_len g) > sg_safe_len g")
    case True
    have "K < 2 ^ 32" using assms(2) unat_lt_u32 [of "in_len I"] by simp
    then have "unat (of_nat ?k :: u32) = ?k" by (intro unat_of_nat_u32) linarith
    with True c(2) show ?thesis by (simp only: if_True)
  next
    case False
    then show ?thesis using c u(2) len assms(2) by simp
  qed
  have po: "unat (sg_payload_offset g) = unat (in_payload_offset I) + n"
    using assms(1,2) n(1) k(2) by (simp add: carries_def unat_word_ariths unat_of_nat take_bit_nat_def)
  have "frame_part (Rx (in_mbuf I)) (unat (in_payload_offset I) + n) ?k = stretch S (payload_seq I + of_nat n) ?k"
    using assms(1,2) n(1) k(1) by (intro frame_part_stretch [of ?L]) (auto simp: carries_def)
  moreover have "\<not> has (if b then in_flags I AND NOT 1 else in_flags I) FLAG_FIN" for b
    using assms(1) by (simp add: carries_def has_def FLAG_FIN_def and.assoc)
  ultimately show ?thesis using slen po k(2) by (simp add: slot_holds_def)
qed

text \<open>Insertion leaves the matrix as it was (perhaps moved or emptied), or puts the cut segment into a free
  slot.\<close>

lemma insert_cases:
  assumes "insert_mbuf r q b po len flags M = (ok, M')" "\<not> has flags FLAG_FIN"
  obtains (same) "\<not> ok" "M' = M \<or> M' = slide_window r M" | (full) b where "\<not> ok" "M' = ooo_reset b M \<or> M' = ooo_reset b (slide_window r M)"
  | (stored) M1 idx M2 off g where "ok" "b \<noteq> 0" "M1 = M \<or> M1 = slide_window r M" "free_slot M1 = Some (idx, M2)"
      "g = trim_tail (presence_mask M1) (trim_head (presence_mask M1) \<lparr>sg_offset = off, sg_payload_offset = po, sg_seq = q,
         sg_safe_len = min (unat len) (WINDOW_SIZE - off), sg_logical_len = len, sg_len = len\<rparr>)"
      "M' = store_segment g b flags idx M2"
proof -
  have ll: "logical_length len flags = len" using assms(2) by (auto simp: logical_length_def has_def FLAG_FIN_def)
  define M1 where "M1 = (if unat (q - base_seq M) \<ge> WINDOW_SIZE then slide_window r M else M)"
  define g where "g = trim_tail (presence_mask M1) (trim_head (presence_mask M1) \<lparr>sg_offset = unat (q - base_seq M1), sg_payload_offset = po, sg_seq = q,
         sg_safe_len = min (unat len) (WINDOW_SIZE - unat (q - base_seq M1)), sg_logical_len = len, sg_len = len\<rparr>)"
  have M1: "M1 = M \<or> M1 = slide_window r M" by (simp add: M1_def)
  have run: "(if len = 0 \<or> b = 0 then (False, M) else if unat (q - base_seq M1) \<ge> WINDOW_SIZE then (False, M1)
      else if sg_safe_len g = 0 then (False, M1) else if segment_hits g (presence_mask M1) then (False, M1)
      else case free_slot M1 of None \<Rightarrow> (False, ooo_reset (base_seq M1) M1) | Some (idx, M2) \<Rightarrow> (True, store_segment g b flags idx M2)) = (ok, M')"
    using assms(1) unfolding insert_mbuf_def ll Let_def M1_def g_def .
  show thesis
  proof (cases "ok")
    case True
    then obtain idx M2 where "free_slot M1 = Some (idx, M2)" "M' = store_segment g b flags idx M2" "b \<noteq> 0"
      using run by (auto split: if_splits option.splits)
    with True M1 show thesis using stored [of M1 idx M2 g] g_def by blast
  next
    case False
    then have "M' = M \<or> M' = M1 \<or> M' = ooo_reset (base_seq M1) M1" using run by (auto split: if_splits option.splits)
    with False M1 show thesis using same full by blast
  qed
qed

lemma store_segment_active [simp]: "active (store_segment g b fl idx M) = active M"
  by (simp add: store_segment_def Let_def)

lemma insert_held:
  assumes "held S Rx M" "carries S Rx I"
    "insert_mbuf r (payload_seq I) (in_mbuf I) (in_payload_offset I) (in_len I) (in_flags I) M = (ok, M')"
  shows "held S Rx M'"
proof -
  have "\<not> has (in_flags I) FLAG_FIN" using assms(2) by (simp add: carries_def)
  from assms(3) this show ?thesis
  proof (cases rule: insert_cases)
    case same
    then show ?thesis using assms(1) held_slide by blast
  next
    case (full b)
    then show ?thesis using assms(1) held_slide [OF assms(1), of r] held_reset by (metis held_def)
  next
    case (stored M1 idx M2 off g)
    have h: "held S Rx M1" using stored(3) assms(1) held_slide by blast
    note fs = free_slot_spec [OF stored(4)]
    have new: "ooo_slots M' ! idx = \<lparr>slot_seq = sg_seq g, slot_len = (if unat (sg_logical_len g) > sg_safe_len g then of_nat (sg_safe_len g) else sg_len g),
        slot_mbuf = in_mbuf I, slot_payload_offset = sg_payload_offset g,
        slot_flags = (if unat (sg_logical_len g) > sg_safe_len g then in_flags I AND NOT 1 else in_flags I)\<rparr>"
      using h fs(1,5) by (simp add: stored(6) store_segment_def Let_def held_def)
    have "slot_holds S Rx (ooo_slots M' ! idx)" unfolding new by (rule trimmed_holds [OF assms(2) _ stored(5)]) simp
    moreover have "ooo_slots M' ! i = ooo_slots M1 ! i" if "i \<noteq> idx" for i using that fs(5) by (simp add: stored(6) store_segment_def Let_def)
    moreover have "active M' = insert idx (active M1)" "length (ooo_slots M') = 128"
      using fs(3,5) h by (simp_all add: stored(6)) (simp add: store_segment_def Let_def held_def)
    ultimately show ?thesis using h unfolding held_def by (metis insert_iff)
  qed
qed

lemma emptied_slots: "j \<noteq> idx \<Longrightarrow> ooo_slots (emptied idx M) ! j = ooo_slots M ! j" "length (ooo_slots (emptied idx M)) = length (ooo_slots M)"
  by (simp_all add: emptied_def release_active_def)

lemma extract_held:
  assumes "held S Rx M" "extract_contiguous_mbuf r M = (Some (b, len, po, fl), M')"
  shows "\<not> has fl FLAG_FIN" "frame_part (Rx b) (unat po) (unat len) = stretch S r (unat len)" "held S Rx M'"
proof -
  obtain idx where i: "idx \<in> active M" "slot_seq (ooo_slots M ! idx) = r" "extract_slot r (unat (r - base_seq M)) idx M = ((b, len, po, fl), M')"
    by (rule extract_active [OF assms(2)])
  then have h: "slot_holds S Rx (ooo_slots M ! idx)" using assms(1) by (simp add: held_def)
  have e: "held S Rx (emptied idx M)" using assms(1) emptied_active [OF i(1)] by (simp add: held_def emptied_slots)
  from extract_slot_cases [OF i(3)] have "\<not> has fl FLAG_FIN \<and> frame_part (Rx b) (unat po) (unat len) = stretch S r (unat len) \<and> held S Rx M'"
  proof cases
    case (1 m)
    then have "held S Rx M'" using e held_slide [of S Rx "(emptied idx M)\<lparr>presence_mask := m\<rparr>"] by auto
    with 1(1) h i(2) show ?thesis by (simp add: slot_holds_def)
  qed
  then show "\<not> has fl FLAG_FIN" "frame_part (Rx b) (unat po) (unat len) = stretch S r (unat len)" "held S Rx M'" by simp_all
qed

text \<open>What the loop hands on is the next stretch of the stream.\<close>

lemma extract_loop_stretch:
  assumes "held S Rx M" "extract_loop Rx t M = (bs, ms, t', M')"
  shows "\<exists>n. concat bs = stretch S (rcv_nxt t) n \<and> t' = t\<lparr>rcv_nxt := rcv_nxt t + of_nat n\<rparr> \<and> held S Rx M'"
  using assms
proof (induction Rx t M arbitrary: bs ms t' M' rule: extract_loop.induct)
  case (1 Rx t M)
  obtain x M1 where x: "extract_contiguous_mbuf (rcv_nxt t) M = (x, M1)" by fastforce
  show ?case
  proof (cases x)
    case None
    then have "M1 = M" using x by (auto simp: extract_contiguous_mbuf_def Let_def split: if_splits option.splits prod.splits)
    then show ?thesis using "1.prems" x None by (intro exI [of _ 0]) (simp add: extract_loop.simps)
  next
    case (Some y)
    obtain b len po fl where y: "y = (b, len, po, fl)" by (cases y)
    note h = extract_held [OF "1.prems"(1) x [unfolded Some y]]
    let ?t1 = "t\<lparr>rcv_nxt := rcv_nxt t + len\<rparr>"
    show ?thesis
    proof (cases "b = 0")
      case True
      then show ?thesis using "1.prems"(2) x Some y h(3) by (intro exI [of _ 0]) (simp add: extract_loop.simps [of Rx t])
    next
      case False
      obtain bs1 ms1 t1 M2 where r: "extract_loop Rx ?t1 M1 = (bs1, ms1, t1, M2)" by (metis prod_cases4)
      then have res: "bs = frame_part (Rx b) (unat po) (unat len) # bs1" "t' = t1" "M' = M2"
        using "1.prems"(2) x Some y h(1) False by (simp_all add: extract_loop.simps [of Rx t])
      from "1.IH" [OF x [symmetric] Some y [symmetric] refl refl False refl refl h(3), of bs1 ms1 t1 M2] r h(1)
      obtain n where n: "concat bs1 = stretch S (rcv_nxt t + len) n" "t1 = ?t1\<lparr>rcv_nxt := rcv_nxt t + len + of_nat n\<rparr>" "held S Rx M2" by auto
      have "concat bs = stretch S (rcv_nxt t) (unat len + n)" using stretch_append [of S "rcv_nxt t" "unat len" n] n(1) res(1) h(2) by simp
      with n(2,3) res(2,3) show ?thesis by (intro exI [of _ "unat len + n"]) (simp add: add.assoc)
    qed
  qed
qed

definition holds_if :: "(u32 \<Rightarrow> u8) \<Rightarrow> (u64 \<Rightarrow> memory) \<Rightarrow> inbound \<Rightarrow> tcb \<Rightarrow> bool" where
  "holds_if S Rx I t = (carries S Rx I \<longrightarrow> (\<forall>M. tcb_ooo_matrix t = Some M \<longrightarrow> held S Rx M))"

interpretation kept: segment_invariant "holds_if S Rx I" I for S Rx I
proof unfold_locales
  fix t M ok M'
  assume "holds_if S Rx I t" "tcb_ooo_matrix t = Some M"
    "insert_mbuf (rcv_nxt t) (payload_seq I) (in_mbuf I) (in_payload_offset I) (in_len I) (in_flags I) M = (ok, M')"
  then show "holds_if S Rx I (t\<lparr>tcb_ooo_matrix := Some M'\<rparr>)" using insert_held by (auto simp: holds_if_def)
next
  fix t show "holds_if S Rx I t \<Longrightarrow> holds_if S Rx I (reset_matrix t)" using held_reset by (auto simp: holds_if_def reset_matrix_def held_def)
qed (simp_all add: holds_if_def trigger_challenge_ack_def pend_def syn_option_def trim_sack_def schedule_ack_def note_sack_def merge_sack_def Let_def
    split: option.split)

text \<open>What timers and control frames leave alone.\<close>

definition still :: "tcb \<Rightarrow> tcb \<Rightarrow> bool" where
  "still t t' = (tcb_ooo_matrix t' = tcb_ooo_matrix t \<and> rcv_nxt t' = rcv_nxt t \<and> (phase_mask t' = phase_mask t \<or> phase_mask t' = PHASE_CLOSED))"

interpretation still: timer_invariant "still t" for t
  by unfold_locales (simp_all add: still_def)

lemma still_refl [simp]: "still t t"
  by (simp add: still_def)

lemma still_trans: "still t u \<Longrightarrow> still u v \<Longrightarrow> still t v"
  by (auto simp: still_def)

lemma control_frames_still: "still (fl_tcb f) (fl_tcb (control_frames D f))" "fl_absorbed (control_frames D f) = fl_absorbed f"
  using still.dispatch_inv [of "fl_tcb f" "fl_tcb f" D "fl_buf f"] by (auto simp: control_frames_def split: prod.split)

text \<open>The timers never set the send sequence number back, so that nothing is replayed.\<close>

lemma tick_snd_nxt:
  "tick_rto D now r (t, B) = (e, t1, B1) \<Longrightarrow> snd_nxt t1 = snd_nxt t" "snd_nxt (tick_delayed_ack now t) = snd_nxt t"
  "snd_nxt (snd (tick_persist now t)) = snd_nxt t" "snd_nxt (tick_time_wait now t) = snd_nxt t"
  "snd_nxt (snd (tick_keepalive now t)) = snd_nxt t" "snd_nxt (fst (tick_arp D now (t, B))) = snd_nxt t"
  by (auto simp: tick_rto_def rto_retransmit_def requeue_def tick_delayed_ack_def tick_persist_def tick_time_wait_def tick_keepalive_def tick_arp_def Let_def
      split: if_splits option.splits prod.splits)

lemma on_tick_snd_nxt: "snd_nxt (fst (on_tick D now r (t, B))) = snd_nxt t"
proof -
  obtain e t1 B1 where t1: "tick_rto D now r (t, B) = (e, t1, B1)" by (cases "tick_rto D now r (t, B)")
  then have "snd_nxt t1 = snd_nxt t" by (rule tick_snd_nxt)
  then show ?thesis using t1 by (simp add: on_tick_def tick_snd_nxt split_beta Let_def)
qed

lemma poll_never_replays:
  "poll_connection D now f = (if phase_mask (fl_tcb f) = PHASE_CLOSED \<or> phase_mask (fl_tcb f) = PHASE_LISTEN then clean_up D f
     else let (t, B) = on_tick D now (rto (fl_tcb f)) (fl_tcb f, fl_buf f) in control_frames D (f\<lparr>fl_tcb := t, fl_buf := B\<rparr>))"
proof -
  obtain t1 B1 where t1: "on_tick D now (rto (fl_tcb f)) (fl_tcb f, fl_buf f) = (t1, B1)" by fastforce
  then have "snd_nxt t1 = snd_nxt (fl_tcb f)" using on_tick_snd_nxt [of D now "rto (fl_tcb f)" "fl_tcb f" "fl_buf f"] by simp
  with t1 show ?thesis by (simp add: poll_connection_def Let_def)
qed

subsection \<open>The stream\<close>

definition matrix_held :: "(u32 \<Rightarrow> u8) \<Rightarrow> (u64 \<Rightarrow> memory) \<Rightarrow> tcb \<Rightarrow> bool" where
  "matrix_held S Rx t = (\<forall>M. tcb_ooo_matrix t = Some M \<longrightarrow> held S Rx M)"

definition fresh_slots :: "ooo_matrix option \<Rightarrow> bool" where
  "fresh_slots m = (case m of None \<Rightarrow> True | Some M \<Rightarrow> length (ooo_slots M) = MAX_MBUFS)"

lemma hand_on_stretch:
  assumes "carries S Rx I" "delivered I t (True, f)"
  shows "concat (hand_on I f) = stretch S (rcv_nxt t) (unat (fl_len f)) \<and> rcv_nxt (fl_tcb f) = rcv_nxt t + fl_len f"
proof -
  have "rcv_nxt (fl_tcb f) = rcv_nxt t + fl_len f" using assms by (auto simp: delivered_def handed_def carries_def)
  moreover have "concat (hand_on I f) = stretch S (rcv_nxt t) (unat (fl_len f))"
  proof (cases "0 < fl_len f")
    case True
    with assms(2) have d: "payload_seq I + of_nat (unat (fl_trim f)) = rcv_nxt t" "unat (fl_trim f) + unat (fl_len f) \<le> unat (in_len I)"
      by (simp_all add: delivered_def handed_def payload_seq_def)
    have "frame_part (in_hdr I) (unat (in_payload_offset I) + unat (fl_trim f)) (unat (fl_len f)) = stretch S (payload_seq I + of_nat (unat (fl_trim f))) (unat (fl_len f))"
      using assms(1) d(2) by (intro frame_part_stretch [of "unat (in_len I)"]) (simp_all add: carries_def)
    with True d(1) show ?thesis by (simp add: hand_on_def)
  next
    case False
    then show ?thesis by (simp add: hand_on_def word_gt_0)
  qed
  ultimately show ?thesis by simp
qed

lemma extract_ready_stretch:
  assumes "matrix_held S Rx (fl_tcb f)" "extract_ready Rx f = (bs, ms, f')"
  shows "\<exists>n. concat bs = stretch S (rcv_nxt (fl_tcb f)) n \<and> rcv_nxt (fl_tcb f') = rcv_nxt (fl_tcb f) + of_nat n
    \<and> phase_mask (fl_tcb f') = phase_mask (fl_tcb f) \<and> matrix_held S Rx (fl_tcb f')"
proof (cases "tcb_ooo_matrix (fl_tcb f)")
  case None
  then show ?thesis using assms by (intro exI [of _ 0]) (simp add: extract_ready_def)
next
  case (Some M)
  obtain t' M' where r: "extract_loop Rx (fl_tcb f) M = (bs, ms, t', M')" "f' = f\<lparr>fl_tcb := t'\<lparr>tcb_ooo_matrix := Some M'\<rparr>\<rparr>"
    using assms(2) Some by (auto simp: extract_ready_def split: prod.splits)
  have "held S Rx M" using assms(1) Some by (simp add: matrix_held_def)
  from extract_loop_stretch [OF this r(1)] r(2) show ?thesis by (auto simp: matrix_held_def)
qed

lemma store_first_keeps:
  assumes "matrix_held S Rx (fl_tcb f)" "carries S Rx I" "fresh_slots make_raw"
  shows "matrix_held S Rx (fl_tcb (store_first make_raw I f)) \<and> rcv_nxt (fl_tcb (store_first make_raw I f)) = rcv_nxt (fl_tcb f)
    \<and> phase_mask (fl_tcb (store_first make_raw I f)) = phase_mask (fl_tcb f)"
proof (cases make_raw)
  case None
  then show ?thesis using assms(1) by (simp add: store_first_def Let_def)
next
  case (Some M)
  then have h: "held S Rx (ooo_reset (rcv_nxt (fl_tcb f)) M)" using assms(3) by (intro held_reset) (simp add: fresh_slots_def MAX_MBUFS_def)
  obtain ok M2 where i: "insert_mbuf (rcv_nxt (fl_tcb f)) (payload_seq I) (in_mbuf I) (in_payload_offset I) (in_len I) (in_flags I)
      (ooo_reset (rcv_nxt (fl_tcb f)) M) = (ok, M2)" by fastforce
  then show ?thesis using Some h insert_held [OF h assms(2) i] assms(1) by (simp add: store_first_def matrix_held_def Let_def)
qed

text \<open>A run does not leave the phases in which it can receive but for the closed one.\<close>

definition in_stream :: "(u32 \<Rightarrow> u8) \<Rightarrow> (u64 \<Rightarrow> memory) \<Rightarrow> tcb \<Rightarrow> bool" where
  "in_stream S Rx t = (phase_mask t \<in> insert PHASE_CLOSED data_phases \<and> matrix_held S Rx t)"

definition event_carries :: "(u32 \<Rightarrow> u8) \<Rightarrow> (u64 \<Rightarrow> memory) \<Rightarrow> gate_event \<Rightarrow> bool" where
  "event_carries S Rx e = (case e of Frame I make_raw \<Rightarrow> carries S Rx I \<and> fresh_slots make_raw | Poll _ \<Rightarrow> True)"

definition hands_on :: "(u32 \<Rightarrow> u8) \<Rightarrow> (u64 \<Rightarrow> memory) \<Rightarrow> tcb \<Rightarrow> u8 list list \<Rightarrow> tcb \<Rightarrow> bool" where
  "hands_on S Rx t bs t' = (in_stream S Rx t' \<and> (\<exists>n. concat bs = stretch S (rcv_nxt t) n \<and> rcv_nxt t' = rcv_nxt t + of_nat n))"

lemma hands_on_trans: "hands_on S Rx t bs u \<Longrightarrow> hands_on S Rx u bs' v \<Longrightarrow> hands_on S Rx t (bs @ bs') v"
proof -
  assume "hands_on S Rx t bs u" "hands_on S Rx u bs' v"
  then obtain m n where "in_stream S Rx v" "concat bs = stretch S (rcv_nxt t) m" "rcv_nxt u = rcv_nxt t + of_nat m"
    "concat bs' = stretch S (rcv_nxt u) n" "rcv_nxt v = rcv_nxt u + of_nat n" by (auto simp: hands_on_def)
  with stretch_append [of S "rcv_nxt t" m n] show ?thesis by (auto simp: hands_on_def add.assoc intro!: exI [of _ "m + n"])
qed

lemma hands_on_still: "in_stream S Rx t \<Longrightarrow> still t u \<Longrightarrow> hands_on S Rx t [] u"
  by (auto simp: hands_on_def in_stream_def matrix_held_def still_def intro!: exI [of _ 0])

lemma receive_segment_stream:
  assumes lim: "\<forall>b p. refcnt_read D b p < 0xFF00" and ph: "phase_mask (fl_tcb f) \<in> data_phases" and M: "matrix_held S Rx (fl_tcb f)"
    and c: "carries S Rx I" "fresh_slots make_raw" and res: "receive_segment A D Rx make_raw I f = (bs, ms, f')"
  shows "hands_on S Rx (fl_tcb f) bs (fl_tcb f')"
proof -
  let ?f = "f\<lparr>fl_trim := 0, fl_absorbed := False\<rparr>"
  obtain ok f1 where p: "process_inbound A D I ?f = (ok, f1)" by fastforce
  have nofin: "\<not> has (in_flags I) FLAG_FIN" using c(1) by (simp add: carries_def)
  have "\<not> given_up D (fl_tcb f1)" using lim by (auto simp: given_up_def not_le)
  moreover have "given_up D (fl_tcb (snd (ok, f1))) \<or> delivered I (fl_tcb ?f) (ok, f1) \<and> goes_on I (fl_tcb (snd (ok, f1)))"
    by (rule inbound_delivered [OF _ _ _ p]) (use ph nofin in simp_all)
  ultimately have d: "delivered I (fl_tcb f) (ok, f1)" and g: "goes_on I (fl_tcb f1)" by simp_all
  have "holds_if S Rx I (fl_tcb ?f)" using M by (simp add: holds_if_def matrix_held_def)
  then have "holds_if S Rx I (fl_tcb f1)" using kept.process_inbound_inv [of S Rx I ?f A D] p by simp
  then have s1: "in_stream S Rx (fl_tcb f1)" using c(1) g nofin by (simp add: in_stream_def holds_if_def matrix_held_def goes_on_def)
  show ?thesis
  proof (cases ok)
    case False
    then show ?thesis using res p s1 d nofin by (auto simp: receive_segment_def hands_on_def delivered_def handed_def intro!: exI [of _ 0])
  next
    case True
    obtain bs1 ms1 f2 where e: "extract_ready Rx f1 = (bs1, ms1, f2)" by (metis prod_cases3)
    define f3 where "f3 = store_first make_raw I f2"
    have r: "bs = hand_on I f1 @ bs1" "f' = control_frames D f3" using res p True e by (simp_all add: receive_segment_def f3_def Let_def)
    have h1: "hands_on S Rx (fl_tcb f) (hand_on I f1) (fl_tcb f1)"
      using hand_on_stretch [OF c(1), of "fl_tcb f" f1] d True s1 by (auto simp: hands_on_def intro!: exI [of _ "unat (fl_len f1)"])
    have h2: "hands_on S Rx (fl_tcb f1) bs1 (fl_tcb f2)"
      using extract_ready_stretch [OF _ e, of S] s1 by (auto simp: hands_on_def in_stream_def)
    then have s2: "in_stream S Rx (fl_tcb f2)" by (simp add: hands_on_def)
    have h3: "hands_on S Rx (fl_tcb f2) [] (fl_tcb f3)"
      using store_first_keeps [OF _ c, of f2] s2 by (auto simp: f3_def hands_on_def in_stream_def intro!: exI [of _ 0])
    have h4: "hands_on S Rx (fl_tcb f3) [] (fl_tcb f')"
      unfolding r(2) by (rule hands_on_still [OF _ control_frames_still(1)]) (use h3 in \<open>simp add: hands_on_def\<close>)
    from hands_on_trans [OF hands_on_trans [OF h1 h2] hands_on_trans [OF h3 h4]] show ?thesis by (simp add: r(1))
  qed
qed

lemma poll_stream:
  assumes "in_stream S Rx (fl_tcb f)"
  shows "hands_on S Rx (fl_tcb f) [] (fl_tcb (poll_connection D now f))"
proof (cases "phase_mask (fl_tcb f) = PHASE_CLOSED \<or> phase_mask (fl_tcb f) = PHASE_LISTEN")
  case True
  have "rcv_nxt (fl_tcb (clean_up D f)) = rcv_nxt (fl_tcb f)" "phase_mask (fl_tcb (clean_up D f)) = phase_mask (fl_tcb f)"
    "tcb_ooo_matrix (fl_tcb (clean_up D f)) = map_option (ooo_reset 0) (tcb_ooo_matrix (fl_tcb f))"
    by (simp_all add: clean_up_def Let_def split: option.split prod.split)
  with True assms held_reset show ?thesis
    by (auto simp: poll_never_replays hands_on_def in_stream_def matrix_held_def held_def intro!: exI [of _ 0])
next
  case False
  obtain t B where t: "on_tick D now (rto (fl_tcb f)) (fl_tcb f, fl_buf f) = (t, B)" by fastforce
  have "still (fl_tcb f) t" using still.on_tick_inv [of "fl_tcb f" "fl_tcb f" D now "rto (fl_tcb f)" "fl_buf f"] t by simp
  then have "still (fl_tcb f) (fl_tcb (control_frames D (f\<lparr>fl_tcb := t, fl_buf := B\<rparr>)))"
    using still_trans control_frames_still(1) [of "f\<lparr>fl_tcb := t, fl_buf := B\<rparr>" D] by simp
  then show ?thesis using False t hands_on_still [OF assms] by (simp add: poll_never_replays)
qed

lemma gate_step_stream:
  assumes "\<forall>b p. refcnt_read D b p < 0xFF00" "in_stream S Rx (fl_tcb f)" "event_carries S Rx e" "gate_step A D Rx e f = (bs, ms, f')"
  shows "hands_on S Rx (fl_tcb f) bs (fl_tcb f')"
proof (cases e)
  case (Frame I make_raw)
  show ?thesis
  proof (cases "phase_mask (fl_tcb f) = PHASE_CLOSED")
    case True
    then show ?thesis using Frame assms(2,4) hands_on_still [of S Rx "fl_tcb f"] by simp
  next
    case False
    then show ?thesis using Frame assms by (intro receive_segment_stream [of D f S Rx I make_raw A bs ms f']) (auto simp: in_stream_def event_carries_def)
  qed
next
  case (Poll now)
  then show ?thesis using assms(4) poll_stream [OF assms(2)] by auto
qed

lemma gate_run_stream:
  assumes "\<forall>b p. refcnt_read D b p < 0xFF00" "in_stream S Rx (fl_tcb f)" "\<forall>e\<in>set es. event_carries S Rx e" "gate_run A D Rx es f = (bs, ms, f')"
  shows "hands_on S Rx (fl_tcb f) bs (fl_tcb f')"
  using assms(2-4)
proof (induction es arbitrary: f bs ms)
  case Nil
  then show ?case using hands_on_still [of S Rx "fl_tcb f"] by auto
next
  case (Cons e es)
  obtain b1 m1 f1 where s: "gate_step A D Rx e f = (b1, m1, f1)" by (metis prod_cases3)
  obtain b2 m2 where r: "gate_run A D Rx es f1 = (b2, m2, f')" "bs = b1 @ b2" using Cons.prems(3) s by (auto split: prod.splits)
  have h: "hands_on S Rx (fl_tcb f) b1 (fl_tcb f1)" using gate_step_stream [OF assms(1) Cons.prems(1) _ s] Cons.prems(2) by simp
  then have "hands_on S Rx (fl_tcb f1) b2 (fl_tcb f')" using Cons.IH [OF _ _ r(1)] Cons.prems(2) by (simp add: hands_on_def)
  with h r(2) show ?case using hands_on_trans by blast
qed

text \<open>(C4) The bytes handed on are the stream: however the segments of a stream arrive, out of order,
  repeated, overlapping, with any flags (but a FIN), options and acknowledgements, between polls at any times, what the gateway
  hands on, from the segments themselves and from the reassembly matrix, is one unbroken stretch of the
  stream from the sequence number the connection was waiting for, and the connection waits for the first
  byte behind it. The matrix may hold segments of the stream at the start. No packet buffer is near the
  largest count of references.\<close>

theorem gateway_in_order:
  assumes "\<forall>b p. refcnt_read D b p < 0xFF00" "phase_mask (fl_tcb f) \<in> data_phases" "matrix_held S Rx (fl_tcb f)"
    "\<forall>e\<in>set es. event_carries S Rx e" "gate_run A D Rx es f = (bs, ms, f')"
  shows "\<exists>n. concat bs = stretch S (rcv_nxt (fl_tcb f)) n \<and> rcv_nxt (fl_tcb f') = rcv_nxt (fl_tcb f) + of_nat n"
  using gate_run_stream [OF assms(1) _ assms(4,5)] assms(2,3) by (auto simp: in_stream_def hands_on_def)

text \<open>Frames of the stream 0, 1, 2, and so on: one that comes too early, one that comes even earlier, then
  the first bytes, and one that overlaps them.\<close>

definition sample_frame :: "u64 \<Rightarrow> u8 \<Rightarrow> u8 \<Rightarrow> u32 \<Rightarrow> inbound" where
  "sample_frame b q flags n = (sample_segment q flags n)\<lparr>in_mbuf := b,
     in_hdr := (\<lambda>i. if i < 54 then in_hdr (sample_segment q flags n) i else q + of_nat (i - 54))\<rparr>"

definition sample_rx :: "u64 \<Rightarrow> memory" where
  "sample_rx b = in_hdr (if b = 1 then sample_frame 1 2 0x10 2 else if b = 2 then sample_frame 2 6 0x10 3 else if b = 3 then sample_frame 3 0 0x10 2
     else sample_frame 4 1 0x18 5)"

definition sample_events :: "gate_event list" where
  "sample_events = [Frame (sample_frame 1 2 0x10 2) (Some ooo_new), Frame (sample_frame 2 6 0x10 3) None, Poll 5, Frame (sample_frame 3 0 0x10 2) None,
     Frame (sample_frame 4 1 0x18 5) None]"

lemma sample_rx_frames: "Rx b = in_hdr (sample_frame b q fl n) \<Longrightarrow> n \<le> 60000 \<Longrightarrow> \<not> has fl FLAG_FIN \<Longrightarrow>
    list_all (\<lambda>j. in_hdr (sample_frame b q fl n) (54 + j) = S (payload_seq (sample_frame b q fl n) + of_nat j)) [0..<unat n] \<Longrightarrow>
    carries S Rx (sample_frame b q fl n)"
  by (simp add: carries_def list_all_iff sample_frame_def sample_segment_def in_flags_def word_le_nat_alt)

lemma sample_carries:
  "carries ucast sample_rx (sample_frame 1 2 0x10 2)" "carries ucast sample_rx (sample_frame 2 6 0x10 3)"
  "carries ucast sample_rx (sample_frame 3 0 0x10 2)" "carries ucast sample_rx (sample_frame 4 1 0x18 5)"
  by (rule sample_rx_frames; (simp add: sample_rx_def; fail | code_simp))+

lemma sample_events_carry: "\<forall>e\<in>set sample_events. event_carries ucast sample_rx e"
  by (simp add: sample_events_def event_carries_def sample_carries fresh_slots_def ooo_new_def)

text \<open>A shorter run that evaluates: without a matrix the early segment is dropped.\<close>

definition short_events :: "gate_event list" where
  "short_events = [Frame (sample_frame 1 2 0x10 2) None, Frame (sample_frame 3 0 0x10 2) None, Poll 5, Frame (sample_frame 4 1 0x18 5) None]"

lemma short_events_carry: "\<forall>e\<in>set short_events. event_carries ucast sample_rx e"
  by (simp add: short_events_def event_carries_def sample_carries fresh_slots_def)

lemma short_events_out: "fst (gate_run xor_aes plain_dpdk sample_rx short_events (sample_flow PHASE_ESTABLISHED)) = [[0, 1], [2, 3, 4, 5]]"
  by code_simp

lemma sample_start:
  "\<forall>b p. refcnt_read plain_dpdk b p < 0xFF00" "phase_mask (fl_tcb (sample_flow PHASE_ESTABLISHED)) \<in> data_phases"
  "matrix_held ucast sample_rx (fl_tcb (sample_flow PHASE_ESTABLISHED))"
  by (simp_all add: plain_dpdk_def sample_flow_def data_phases_def matrix_held_def fresh_tcb_def)

theorem gateway_in_order_witness:
  "(\<exists>bs ms f' n. gate_run xor_aes plain_dpdk sample_rx sample_events (sample_flow PHASE_ESTABLISHED) = (bs, ms, f')
      \<and> concat bs = stretch ucast 0 n \<and> rcv_nxt (fl_tcb f') = of_nat n)
   \<and> (\<exists>ms f' n. gate_run xor_aes plain_dpdk sample_rx short_events (sample_flow PHASE_ESTABLISHED) = ([[0, 1], [2, 3, 4, 5]], ms, f')
      \<and> [0, 1, 2, 3, 4, 5] = stretch ucast 0 n \<and> rcv_nxt (fl_tcb f') = of_nat n)"
proof -
  have r0: "rcv_nxt (fl_tcb (sample_flow PHASE_ESTABLISHED)) = 0" by (simp add: sample_flow_def fresh_tcb_def)
  obtain bs ms f1 where 1: "gate_run xor_aes plain_dpdk sample_rx sample_events (sample_flow PHASE_ESTABLISHED) = (bs, ms, f1)" by (metis prod_cases3)
  obtain ms2 f2 where 2: "gate_run xor_aes plain_dpdk sample_rx short_events (sample_flow PHASE_ESTABLISHED) = ([[0, 1], [2, 3, 4, 5]], ms2, f2)"
    using short_events_out by (metis prod.collapse)
  show ?thesis
    using gateway_in_order [OF sample_start sample_events_carry 1] gateway_in_order [OF sample_start short_events_carry 2] 1 2 unfolding r0 by auto
qed

subsection \<open>A segment that was refused\<close>

text \<open>The gateway does not ask why nothing is left to read. When a segment has been refused with a challenge
  and the connection has no matrix yet, the segment goes into a new one; one that starts at the awaited
  byte is handed on with the next segment that the engine accepts.\<close>

lemma refused_segment_stored:
  assumes f: "fl_len f = 0" "has (flags_pending (fl_tcb f)) FLAG_ACK" "tcb_ooo_matrix (fl_tcb f) = None"
    and I: "0 < in_len I" "in_len I \<le> 65536" "in_mbuf I \<noteq> 0" "payload_seq I = rcv_nxt (fl_tcb f)" and M: "ooo_inv M"
  shows "\<exists>M1 M2. tcb_ooo_matrix (fl_tcb (store_first (Some M) I f)) = Some M1
    \<and> extract_contiguous_mbuf (rcv_nxt (fl_tcb f)) M1 = (Some (in_mbuf I, in_len I, in_payload_offset I, in_flags I), M2)"
proof -
  let ?M = "ooo_reset (rcv_nxt (fl_tcb f)) M"
  note r = ooo_reset_spec [OF M, of "rcv_nxt (fl_tcb f)"]
  have "logical_length (in_len I) (in_flags I) = in_len I" using I(1) by (auto simp: logical_length_def)
  moreover have "0 < unat (in_len I)" "unat (in_len I) \<le> 65536" using I(1,2) by (simp_all add: unat_gt_0 word_le_nat_alt)
  moreover note new_not_full
  ultimately obtain M1 M2 where i: "insert_mbuf (rcv_nxt (fl_tcb f)) (payload_seq I) (in_mbuf I) (in_payload_offset I) (in_len I) (in_flags I) ?M = (True, M1)"
    "extract_contiguous_mbuf (payload_seq I) M1 = (Some (in_mbuf I, in_len I, in_payload_offset I, in_flags I), M2)"
    using insert_then_extract [OF r(1) I(3) refl _ refl, where r = "rcv_nxt (fl_tcb f)" and seq = "payload_seq I" and po = "in_payload_offset I"
        and len = "in_len I" and flags = "in_flags I"] r(2-4) I(4) by auto
  show ?thesis using f I i by (auto simp: store_first_def Let_def)
qed

text \<open>So with an acknowledgement of data that were never sent.\<close>

definition forged_segment :: inbound where
  "forged_segment = (sample_frame 3 0 0x10 2)\<lparr>in_hdr := (\<lambda>i. if i = 45 then 9 else in_hdr (sample_frame 3 0 0x10 2) i)\<rparr>"

lemma forged_segment_refused:
  "case process_inbound xor_aes plain_dpdk forged_segment (sample_flow PHASE_ESTABLISHED) of (ok, f) \<Rightarrow>
     ok \<and> fl_len f = 0 \<and> has (flags_pending (fl_tcb f)) FLAG_ACK \<and> tcb_ooo_matrix (fl_tcb f) = None
     \<and> rcv_nxt (fl_tcb f) = payload_seq forged_segment"
proof -
  have "(case process_inbound xor_aes plain_dpdk forged_segment (sample_flow PHASE_ESTABLISHED) of (ok, f) \<Rightarrow>
     ok \<and> fl_len f = 0 \<and> has (flags_pending (fl_tcb f)) FLAG_ACK \<and> Option.is_none (tcb_ooo_matrix (fl_tcb f))
     \<and> rcv_nxt (fl_tcb f) = payload_seq forged_segment)" by code_simp
  then show ?thesis by (simp add: Option.is_none_def split: prod.splits)
qed

end
