(* ===== verification/Spec2Isabelle.thy ===== *)
theory Spec2Isabelle
  imports Mpmc_Interleaving Timing_Wheel Ooo_Matrix Ip_Defrag Ip6_Defrag Tcp_Gateway
begin

text \<open>
  \<^bold>\<open>SlabFlux.\<close> A header-only C++ library (\<^verbatim>\<open>src/include/slabflux\<close>) of lock-free conduits, memory pools, timers
  and a user-space TCP/IP stack over DPDK. Frames come from the card; the defragmenters put IP fragments
  together; the gateway checks a frame, finds the control block of its connection and gives the segment
  to the flow engine; what the engine leaves to read, and what the reassembly matrix of the connection
  can release after it, goes to the application. The flow engine and the temporal wheel put frames into
  SPSC ring conduits, the one for the card and the one that keeps what is not acknowledged yet. This development models the conduits, two pools, the
  timing wheel and the TCP/IP path, and proves what each promises to the others.

  \<^bold>\<open>How the code is read.\<close> A structure is a record, an enumeration a set of constants, a member function a
  definition that takes the state and returns the result with the new state. Machine integers are words
  of their width and wrap. Every early return is a branch. A loop is a recursive function with its
  termination proof. Loops that may not end, the walk over IPv6 extension headers, the walks over the
  intrusive lists of the timing wheel and the filling of \<^verbatim>\<open>spsc_pool\<close> with its 32-bit index, are partial functions
  into the option type; the walks over the lists end, and the pool is filled below \<open>2 ^ 32\<close> nodes and never at
  that number. A blocking call that spins takes the list of what the other side does meanwhile as an argument,
  and its result is none if that list ends first. There is no fuel in the model. Memory is a map from offsets to bytes, little-endian; reads outside a
  buffer, where the code does not exclude them, are a result of their own.

  \<^bold>\<open>Theories.\<close>
  \<^item> \<open>Prelude\<close>: integer types, powers of two, slots of a ring, list lemmas.
  \<^item> \<open>Conduit_Spec\<close>, \<open>Ring_State\<close>, \<open>Spsc_Conduit\<close>, \<open>Spsc_Ring_Conduit\<close>: the contract of a bounded FIFO
    queue (locales \<open>fifo_rep\<close> and \<open>bounded_fifo\<close>), the members that \<^verbatim>\<open>core/spsc_conduit.hpp\<close> and
    \<^verbatim>\<open>core/spsc_ring_conduit.hpp\<close> share, and one definition per member function, with the vector copies.
    Both classes refine the queue wherever their 64-bit cursors stand. \<open>Spsc_Interleaving\<close> splits
    \<^verbatim>\<open>try_push\<close> and \<^verbatim>\<open>try_pop\<close> into their accesses to shared memory and proves, for every interleaving, with gate
    loads as stale as coherence allows, order, absence of slot races, and that a call returns after at most
    five accesses of its own, whatever the other thread does, with the effect it reports.
  \<^item> \<open>Mpmc_Conduit\<close>, \<open>Mpmc_Counting\<close>, \<open>Mpmc_Interleaving\<close>: \<^verbatim>\<open>core/mpmc_conduit.hpp\<close>, the lanes one call at
    a time, and the ticket protocol of a lane under any number of threads. \<open>Mpmc_Interleaving\<close> has the accesses of
    \<^verbatim>\<open>try_push\<close> and \<^verbatim>\<open>try_pop\<close> with 64-bit positions, tickets and signed differences; while fewer than
    \<open>2 ^ 63\<close> items less the capacity have been pushed, each step is one of \<open>Mpmc_Counting\<close>, the same protocol on
    natural numbers, where the invariants are proved. The bound is that of the signed difference, centuries
    of traffic.
  \<^item> \<open>Pool_Spec\<close>, \<open>Spsc_Pool\<close>: \<^verbatim>\<open>core/spsc_pool.hpp\<close> and \<^verbatim>\<open>core/spsc_ring_pool.hpp\<close>; no node is lost or handed
    out twice.
  \<^item> \<open>Timer_Spec\<close>, \<open>Timing_Wheel\<close>: \<^verbatim>\<open>core/timing_wheel.hpp\<close> on intrusive lists refines a map of deadlines
    (locales \<open>clock_service\<close> and \<open>timer_service\<close>). A wheel that also holds timers set when they were overdue is
    a \<open>clock_service\<close> only: it fires the others on time and these never.
  \<^item> \<open>Range_Mask\<close>, \<open>Bit_Scan\<close>, \<open>Ooo_Matrix\<close>: the bit masks over a 64 KB window as sets of bytes, and
    \<^verbatim>\<open>net/tcp_spatial_ooo_matrix.hpp\<close> over them.
  \<^item> \<open>Wire\<close>: \<^verbatim>\<open>core/endian.hpp\<close> and the Internet checksum of \<^verbatim>\<open>net/tcp_wire_engine.hpp\<close>, which is that of
    RFC 1071.
  \<^item> \<open>Reassembly_Spec\<close>, \<open>Ip_Defrag\<close>, \<open>Ip6_Defrag\<close>: \<^verbatim>\<open>process_fragment\<close> of the two defragmenters; the
    fragments of a payload deliver it in whatever order they come (locale \<open>reassembler\<close>).
  \<^item> \<open>Syn_Cookie\<close>: \<^verbatim>\<open>net/tcp_syn_cookie.hpp\<close>, keys, generation and validation; a cookie validates in time, and its
    copies are refused until another one takes its place in the replay cache.
  \<^item> \<open>Tcp_Block\<close>, \<open>Tcp_Timers\<close>: the control block (\<^verbatim>\<open>net/tcp_transmission_control_block.hpp\<close>), the outbound
    segment, the round-trip estimator (\<^verbatim>\<open>net/tcp_retransmit_timer.hpp\<close>) and \<^verbatim>\<open>on_tick\<close> of
    \<^verbatim>\<open>net/tcp_temporal_wheel.hpp\<close>; a silent peer is given up, the timeout follows the samples.
  \<^item> \<open>Tcp_Inbound\<close>, \<open>Tcp_Flow\<close>: \<^verbatim>\<open>process_inbound\<close> of \<^verbatim>\<open>net/tcp_flow_engine.hpp\<close> as a sequence of stages, and what
    it does with a segment: what is handed on, resets, late data.
  \<^item> \<open>Tcp_Outbound\<close>: \<^verbatim>\<open>prepare_outbound_header\<close>, \<^verbatim>\<open>prepare_outbound\<close> and \<^verbatim>\<open>dispatch_control_frames\<close>; headers and SYN
    options are read back by the receiving half as they were meant, the IPv4 header checksum is right, and so is
    the TCP checksum of empty segments and keep-alive probes, over the pseudo header of RFC 793 and RFC 8200.
  \<^item> \<open>Tcp_Stages\<close>: the locales \<open>timer_invariant\<close> and \<open>segment_invariant\<close>, which carry a property of the block
    through timers, control frames and all stages of a segment. \<open>Tcp_Engine\<close> interprets them for the
    well-formedness of a block and has the engine as a step relation.
  \<^item> \<open>Tcp_Gateway\<close>: what \<^verbatim>\<open>on_raw_frame\<close> of \<^verbatim>\<open>net/tcp_gateway.hpp\<close> does with a segment after its checks, and
    \<^verbatim>\<open>poll_temporal\<close> for one block. It interprets the locales for the contents of the matrix and for what
    the timers leave alone, and shows that the application is given the stream of the peer.

  \<^bold>\<open>Parameters.\<close> What is not under \<^verbatim>\<open>src\<close> is an argument: \<^verbatim>\<open>mmap\<close>, the node pool of the timing wheel, the CRC
  and AES instructions, the entropy sources and the clock, DPDK's packet buffers with their counts, the
  pool of matrices. Sizes of rings are powers of two given by the state; the window of the matrix and of the
  defragmenters is the 64 KB of the code.

  \<^bold>\<open>Not modelled.\<close> Of \<^verbatim>\<open>net/tcp_gateway.hpp\<close> the checks of a frame, UDP, listening with SYN cookies and the table of
  connections: blocks of the table share one egress conduit through a pointer, which a record per block
  cannot express. \<^verbatim>\<open>net/public_tcp_gateway.hpp\<close> repeats the gateway over user callbacks. The further
  conduits and pools of \<^verbatim>\<open>core\<close> are not used by the modelled parts. The TLS machine, cryptography on
  hardware instructions, HTTP and JSON parsing, sockets, files, RDMA, thread start-up and CPU affinity
  are I/O or call libraries the repository does not hold; \<^verbatim>\<open>pipeline\<close> and \<^verbatim>\<open>automation\<close> are computed by the C++
  compiler from types; \<^verbatim>\<open>compute\<close> and \<^verbatim>\<open>ai\<close> are floating-point kernels; the meta compiler reads and writes
  source files. Memory ordering is modelled for the shared accesses of the SPSC and MPMC conduits only.
  Output for debugging and the branches that a compile-time constant switches off are left out.
\<close>

end
